(* ===== verification/Nano_Prelude.thy ===== *)
theory Nano_Prelude
  imports Main "HOL-Library.Word" "HOL-Library.Multiset"
begin

text \<open>
  Shared vocabulary of the development: the abnormal outcomes of the C++ code
  (\<open>fault\<close>), the result type of an operation that may end in one of them, the bounds of
  the fixed-width integers, the clock readings an operation makes, and the list and
  arithmetic lemmas that several components use.

  \<^item> \<open>fault\<close>: what ends a call other than by a return: an allocation that fails, a
    standard-library exception, or an operation the C++ standard leaves undefined.  A
    definition that can reach such a point returns \<open>Inl\<close> of it; nothing of the state
    survives, because none of these is caught by the program.
  \<^item> \<open>clock\<close>: the readings of \<open>CurrentTimeMs()\<close>; \<open>clk i\<close> is the reading made at
    the \<open>i\<close>-th call site of an operation.
\<close>

section \<open>Faults and results\<close>

datatype fault =
    BadAlloc          \<comment> \<open>\<open>std::bad_alloc\<close>: the directory of a table cannot grow\<close>
  | LengthError       \<comment> \<open>\<open>std::length_error\<close> of \<open>resize\<close> and \<open>reserve\<close>\<close>
  | OutOfRange        \<comment> \<open>\<open>std::out_of_range\<close> of \<open>substr\<close>\<close>
  | SignedOverflow    \<comment> \<open>signed integer overflow, undefined behaviour\<close>
  | ShiftRange        \<comment> \<open>a shift by at least the width of its operand, undefined behaviour\<close>
  | NullDeref         \<comment> \<open>use of a null or wrongly typed object pointer\<close>
  | InvalidView       \<comment> \<open>a \<open>string_view\<close> whose end lies before its start\<close>
  | Diverges          \<comment> \<open>the bound on the number of loop rounds was exceeded\<close>

type_synonym 'a result = "fault + 'a"

type_synonym clock = "nat \<Rightarrow> int"

fun bind_r :: "'a result \<Rightarrow> ('a \<Rightarrow> 'b result) \<Rightarrow> 'b result" where
  "bind_r (Inl e) f = Inl e"
| "bind_r (Inr x) f = f x"

section \<open>Integer bounds\<close>

definition INT64_MAX :: int where
  "INT64_MAX = 9223372036854775807"

definition INT64_MIN :: int where
  "INT64_MIN = - 9223372036854775808"

definition UINT64_MAX :: nat where
  "UINT64_MAX = 18446744073709551615"

definition in_int64 :: "int \<Rightarrow> bool" where
  "in_int64 v \<longleftrightarrow> INT64_MIN \<le> v \<and> v \<le> INT64_MAX"

text \<open>Signed 64-bit addition and subtraction: overflow is undefined behaviour.\<close>

definition add_i64 :: "int \<Rightarrow> int \<Rightarrow> int result" where
  "add_i64 a b = (if in_int64 (a + b) then Inr (a + b) else Inl SignedOverflow)"

definition sub_i64 :: "int \<Rightarrow> int \<Rightarrow> int result" where
  "sub_i64 a b = (if in_int64 (a - b) then Inr (a - b) else Inl SignedOverflow)"

text \<open>C++ integer division rounds towards zero.\<close>

definition cdiv :: "int \<Rightarrow> int \<Rightarrow> int" where
  "cdiv a b = sgn a * sgn b * (\<bar>a\<bar> div \<bar>b\<bar>)"

section \<open>Collections of facts\<close>

named_theorems bounds_defs "definitions of the integer bounds"

declare INT64_MAX_def [bounds_defs] INT64_MIN_def [bounds_defs]
  UINT64_MAX_def [bounds_defs] in_int64_def [bounds_defs]

section \<open>Generic lemmas\<close>

lemma bind_r_Inr_iff: "bind_r r f = Inr y \<longleftrightarrow> (\<exists>x. r = Inr x \<and> f x = Inr y)"
  by (cases r) auto

lemma bind_r_Inl_iff: "bind_r r f = Inl e \<longleftrightarrow> r = Inl e \<or> (\<exists>x. r = Inr x \<and> f x = Inl e)"
  by (cases r) auto

lemma bind_r_assoc: "bind_r (bind_r r f) g = bind_r r (\<lambda>x. bind_r (f x) g)"
  by (cases r) auto

lemma set_mset_diff_single:
  assumes "count M a \<le> 1"
  shows "set_mset (M - {#a#}) = set_mset M - {a}"
proof -
  have "x \<in># M - {#a#} \<longleftrightarrow> x \<in># M \<and> x \<noteq> a" for x
  proof (cases "x = a")
    case True
    have "count (M - {#a#}) a = 0" using assms by simp
    with True show ?thesis by (simp only: not_in_iff [symmetric]) simp
  next
    case False
    then have "count (M - {#a#}) x = count M x" by simp
    with False show ?thesis by (metis count_greater_zero_iff)
  qed
  then show ?thesis by auto
qed

lemma div_block_iff:
  fixes i j c :: nat
  assumes "0 < c"
  shows "i div c = j div c \<longleftrightarrow> j div c * c \<le> i \<and> i < j div c * c + c"
proof
  assume eq: "i div c = j div c"
  have "i div c * c + i mod c = i" by (rule div_mult_mod_eq)
  moreover have "i mod c < c" using assms by simp
  ultimately show "j div c * c \<le> i \<and> i < j div c * c + c"
    unfolding eq [symmetric] by linarith
next
  assume "j div c * c \<le> i \<and> i < j div c * c + c"
  then show "i div c = j div c"
    by (auto intro!: div_nat_eqI simp: algebra_simps)
qed

lemma div_pow2_split:
  fixes x :: nat
  shows "x div 2 ^ n div 2 = x div 2 ^ Suc n"
  by (metis div_mult2_eq power_Suc2)

end
