(* ===== verification/Nano_Util.thy ===== *)
theory Nano_Util
  imports Nano_Prelude
begin

text \<open>
  \<open>src/core/util.cc\<close> (\<open>String2ll\<close>, \<open>EqualsIgnoreCase\<close>) and the number conversions of
  the C++ standard library that the command handlers call: \<open>std::to_string\<close> and
  \<open>std::to_chars\<close> (\<open>to_string\<close>), \<open>std::from_chars\<close>, \<open>std::strtoll\<close>,
  \<open>std::stoll\<close> and \<open>std::stoull\<close>, each in base 10.  Strings are lists of bytes.
\<close>

section \<open>Definitions\<close>

subsection \<open>Decimal digits\<close>

definition is_digit :: "char \<Rightarrow> bool" where
  "is_digit c \<longleftrightarrow> 48 \<le> (of_char c :: nat) \<and> (of_char c :: nat) \<le> 57"

definition digit_val :: "char \<Rightarrow> nat" where
  "digit_val c = of_char c - 48"

definition digit_char :: "nat \<Rightarrow> char" where
  "digit_char d = char_of (48 + d)"

fun to_digits :: "nat \<Rightarrow> string" where
  "to_digits n = (if n < 10 then [digit_char n] else to_digits (n div 10) @ [digit_char (n mod 10)])"

definition to_string :: "int \<Rightarrow> string" where
  "to_string v = (if v < 0 then CHR ''-'' # to_digits (nat (- v)) else to_digits (nat v))"

fun dec_value :: "nat \<Rightarrow> string \<Rightarrow> nat" where
  "dec_value acc [] = acc"
| "dec_value acc (c # cs) = dec_value (10 * acc + digit_val c) cs"

subsection \<open>\<open>String2ll\<close>\<close>

fun String2ll_loop :: "nat \<Rightarrow> string \<Rightarrow> (nat \<times> string) option" where
  "String2ll_loop v [] = Some (v, [])"
| "String2ll_loop v (c # cs) =
     (if is_digit c then
        (if v > UINT64_MAX div 10 then None
         else let v = v * 10; digit = digit_val c in
           if v > UINT64_MAX - digit then None
           else String2ll_loop (v + digit) cs)
      else Some (v, c # cs))"

definition String2ll :: "string \<Rightarrow> int option" where
  "String2ll s =
     (let slen = length s in
      if slen = 0 \<or> slen \<ge> 21 then None
      else if slen = 1 \<and> is_digit (hd s) then Some (int (digit_val (hd s)))
      else
        let negative = (hd s = CHR ''-'');
            p = (if negative then tl s else s)
        in if p = [] then None
           else if 49 \<le> (of_char (hd p) :: nat) \<and> (of_char (hd p) :: nat) \<le> 57 then
             (case String2ll_loop (digit_val (hd p)) (tl p) of
                None \<Rightarrow> None
              | Some (v, rest) \<Rightarrow>
                  if rest \<noteq> [] then None
                  else if negative then
                    (let max_negative = nat (- (INT64_MIN + 1)) + 1 in
                     if v > max_negative then None
                     else if v = max_negative then Some INT64_MIN
                     else Some (- int v))
                  else if v > nat INT64_MAX then None
                  else Some (int v))
           else None)"

subsection \<open>\<open>EqualsIgnoreCase\<close>\<close>

definition ToUpperAscii :: "char \<Rightarrow> char" where
  "ToUpperAscii c =
     (if 97 \<le> (of_char c :: nat) \<and> (of_char c :: nat) \<le> 122
      then char_of ((of_char c :: nat) - 97 + 65) else c)"

fun EqualsIgnoreCase_loop :: "string \<Rightarrow> string \<Rightarrow> bool" where
  "EqualsIgnoreCase_loop (x # xs) (y # ys) =
     (if ToUpperAscii x \<noteq> ToUpperAscii y then False else EqualsIgnoreCase_loop xs ys)"
| "EqualsIgnoreCase_loop _ _ = True"

definition EqualsIgnoreCase :: "string \<Rightarrow> string \<Rightarrow> bool" where
  "EqualsIgnoreCase a b = (if length a \<noteq> length b then False else EqualsIgnoreCase_loop a b)"

subsection \<open>Conversions of the standard library\<close>

text \<open>
  \<open>std::from_chars\<close> on an \<open>int64_t\<close>: an optional minus sign and a non-empty run of
  digits; \<open>None\<close> is any error code (no digits, or out of range), otherwise the value and
  what is left of the input.
\<close>

definition from_chars_i64 :: "string \<Rightarrow> (int \<times> string) option" where
  "from_chars_i64 s =
     (let neg = (s \<noteq> [] \<and> hd s = CHR ''-'');
          p = (if neg then tl s else s);
          ds = takeWhile is_digit p
      in if ds = [] then None
         else let m = int (dec_value 0 ds); v = (if neg then - m else m)
              in if in_int64 v then Some (v, dropWhile is_digit p) else None)"

text \<open>\<open>std::from_chars\<close> on a \<open>uint64_t\<close> takes no sign.\<close>

definition from_chars_u64 :: "string \<Rightarrow> (nat \<times> string) option" where
  "from_chars_u64 s =
     (let ds = takeWhile is_digit s
      in if ds = [] \<or> dec_value 0 ds > UINT64_MAX then None
         else Some (dec_value 0 ds, dropWhile is_digit s))"

text \<open>
  The C functions read up to the first NUL byte, skip white space, take an optional sign
  and the longest run of digits.  \<open>None\<close> is "no conversion"; otherwise the sign, the
  magnitude, and what the end pointer points at.
\<close>

definition is_space :: "char \<Rightarrow> bool" where
  "is_space c \<longleftrightarrow> of_char c = (32 :: nat) \<or> (9 \<le> (of_char c :: nat) \<and> (of_char c :: nat) \<le> 13)"

definition c_str :: "string \<Rightarrow> string" where
  "c_str s = takeWhile (\<lambda>c. (of_char c :: nat) \<noteq> 0) s"

definition scan_number :: "string \<Rightarrow> (bool \<times> nat \<times> string) option" where
  "scan_number s =
     (let p = dropWhile is_space (c_str s);
          neg = (p \<noteq> [] \<and> hd p = CHR ''-'');
          q = (if p \<noteq> [] \<and> (hd p = CHR ''-'' \<or> hd p = CHR ''+'') then tl p else p);
          ds = takeWhile is_digit q
      in if ds = [] then None else Some (neg, dec_value 0 ds, dropWhile is_digit q))"

text \<open>\<open>strtoll\<close> saturates and reports \<open>ERANGE\<close>.\<close>

definition strtoll :: "string \<Rightarrow> (int \<times> string \<times> bool) option" where
  "strtoll s =
     (case scan_number s of
        None \<Rightarrow> None
      | Some (neg, m, rest) \<Rightarrow>
          let v = (if neg then - int m else int m)
          in if v > INT64_MAX then Some (INT64_MAX, rest, True)
             else if v < INT64_MIN then Some (INT64_MIN, rest, True)
             else Some (v, rest, False))"

text \<open>\<open>std::stoll\<close> throws when nothing is converted or the value is out of range (\<open>None\<close>).\<close>

definition stoll :: "string \<Rightarrow> int option" where
  "stoll s =
     (case strtoll s of
        None \<Rightarrow> None
      | Some (v, rest, erange) \<Rightarrow> if erange then None else Some v)"

text \<open>\<open>std::stoull\<close>: a minus sign negates modulo $2^{64}$.\<close>

definition stoull :: "string \<Rightarrow> nat option" where
  "stoull s =
     (case scan_number s of
        None \<Rightarrow> None
      | Some (neg, m, rest) \<Rightarrow>
          if m > UINT64_MAX then None
          else if neg \<and> m \<noteq> 0 then Some (UINT64_MAX + 1 - m) else Some m)"

subsection \<open>The parsers of the command families\<close>

text \<open>\<open>StringFamily::ParseInt\<close>: the whole argument must be consumed.\<close>

definition ParseInt :: "string \<Rightarrow> int option" where
  "ParseInt s =
     (case from_chars_i64 s of
        None \<Rightarrow> None
      | Some (v, rest) \<Rightarrow> if rest \<noteq> [] then None else Some v)"

text \<open>
  \<open>ParseLongLong\<close> of the hash, set and list families.  It rejects the two extreme values,
  which it takes for the saturated results of \<open>strtoll\<close>.
\<close>

definition ParseLongLong :: "string \<Rightarrow> int option" where
  "ParseLongLong s =
     (case strtoll s of
        None \<Rightarrow> None
      | Some (v, rest, erange) \<Rightarrow>
          if rest \<noteq> [] then None
          else if v = INT64_MAX \<or> v = INT64_MIN then None
          else Some v)"

text \<open>\<open>ParseUint64\<close> of the server family.\<close>

definition ParseUint64 :: "string \<Rightarrow> nat option" where
  "ParseUint64 s =
     (case from_chars_u64 s of
        None \<Rightarrow> None
      | Some (v, rest) \<Rightarrow> if rest \<noteq> [] then None else Some v)"

section \<open>Digits and decimal values\<close>

declare to_digits.simps [simp del]

lemma is_digit_digit_char [simp]: "d < 10 \<Longrightarrow> is_digit (digit_char d)"
  by (simp add: is_digit_def digit_char_def)

lemma digit_val_digit_char [simp]: "d < 10 \<Longrightarrow> digit_val (digit_char d) = d"
  by (simp add: digit_val_def digit_char_def)

lemma digit_val_less: "is_digit c \<Longrightarrow> digit_val c < 10"
  unfolding is_digit_def digit_val_def by linarith

lemma digit_char_digit_val: "is_digit c \<Longrightarrow> digit_char (digit_val c) = c"
  by (simp add: is_digit_def digit_val_def digit_char_def)

lemma digit_not_minus: "is_digit c \<Longrightarrow> c \<noteq> CHR ''-''"
  by (auto simp: is_digit_def)

lemma dec_value_append: "dec_value acc (s @ [c]) = 10 * dec_value acc s + digit_val c"
  by (induction s arbitrary: acc) auto

lemma dec_value_ge: "acc \<le> dec_value acc s"
proof (induction s arbitrary: acc)
  case (Cons c s)
  from Cons.IH [of "10 * acc + digit_val c"] show ?case by simp
qed simp

lemma to_digits_nonempty [simp]: "to_digits n \<noteq> []"
  by (subst to_digits.simps) simp

lemma to_digits_all_digits: "list_all is_digit (to_digits n)"
proof (induction n rule: to_digits.induct)
  case (1 n)
  then show ?case by (subst to_digits.simps) auto
qed

lemma set_to_digits: "c \<in> set (to_digits n) \<Longrightarrow> is_digit c"
  using to_digits_all_digits [of n] by (simp add: list_all_iff)

lemma Ball_to_digits [simp]: "(\<forall>c\<in>set (to_digits n). is_digit c) \<longleftrightarrow> True"
  by (simp add: set_to_digits)

lemma hd_to_digits_digit: "is_digit (hd (to_digits n))"
  using set_to_digits [of "hd (to_digits n)" n] by simp

lemma dec_value_to_digits: "dec_value 0 (to_digits n) = n"
proof (induction n rule: to_digits.induct)
  case (1 n)
  then show ?case
    by (subst to_digits.simps) (auto simp: dec_value_append)
qed

lemma hd_to_digits: "0 < n \<Longrightarrow> 0 < digit_val (hd (to_digits n))"
proof (induction n rule: to_digits.induct)
  case (1 n)
  show ?case
  proof (cases "n < 10")
    case True
    with 1 show ?thesis by (subst to_digits.simps) simp
  next
    case False
    with 1 have "0 < digit_val (hd (to_digits (n div 10)))" by simp
    with False show ?thesis by (subst to_digits.simps) (simp add: hd_append)
  qed
qed

lemma length_to_digits: "n < 10 ^ k \<Longrightarrow> 0 < k \<Longrightarrow> length (to_digits n) \<le> k"
proof (induction n arbitrary: k rule: to_digits.induct)
  case (1 n)
  show ?case
  proof (cases "n < 10")
    case True
    with 1 show ?thesis by (subst to_digits.simps) simp
  next
    case False
    then obtain j where k: "k = Suc j" "0 < j"
      using "1.prems" by (cases k; cases "k - 1") auto
    with "1.prems" have "n div 10 < 10 ^ j" by auto
    with "1.IH" False k have "length (to_digits (n div 10)) \<le> j" by simp
    with False k show ?thesis by (subst to_digits.simps) simp
  qed
qed

text \<open>A run of digits that does not start with a zero is the numeral of its value.\<close>

lemma dec_value_pos:
  "s \<noteq> [] \<Longrightarrow> 0 < digit_val (hd s) \<Longrightarrow> 0 < dec_value 0 s"
proof (cases s)
  case (Cons c cs)
  assume "0 < digit_val (hd s)"
  with Cons show ?thesis using dec_value_ge [of "digit_val c" cs] by simp
qed simp

lemma to_digits_dec_value:
  "s \<noteq> [] \<Longrightarrow> list_all is_digit s \<Longrightarrow> 0 < digit_val (hd s) \<Longrightarrow> to_digits (dec_value 0 s) = s"
proof (induction s rule: rev_induct)
  case (snoc c s)
  then have c: "is_digit c" and s: "list_all is_digit s" by simp_all
  show ?case
  proof (cases "s = []")
    case True
    with c show ?thesis
      by (simp add: to_digits.simps digit_val_less digit_char_digit_val)
  next
    case False
    with snoc.prems have h: "0 < digit_val (hd s)" by simp
    with False s snoc.IH have IH: "to_digits (dec_value 0 s) = s" by simp
    have pos: "0 < dec_value 0 s" using False h by (rule dec_value_pos)
    have lt: "digit_val c < 10" using c by (rule digit_val_less)
    have "to_digits (10 * dec_value 0 s + digit_val c) = s @ [c]"
      using pos lt c IH by (subst to_digits.simps) (simp add: digit_char_digit_val)
    then show ?thesis by (simp add: dec_value_append)
  qed
qed simp

section \<open>\<open>String2ll\<close> recognises exactly the canonical numerals\<close>

lemma String2ll_loop_iff:
  "v \<le> UINT64_MAX \<Longrightarrow>
     String2ll_loop v s = Some (w, []) \<longleftrightarrow>
     list_all is_digit s \<and> w = dec_value v s \<and> w \<le> UINT64_MAX"
proof (induction s arbitrary: v)
  case Nil
  then show ?case by auto
next
  case (Cons c s)
  show ?case
  proof (cases "is_digit c")
    case False
    then show ?thesis by simp
  next
    case True
    then have d: "digit_val c < 10" by (rule digit_val_less)
    show ?thesis
    proof (cases "v * 10 + digit_val c \<le> UINT64_MAX")
      case le: True
      then have "\<not> v > UINT64_MAX div 10" "\<not> v * 10 > UINT64_MAX - digit_val c"
        unfolding UINT64_MAX_def by linarith+
      with True Cons.IH [OF le] show ?thesis
        by (simp add: Let_def mult.commute)
    next
      case gt: False
      then have "v > UINT64_MAX div 10 \<or> v * 10 > UINT64_MAX - digit_val c"
        using d unfolding UINT64_MAX_def by linarith
      then have "String2ll_loop v (c # s) = None" using True by (auto simp: Let_def)
      moreover have "\<not> dec_value v (c # s) \<le> UINT64_MAX"
        using gt dec_value_ge [of "10 * v + digit_val c" s] by simp
      ultimately show ?thesis by auto
    qed
  qed
qed

lemma first_digit_nonzero:
  "49 \<le> (of_char c :: nat) \<and> (of_char c :: nat) \<le> 57 \<longleftrightarrow> is_digit c \<and> 0 < digit_val c"
  unfolding is_digit_def digit_val_def by linarith

lemma to_digits_single: "n < 10 \<Longrightarrow> to_digits n = [digit_char n]"
  by (simp add: to_digits.simps)

text \<open>The magnitude part, shared by both signs.\<close>

lemma String2ll_magnitude:
  assumes "p \<noteq> []"
  shows "(is_digit (hd p) \<and> 0 < digit_val (hd p) \<and>
            String2ll_loop (digit_val (hd p)) (tl p) = Some (w, [])) \<longleftrightarrow>
         0 < w \<and> w \<le> UINT64_MAX \<and> p = to_digits w"
proof -
  obtain c cs where p: "p = c # cs" using assms by (cases p) auto
  have "is_digit c \<Longrightarrow> digit_val c \<le> UINT64_MAX"
    using digit_val_less [of c] by (simp add: UINT64_MAX_def)
  then have loop: "is_digit c \<Longrightarrow>
      String2ll_loop (digit_val c) cs = Some (w, []) \<longleftrightarrow>
      list_all is_digit cs \<and> w = dec_value 0 p \<and> w \<le> UINT64_MAX"
    by (simp add: String2ll_loop_iff p)
  have fwd: "0 < w \<and> p = to_digits w"
    if "is_digit c" "0 < digit_val c" "list_all is_digit cs" "w = dec_value 0 p"
    using that to_digits_dec_value [of p] dec_value_pos [of p] p by simp
  have bwd: "is_digit c \<and> 0 < digit_val c \<and> list_all is_digit cs \<and> w = dec_value 0 p"
    if "0 < w" "p = to_digits w"
    using that hd_to_digits [of w] to_digits_all_digits [of w] dec_value_to_digits [of w] p
    by (metis list.pred_inject(2) list.sel(1))
  have w: "dec_value 0 p = dec_value (digit_val c) cs" by (simp add: p)
  show ?thesis
    unfolding p list.sel using loop fwd bwd w unfolding p by blast
qed

lemma length_to_string:
  assumes "in_int64 v"
  shows "length (to_string v) \<le> 20"
proof -
  have *: "length (to_digits n) \<le> 19" if "n \<le> 9223372036854775808" for n
    by (rule length_to_digits) (use that in simp_all)
  show ?thesis
  proof (cases "v < 0")
    case True
    then have "length (to_digits (nat (- v))) \<le> 19"
      using assms by (intro *) (simp add: bounds_defs)
    with True show ?thesis by (simp add: to_string_def)
  next
    case False
    then have "length (to_digits (nat v)) \<le> 19"
      using assms by (intro *) (simp add: bounds_defs)
    with False show ?thesis by (simp add: to_string_def)
  qed
qed

lemma to_string_nonempty [simp]: "to_string v \<noteq> []"
  by (simp add: to_string_def)

lemma hd_to_digits_not_minus: "hd (to_digits n) \<noteq> CHR ''-''"
  using hd_to_digits_digit [of n] by (rule digit_not_minus)

lemma to_digits_inject: "to_digits m = to_digits n \<longleftrightarrow> m = n"
  by (metis dec_value_to_digits)

lemma to_string_inject [simp]: "to_string v = to_string w \<longleftrightarrow> v = w"
proof -
  have "CHR ''-'' # xs \<noteq> to_digits n" for xs n
    using hd_to_digits_not_minus [of n] by (metis list.sel(1))
  then have "CHR ''-'' # xs \<noteq> to_digits n" "to_digits n \<noteq> CHR ''-'' # xs" for xs n
    by (metis, metis)
  then show ?thesis
    by (auto simp: to_string_def to_digits_inject)
qed

lemma length_to_digits_gt1: "10 \<le> n \<Longrightarrow> 1 < length (to_digits n)"
  by (subst to_digits.simps) simp


text \<open>
  The decoder succeeds on the numeral \<open>to_digits\<close> / \<open>to_string\<close> prints and on nothing else.
\<close>

lemma String2ll_SomeD:
  assumes "String2ll s = Some v"
  shows "in_int64 v \<and> s = to_string v"
proof -
  let ?neg = "hd s = CHR ''-''"
  let ?p = "if ?neg then tl s else s"
  have len: "s \<noteq> []" "length s < 21"
    using assms by (auto simp: String2ll_def Let_def split: if_splits)
  show ?thesis
  proof (cases "length s = 1 \<and> is_digit (hd s)")
    case True
    then obtain c where c: "s = [c]" "is_digit c" by (cases s) auto
    with assms have "v = int (digit_val c)" by (simp add: String2ll_def)
    with c digit_val_less [OF c(2)] show ?thesis
      by (simp add: bounds_defs to_string_def to_digits_single digit_char_digit_val)
  next
    case False
    with assms len obtain w where
      p: "?p \<noteq> []" and w: "is_digit (hd ?p)" "0 < digit_val (hd ?p)"
        "String2ll_loop (digit_val (hd ?p)) (tl ?p) = Some (w, [])"
      and v: "if ?neg then w \<le> nat (- (INT64_MIN + 1)) + 1 \<and> v = - int w
              else w \<le> nat INT64_MAX \<and> v = int w"
      by (auto simp: String2ll_def Let_def first_digit_nonzero bounds_defs
          split: if_splits option.splits prod.splits)
    from String2ll_magnitude [OF p, of w] w have "0 < w" "?p = to_digits w" by auto
    with v len show ?thesis
      by (cases s) (auto simp: to_string_def bounds_defs split: if_splits)
  qed
qed

lemma String2ll_unfold:
  assumes "s \<noteq> []" "length s < 21" "\<not> (length s = 1 \<and> is_digit (hd s))"
    and p: "p = (if hd s = CHR ''-'' then tl s else s)" "p \<noteq> []"
    and w: "0 < w" "w \<le> UINT64_MAX" "p = to_digits w"
  shows "String2ll s =
    (if hd s = CHR ''-''
     then (if w > 9223372036854775808 then None else Some (- int w))
     else if w > 9223372036854775807 then None else Some (int w))"
proof -
  have loop: "is_digit (hd p)" "0 < digit_val (hd p)"
    "String2ll_loop (digit_val (hd p)) (tl p) = Some (w, [])"
    using String2ll_magnitude [OF p(2), of w] w by simp_all
  have nz: "49 \<le> (of_char (hd p) :: nat) \<and> (of_char (hd p) :: nat) \<le> 57"
    using loop by (simp add: first_digit_nonzero)
  have one: "(length s = 1 \<and> is_digit (hd s)) = False" "(length s = 0 \<or> 21 \<le> length s) = False"
    using assms by auto
  show ?thesis
    unfolding String2ll_def Let_def p(1) [symmetric] one if_False
    by (simp add: p(2) nz loop(3) bounds_defs)
qed

lemma String2ll_to_string:
  assumes "in_int64 v"
  shows "String2ll (to_string v) = Some v"
proof (cases "0 \<le> v \<and> v < 10")
  case True
  then have "to_string v = [digit_char (nat v)]"
    using to_digits_single [of "nat v"] by (auto simp: to_string_def)
  moreover have "nat v < 10" using True by linarith
  ultimately show ?thesis using True by (simp add: String2ll_def)
next
  case False
  have len: "length (to_string v) < 21" using length_to_string [OF assms] by simp
  show ?thesis
  proof (cases "v < 0")
    case True
    let ?w = "nat (- v)"
    have s: "to_string v = CHR ''-'' # to_digits ?w" using True by (simp add: to_string_def)
    have "0 < ?w" "?w \<le> UINT64_MAX" "\<not> ?w > 9223372036854775808"
      using True assms by (auto simp: bounds_defs)
    with len True show ?thesis
      by (subst String2ll_unfold [of _ "to_digits ?w" ?w]) (simp_all add: s)
  next
    case v: False
    let ?w = "nat v"
    have s: "to_string v = to_digits ?w" using v by (simp add: to_string_def)
    have "10 \<le> ?w" using v False by linarith
    then have "1 < length (to_digits ?w)" by (rule length_to_digits_gt1)
    moreover have "0 < ?w" "?w \<le> UINT64_MAX" "\<not> ?w > 9223372036854775807"
      using \<open>10 \<le> ?w\<close> assms by (auto simp: bounds_defs)
    ultimately show ?thesis
      using len v by (subst String2ll_unfold [of _ "to_digits ?w" ?w])
        (simp_all add: s hd_to_digits_not_minus)
  qed
qed

text \<open>
  C1 (\<open>src/core/util.cc\<close>, \<open>String2ll\<close>): the conversion succeeds exactly on the decimal
  numerals that \<open>std::to_string\<close> prints for a 64-bit signed integer (no leading zeros,
  no plus sign, nothing out of range), and it returns that integer.  So integer encoding
  of a key or value loses no byte of it.
\<close>

theorem String2ll_iff: "String2ll s = Some v \<longleftrightarrow> in_int64 v \<and> s = to_string v"
  using String2ll_SomeD String2ll_to_string by blast

section \<open>\<open>EqualsIgnoreCase\<close>\<close>

lemma EqualsIgnoreCase_loop_iff:
  "length a = length b \<Longrightarrow> EqualsIgnoreCase_loop a b \<longleftrightarrow> map ToUpperAscii a = map ToUpperAscii b"
  by (induction a b rule: EqualsIgnoreCase_loop.induct) auto

lemma EqualsIgnoreCase_iff: "EqualsIgnoreCase a b \<longleftrightarrow> map ToUpperAscii a = map ToUpperAscii b"
  unfolding EqualsIgnoreCase_def
  using EqualsIgnoreCase_loop_iff [of a b] map_eq_imp_length_eq [of ToUpperAscii a ToUpperAscii b]
  by auto

lemma EqualsIgnoreCase_refl [simp]: "EqualsIgnoreCase a a"
  by (simp add: EqualsIgnoreCase_iff)

lemma EqualsIgnoreCase_sym: "EqualsIgnoreCase a b \<Longrightarrow> EqualsIgnoreCase b a"
  by (simp add: EqualsIgnoreCase_iff)

lemma EqualsIgnoreCase_trans: "EqualsIgnoreCase a b \<Longrightarrow> EqualsIgnoreCase b c \<Longrightarrow> EqualsIgnoreCase a c"
  by (simp add: EqualsIgnoreCase_iff)

section \<open>The standard conversions read back what \<open>to_string\<close> prints\<close>

lemma takeWhile_to_digits [simp]: "takeWhile is_digit (to_digits n) = to_digits n"
  by (simp add: takeWhile_eq_all_conv)

lemma dropWhile_to_digits [simp]: "dropWhile is_digit (to_digits n) = []"
  by (simp add: dropWhile_eq_Nil_conv)

lemma ParseInt_to_string: "in_int64 v \<Longrightarrow> ParseInt (to_string v) = Some v"
  by (cases "v < 0")
    (auto simp: ParseInt_def from_chars_i64_def to_string_def Let_def dec_value_to_digits
      hd_to_digits_not_minus set_to_digits)

lemma ParseInt_in_range: "ParseInt s = Some v \<Longrightarrow> in_int64 v"
  by (auto simp: ParseInt_def from_chars_i64_def Let_def split: if_splits option.splits)

lemma ParseLongLong_in_range: "ParseLongLong s = Some v \<Longrightarrow> INT64_MIN < v \<and> v < INT64_MAX"
  by (auto simp: ParseLongLong_def strtoll_def Let_def split: if_splits option.splits prod.splits)

lemma stoll_in_range: "stoll s = Some v \<Longrightarrow> in_int64 v"
  by (auto simp: stoll_def strtoll_def Let_def in_int64_def split: if_splits option.splits)

lemma digit_not_special:
  assumes "is_digit c"
  shows "(of_char c :: nat) \<noteq> 0" "\<not> is_space c" "c \<noteq> CHR ''+''" "c \<noteq> CHR ''-''"
  using assms by (auto simp: is_digit_def is_space_def)

lemma c_str_to_string [simp]: "c_str (to_string v) = to_string v"
  using digit_not_special(1) [OF set_to_digits]
  by (auto simp: c_str_def to_string_def takeWhile_eq_all_conv)

lemma scan_number_to_string:
  "scan_number (to_string v) = Some (v < 0, nat \<bar>v\<bar>, [])"
proof -
  have hd: "is_digit (hd (to_digits n))" for n by (rule hd_to_digits_digit)
  have "dropWhile is_space (to_string v) = to_string v"
    using digit_not_special(2) [OF hd [of "nat v"]]
    by (cases "to_digits (nat v)") (auto simp: to_string_def is_space_def)
  then show ?thesis
    unfolding scan_number_def Let_def c_str_to_string
    using digit_not_special(3,4) [OF hd [of "nat v"]]
    by (simp add: to_string_def dec_value_to_digits)
qed

lemma strtoll_to_string: "in_int64 v \<Longrightarrow> strtoll (to_string v) = Some (v, [], False)"
proof -
  have "(if v < 0 then - int (nat \<bar>v\<bar>) else int (nat \<bar>v\<bar>)) = v" by simp
  then show "in_int64 v \<Longrightarrow> ?thesis"
    by (simp add: strtoll_def scan_number_to_string Let_def in_int64_def)
qed

lemma ParseLongLong_to_string:
  "INT64_MIN < v \<Longrightarrow> v < INT64_MAX \<Longrightarrow> ParseLongLong (to_string v) = Some v"
  using strtoll_to_string [of v] by (simp add: ParseLongLong_def in_int64_def)

lemma stoll_to_string: "in_int64 v \<Longrightarrow> stoll (to_string v) = Some v"
  by (simp add: stoll_def strtoll_to_string)

end
