(* ===== verification/Dense_Map.thy ===== *)
theory Dense_Map
  imports Nano_Prelude
begin

text \<open>
  The vendored \<open>ankerl::unordered_dense\<close> table, at the level its clients observe: the
  dense vector \<open>m_values\<close>, in which elements are appended on insertion and an erased
  element is overwritten by the last one.  The bucket array is an index into this vector
  and never shows in a result, in the order of iteration or in the size.  As in the source,
  one set of operations serves maps (\<open>get_key\<close> is \<open>fst\<close>) and sets (\<open>get_key\<close> is the
  identity), and keys are compared with the table's \<open>KeyEqual\<close>, which need not be
  reflexive.

  The locale \<open>per_keys\<close> is what the operations rely on of \<open>KeyEqual\<close>; its lemmas give
  the result of every operation as a set of elements.
\<close>

section \<open>Operations\<close>

fun table_pos :: "('k \<Rightarrow> 'k \<Rightarrow> bool) \<Rightarrow> ('e \<Rightarrow> 'k) \<Rightarrow> 'k \<Rightarrow> 'e list \<Rightarrow> nat option" where
  "table_pos eq gk k [] = None"
| "table_pos eq gk k (e # es) =
     (if eq k (gk e) then Some 0 else map_option Suc (table_pos eq gk k es))"

definition table_find :: "('k \<Rightarrow> 'k \<Rightarrow> bool) \<Rightarrow> ('e \<Rightarrow> 'k) \<Rightarrow> 'k \<Rightarrow> 'e list \<Rightarrow> 'e option" where
  "table_find eq gk k vs = (case table_pos eq gk k vs of None \<Rightarrow> None | Some i \<Rightarrow> Some (vs ! i))"

definition table_erase_at :: "nat \<Rightarrow> 'e list \<Rightarrow> 'e list" where
  "table_erase_at i vs =
     (if i \<noteq> length vs - 1 then butlast (vs[i := last vs]) else butlast vs)"

definition table_erase :: "('k \<Rightarrow> 'k \<Rightarrow> bool) \<Rightarrow> ('e \<Rightarrow> 'k) \<Rightarrow> 'k \<Rightarrow> 'e list \<Rightarrow> 'e list \<times> bool" where
  "table_erase eq gk k vs =
     (case table_pos eq gk k vs of
        None \<Rightarrow> (vs, False)
      | Some i \<Rightarrow> (table_erase_at i vs, True))"

definition table_insert :: "('k \<Rightarrow> 'k \<Rightarrow> bool) \<Rightarrow> ('e \<Rightarrow> 'k) \<Rightarrow> 'e \<Rightarrow> 'e list \<Rightarrow> 'e list \<times> bool" where
  "table_insert eq gk e vs =
     (case table_pos eq gk (gk e) vs of
        Some i \<Rightarrow> (vs, False)
      | None \<Rightarrow> (vs @ [e], True))"

definition map_insert_or_assign ::
    "('k \<Rightarrow> 'k \<Rightarrow> bool) \<Rightarrow> 'k \<Rightarrow> 'v \<Rightarrow> ('k \<times> 'v) list \<Rightarrow> ('k \<times> 'v) list" where
  "map_insert_or_assign eq k v vs =
     (case table_pos eq fst k vs of
        Some i \<Rightarrow> vs[i := (fst (vs ! i), v)]
      | None \<Rightarrow> vs @ [(k, v)])"

text \<open>No two elements have equal keys.\<close>

fun table_inv :: "('k \<Rightarrow> 'k \<Rightarrow> bool) \<Rightarrow> ('e \<Rightarrow> 'k) \<Rightarrow> 'e list \<Rightarrow> bool" where
  "table_inv eq gk [] = True"
| "table_inv eq gk (e # es) =
     (list_all (\<lambda>e'. \<not> eq (gk e) (gk e')) es \<and> table_inv eq gk es)"

section \<open>Facts that need nothing of the key equality\<close>

lemma table_pos_SomeD:
  "table_pos eq gk k vs = Some i \<Longrightarrow> i < length vs \<and> eq k (gk (vs ! i))"
  by (induction vs arbitrary: i) (auto split: if_splits)

lemma table_pos_None_iff:
  "table_pos eq gk k vs = None \<longleftrightarrow> (\<forall>e\<in>set vs. \<not> eq k (gk e))"
  by (induction vs) auto

lemma table_find_SomeD: "table_find eq gk k vs = Some e \<Longrightarrow> e \<in> set vs \<and> eq k (gk e)"
  by (auto simp: table_find_def dest!: table_pos_SomeD split: option.splits)

lemma table_find_None_iff:
  "table_find eq gk k vs = None \<longleftrightarrow> (\<forall>e\<in>set vs. \<not> eq k (gk e))"
  by (simp add: table_find_def table_pos_None_iff [symmetric] split: option.splits)

lemma table_find_Nil [simp]: "table_find eq gk k [] = None"
  by (simp add: table_find_def)

lemma mset_single: "x \<in># M \<Longrightarrow> size M \<le> 1 \<Longrightarrow> M = {#x#}"
  by (auto dest!: multi_member_split)

lemma mset_butlast: "vs \<noteq> [] \<Longrightarrow> mset (butlast vs) = mset vs - {#last vs#}"
  by (metis add_diff_cancel_right' append_butlast_last_id mset.simps mset_append)

lemma mset_table_erase_at:
  assumes "i < length vs"
  shows "mset (table_erase_at i vs) = mset vs - {#vs ! i#}"
proof -
  have ne: "vs \<noteq> []" using assms by auto
  have last: "last vs = vs ! (length vs - 1)" using ne by (rule last_conv_nth)
  show ?thesis
  proof (cases "i = length vs - 1")
    case True
    with ne last show ?thesis by (simp add: table_erase_at_def mset_butlast)
  next
    case False
    with ne have "last (vs[i := last vs]) = last vs"
      using last by (simp add: last_conv_nth)
    with False ne assms show ?thesis
      by (simp add: table_erase_at_def mset_butlast mset_update)
  qed
qed

lemma length_table_erase_at: "length (table_erase_at i vs) = length vs - 1"
  by (simp add: table_erase_at_def)

section \<open>Tables over a partial equivalence of keys\<close>

locale per_keys =
  fixes eq :: "'k \<Rightarrow> 'k \<Rightarrow> bool" and gk :: "'e \<Rightarrow> 'k"
  assumes eq_sym: "eq a b \<Longrightarrow> eq b a"
    and eq_trans: "eq a b \<Longrightarrow> eq b c \<Longrightarrow> eq a c"
begin

lemma eq_refl_left: "eq a b \<Longrightarrow> eq a a"
  using eq_sym eq_trans by blast

lemma eq_cong: "eq a b \<Longrightarrow> eq a c \<longleftrightarrow> eq b c"
  using eq_sym eq_trans by blast

lemma table_inv_mset:
  "table_inv eq gk vs \<longleftrightarrow> (\<forall>k. size (filter_mset (\<lambda>e. eq k (gk e)) (mset vs)) \<le> 1)"
proof (induction vs)
  case Nil
  then show ?case by simp
next
  case (Cons x xs)
  have fwd: "size (filter_mset (\<lambda>e. eq k (gk e)) (mset (x # xs))) \<le> 1"
    if inv: "table_inv eq gk (x # xs)" for k
  proof (cases "eq k (gk x)")
    case True
    with inv have "\<forall>e\<in>set xs. \<not> eq k (gk e)"
      using eq_cong [OF True] by (auto simp: list_all_iff)
    then have "filter_mset (\<lambda>e. eq k (gk e)) (mset xs) = {#}"
      by simp
    then have "size (filter_mset (\<lambda>e. eq k (gk e)) (mset xs)) = 0"
      by (simp only: size_empty)
    with True show ?thesis by simp
  next
    case False
    with inv Cons.IH show ?thesis by simp
  qed
  have bwd: "table_inv eq gk (x # xs)"
    if le: "\<forall>k. size (filter_mset (\<lambda>e. eq k (gk e)) (mset (x # xs))) \<le> 1"
  proof -
    have no: "\<not> eq (gk x) (gk e)" if "e \<in> set xs" for e
    proof
      assume m: "eq (gk x) (gk e)"
      then have r: "eq (gk x) (gk x)" by (rule eq_refl_left)
      have "size (filter_mset (\<lambda>e. eq (gk x) (gk e)) (mset (x # xs))) \<le> 1" using le by blast
      then have "size (filter_mset (\<lambda>e. eq (gk x) (gk e)) (mset xs)) = 0" using r by simp
      then have "filter_mset (\<lambda>e. eq (gk x) (gk e)) (mset xs) = {#}" by simp
      with m that show False by auto
    qed
    have "size (filter_mset (\<lambda>e. eq k (gk e)) (mset xs)) \<le> 1" for k
    proof -
      have "size (filter_mset (\<lambda>e. eq k (gk e)) (mset xs)) \<le>
          size (filter_mset (\<lambda>e. eq k (gk e)) (mset (x # xs)))"
        by (intro size_mset_mono multiset_filter_mono) simp
      with le show ?thesis by (meson order_trans)
    qed
    with Cons.IH no show ?thesis by (auto simp: list_all_iff)
  qed
  show ?case using fwd bwd by blast
qed

lemma table_inv_subset: "table_inv eq gk vs \<Longrightarrow> mset ws \<subseteq># mset vs \<Longrightarrow> table_inv eq gk ws"
  unfolding table_inv_mset
  by (meson multiset_filter_mono order_trans size_mset_mono)

lemma table_inv_unique:
  assumes "table_inv eq gk vs" "eq k (gk a)" "eq k (gk b)" "a \<in> set vs" "b \<in> set vs"
  shows "a = b"
proof (rule ccontr)
  assume "a \<noteq> b"
  then have "{#a, b#} \<subseteq># filter_mset (\<lambda>e. eq k (gk e)) (mset vs)"
    using assms by (auto simp: insert_subset_eq_iff in_diff_count)
  then have "size {#a, b#} \<le> size (filter_mset (\<lambda>e. eq k (gk e)) (mset vs))"
    by (rule size_mset_mono)
  moreover have "size (filter_mset (\<lambda>e. eq k (gk e)) (mset vs)) \<le> 1"
    using assms(1) unfolding table_inv_mset by blast
  ultimately show False by simp
qed

lemma table_find_Some_iff:
  assumes "table_inv eq gk vs"
  shows "table_find eq gk k vs = Some e \<longleftrightarrow> e \<in> set vs \<and> eq k (gk e)"
proof
  assume "table_find eq gk k vs = Some e"
  then show "e \<in> set vs \<and> eq k (gk e)" by (rule table_find_SomeD)
next
  assume e: "e \<in> set vs \<and> eq k (gk e)"
  then obtain e' where f: "table_find eq gk k vs = Some e'"
    using table_find_None_iff [of eq gk k vs] by (cases "table_find eq gk k vs") auto
  from table_find_SomeD [OF f] e assms have "e' = e" by (blast intro: table_inv_unique)
  with f show "table_find eq gk k vs = Some e" by simp
qed

text \<open>A lookup depends only on which elements are stored, not on their order.\<close>

lemma table_find_eqI:
  assumes "table_inv eq gk vs" "table_inv eq gk ws"
    and "\<And>e. eq k (gk e) \<Longrightarrow> e \<in> set vs \<longleftrightarrow> e \<in> set ws"
  shows "table_find eq gk k vs = table_find eq gk k ws"
proof (rule option.expand)
  show "(table_find eq gk k vs = None) = (table_find eq gk k ws = None)"
    using assms(3) unfolding table_find_None_iff by blast
next
  assume "table_find eq gk k vs \<noteq> None" "table_find eq gk k ws \<noteq> None"
  then obtain a b where "table_find eq gk k vs = Some a" "table_find eq gk k ws = Some b" by blast
  with assms show "the (table_find eq gk k vs) = the (table_find eq gk k ws)"
    by (metis table_find_Some_iff option.sel)
qed

lemma table_find_cong: "eq k k' \<Longrightarrow> table_find eq gk k vs = table_find eq gk k' vs"
proof -
  assume "eq k k'"
  then have "eq k = eq k'" using eq_cong by blast
  then have "table_pos eq gk k vs = table_pos eq gk k' vs" by (induction vs) auto
  then show ?thesis by (simp add: table_find_def)
qed

lemma count_matching_le1:
  assumes "table_inv eq gk vs" "eq k (gk e)"
  shows "count (mset vs) e \<le> 1"
proof -
  have "count (filter_mset (\<lambda>e. eq k (gk e)) (mset vs)) e \<le> 1"
    using assms(1) unfolding table_inv_mset
    by (meson count_le_size order_trans)
  with assms(2) show ?thesis by simp
qed

lemma set_table_erase:
  assumes inv: "table_inv eq gk vs"
  shows "set (fst (table_erase eq gk k vs)) = {e \<in> set vs. \<not> eq k (gk e)}"
proof (cases "table_pos eq gk k vs")
  case None
  then have "\<forall>e\<in>set vs. \<not> eq k (gk e)" by (simp add: table_pos_None_iff)
  with None show ?thesis by (auto simp: table_erase_def)
next
  case (Some i)
  then have i: "i < length vs" "eq k (gk (vs ! i))" by (auto dest: table_pos_SomeD)
  have cnt: "count (mset vs) (vs ! i) \<le> 1" using inv i(2) by (rule count_matching_le1)
  have "set (table_erase_at i vs) = set_mset (mset vs - {#vs ! i#})"
    using i(1) by (simp add: mset_table_erase_at flip: set_mset_mset)
  also have "\<dots> = set vs - {vs ! i}"
    using set_mset_diff_single [OF cnt] by simp
  also have "\<dots> = {e \<in> set vs. \<not> eq k (gk e)}"
    using inv i by (auto dest: table_inv_unique)
  finally show ?thesis using Some by (simp add: table_erase_def)
qed

lemma mset_table_erase:
  assumes inv: "table_inv eq gk vs"
  shows "mset (fst (table_erase eq gk k vs)) = filter_mset (\<lambda>e. \<not> eq k (gk e)) (mset vs)"
proof (cases "table_pos eq gk k vs")
  case None
  then have "filter_mset (\<lambda>e. \<not> eq k (gk e)) (mset vs) = mset vs"
    by (simp add: table_pos_None_iff filter_mset_eq_conv)
  with None show ?thesis by (simp add: table_erase_def)
next
  case (Some i)
  then have i: "i < length vs" "eq k (gk (vs ! i))" by (auto dest: table_pos_SomeD)
  let ?F = "filter_mset (\<lambda>e. eq k (gk e)) (mset vs)"
  have "vs ! i \<in># ?F" using i by simp
  moreover have "size ?F \<le> 1" using inv unfolding table_inv_mset by blast
  ultimately have F: "?F = {#vs ! i#}" by (rule mset_single)
  have "mset vs = filter_mset (\<lambda>e. \<not> eq k (gk e)) (mset vs) + {#vs ! i#}"
    using multiset_partition [of "mset vs" "\<lambda>e. \<not> eq k (gk e)"] F by simp
  then have "mset vs - {#vs ! i#} = filter_mset (\<lambda>e. \<not> eq k (gk e)) (mset vs)"
    by (metis add_diff_cancel_right')
  with Some i(1) show ?thesis by (simp add: table_erase_def mset_table_erase_at)
qed

lemma table_inv_erase:
  assumes "table_inv eq gk vs"
  shows "table_inv eq gk (fst (table_erase eq gk k vs))"
proof (rule table_inv_subset [OF assms])
  show "mset (fst (table_erase eq gk k vs)) \<subseteq># mset vs"
    by (auto simp: table_erase_def mset_table_erase_at dest: table_pos_SomeD split: option.splits)
qed

lemma table_inv_snoc:
  assumes inv: "table_inv eq gk vs" and new: "\<forall>e'\<in>set vs. \<not> eq (gk e) (gk e')"
  shows "table_inv eq gk (vs @ [e])"
  unfolding table_inv_mset
proof
  fix k
  show "size (filter_mset (\<lambda>e. eq k (gk e)) (mset (vs @ [e]))) \<le> 1"
  proof (cases "eq k (gk e)")
    case True
    then have "\<forall>e'\<in>set vs. \<not> eq k (gk e')" using new eq_cong by blast
    with True show ?thesis by simp
  next
    case False
    with inv show ?thesis unfolding table_inv_mset by simp
  qed
qed

lemma table_inv_insert: "table_inv eq gk vs \<Longrightarrow> table_inv eq gk (fst (table_insert eq gk e vs))"
  by (auto simp: table_insert_def table_pos_None_iff intro: table_inv_snoc split: option.splits)

text \<open>Lookup after erasing and inserting.\<close>

lemma table_find_erase:
  assumes "table_inv eq gk vs"
  shows "table_find eq gk k' (fst (table_erase eq gk k vs)) =
    (if eq k k' then None else table_find eq gk k' vs)"
proof (cases "eq k k'")
  case True
  then have "eq k = eq k'" using eq_cong by blast
  then show ?thesis
    using True by (simp add: table_find_None_iff set_table_erase [OF assms])
next
  case False
  then have "\<not> eq k (gk e)" if "eq k' (gk e)" for e
    using that eq_sym eq_trans by blast
  then have "table_find eq gk k' (fst (table_erase eq gk k vs)) = table_find eq gk k' vs"
    by (intro table_find_eqI table_inv_erase assms) (auto simp: set_table_erase [OF assms])
  with False show ?thesis by simp
qed

end

lemma table_erase_snd: "snd (table_erase eq gk k vs) \<longleftrightarrow> table_find eq gk k vs \<noteq> None"
  by (auto simp: table_erase_def table_find_def split: option.splits)

lemma table_erase_absent: "table_find eq gk k vs = None \<Longrightarrow> table_erase eq gk k vs = (vs, False)"
  by (auto simp: table_erase_def table_find_def split: option.splits)

lemma length_table_erase:
  "length (fst (table_erase eq gk k vs)) =
     length vs - (if table_find eq gk k vs = None then 0 else 1)"
  by (auto simp: table_erase_def table_find_def length_table_erase_at split: option.splits)

text \<open>Maps: the elements are key-value pairs.\<close>

locale per_map = per_keys eq "fst :: 'k \<times> 'v \<Rightarrow> 'k" for eq :: "'k \<Rightarrow> 'k \<Rightarrow> bool"
begin

lemma map_insert_or_assign_present:
  fixes vs :: "('k \<times> 'v) list"
  assumes "table_pos eq fst k vs = Some i" "table_inv eq fst vs"
  shows "mset (map_insert_or_assign eq k v vs) =
      add_mset (fst (vs ! i), v) (mset vs - {#vs ! i#})"
    and "set (map_insert_or_assign eq k v vs) =
      insert (fst (vs ! i), v) {e \<in> set vs. \<not> eq k (fst e)}"
proof -
  have i: "i < length vs" "eq k (fst (vs ! i))" using table_pos_SomeD [OF assms(1)] by auto
  show m: "mset (map_insert_or_assign eq k v vs) =
      add_mset (fst (vs ! i), v) (mset vs - {#vs ! i#})"
    using assms(1) i by (simp add: map_insert_or_assign_def mset_update)
  have "set (fst (table_erase eq fst k vs)) = set_mset (mset vs - {#vs ! i#})"
    using i assms(1) by (simp add: table_erase_def mset_table_erase_at flip: set_mset_mset)
  then have "set_mset (mset vs - {#vs ! i#}) = {e \<in> set vs. \<not> eq k (fst e)}"
    using set_table_erase [OF assms(2)] by simp
  with m show "set (map_insert_or_assign eq k v vs) =
      insert (fst (vs ! i), v) {e \<in> set vs. \<not> eq k (fst e)}"
    by (metis set_mset_add_mset_insert set_mset_mset)
qed

lemma map_insert_or_assign_absent:
  "table_pos eq fst k vs = None \<Longrightarrow> map_insert_or_assign eq k v vs = vs @ [(k, v)]"
  by (simp add: map_insert_or_assign_def)

lemma table_inv_insert_or_assign:
  fixes vs :: "('k \<times> 'v) list"
  assumes "table_inv eq fst vs"
  shows "table_inv eq fst (map_insert_or_assign eq k v vs)"
proof (cases "table_pos eq fst k vs")
  case None
  with assms show ?thesis
    by (auto simp: map_insert_or_assign_absent table_pos_None_iff intro!: table_inv_snoc)
next
  case (Some i)
  let ?e = "vs ! i"
  have i: "i < length vs" using table_pos_SomeD [OF Some] by simp
  show ?thesis
    unfolding table_inv_mset map_insert_or_assign_present(1) [OF Some assms]
  proof
    fix k'
    have "filter_mset (\<lambda>e. eq k' (fst e)) (add_mset (fst ?e, v) (mset vs - {#?e#})) =
        (if eq k' (fst ?e) then add_mset (fst ?e, v) (filter_mset (\<lambda>e. eq k' (fst e)) (mset vs) - {#?e#})
         else filter_mset (\<lambda>e. eq k' (fst e)) (mset vs))"
      using i by (auto simp: filter_diff_mset)
    moreover have "size (filter_mset (\<lambda>e. eq k' (fst e)) (mset vs)) \<le> 1"
      using assms unfolding table_inv_mset by blast
    moreover have "eq k' (fst ?e) \<Longrightarrow> ?e \<in># filter_mset (\<lambda>e. eq k' (fst e)) (mset vs)"
      using i by simp
    ultimately show "size (filter_mset (\<lambda>e. eq k' (fst e))
        (add_mset (fst ?e, v) (mset vs - {#?e#}))) \<le> 1"
      by (auto simp: size_Diff_singleton)
  qed
qed

lemma table_find_insert_or_assign:
  fixes vs :: "('k \<times> 'v) list"
  assumes "table_inv eq fst vs"
  shows "map_option snd (table_find eq fst k' (map_insert_or_assign eq k v vs)) =
    (if eq k k' then Some v else map_option snd (table_find eq fst k' vs))"
proof -
  let ?ws = "map_insert_or_assign eq k v vs"
  have inv: "table_inv eq fst ?ws" using assms by (rule table_inv_insert_or_assign)
  obtain k0 where k0: "k0 = k \<or> eq k k0"
    and set: "set ?ws = insert (k0, v) {e \<in> set vs. \<not> eq k (fst e)}"
  proof (cases "table_pos eq fst k vs")
    case None
    then have "set ?ws = insert (k, v) {e \<in> set vs. \<not> eq k (fst e)}"
      by (auto simp: map_insert_or_assign_absent table_pos_None_iff)
    then show ?thesis using that by blast
  next
    case (Some i)
    then show ?thesis
      using that map_insert_or_assign_present(2) [OF Some assms] table_pos_SomeD [OF Some] by blast
  qed
  show ?thesis
  proof (cases "eq k k'")
    case True
    then have "eq k' k0" using k0 eq_sym eq_trans by blast
    with set have "table_find eq fst k' ?ws = Some (k0, v)"
      by (simp add: table_find_Some_iff [OF inv])
    with True show ?thesis by simp
  next
    case False
    then have nk: "\<not> eq k' k0" using k0 eq_sym eq_trans by blast
    have "\<not> eq k (fst e)" if "eq k' (fst e)" for e
      using False that eq_sym eq_trans by blast
    with nk have "table_find eq fst k' ?ws = table_find eq fst k' vs"
      by (intro table_find_eqI inv assms) (auto simp: set)
    with False show ?thesis by simp
  qed
qed

lemma length_map_insert_or_assign:
  "length (map_insert_or_assign eq k v vs) =
     length vs + (if table_find eq fst k vs = None then 1 else 0)"
  by (auto simp: map_insert_or_assign_def table_find_def split: option.splits)

end

end
