(* ===== verification/Wyhash.thy ===== *)
theory Wyhash
  imports Nano_Prelude
begin

text \<open>
  The hash of \<open>include/core/unordered_dense.h\<close>, namespace \<open>detail::wyhash\<close>: the 64-bit
  wyhash of a byte string and of an integer, on a little-endian machine with a 128-bit
  product.
\<close>

unbundle bit_operations_syntax

section \<open>Definitions\<close>

definition wy_mum :: "64 word \<Rightarrow> 64 word \<Rightarrow> 64 word \<times> 64 word" where
  "wy_mum a b =
     (let r = (ucast a :: 128 word) * ucast b
      in (ucast r, ucast (drop_bit 64 r)))"

definition wy_mix :: "64 word \<Rightarrow> 64 word \<Rightarrow> 64 word" where
  "wy_mix a b = (let (lo, hi) = wy_mum a b in lo XOR hi)"

definition wy_byte :: "string \<Rightarrow> nat \<Rightarrow> 64 word" where
  "wy_byte s i = of_nat (of_char (s ! i))"

text \<open>Little-endian reads of eight and four bytes at an offset.\<close>

definition wy_r8 :: "string \<Rightarrow> nat \<Rightarrow> 64 word" where
  "wy_r8 s p = foldr (\<lambda>j acc. push_bit (8 * j) (wy_byte s (p + j)) OR acc) [0..<8] 0"

definition wy_r4 :: "string \<Rightarrow> nat \<Rightarrow> 64 word" where
  "wy_r4 s p = foldr (\<lambda>j acc. push_bit (8 * j) (wy_byte s (p + j)) OR acc) [0..<4] 0"

definition wy_r3 :: "string \<Rightarrow> nat \<Rightarrow> 64 word" where
  "wy_r3 s k =
     push_bit 16 (wy_byte s 0) OR push_bit 8 (wy_byte s (k div 2)) OR wy_byte s (k - 1)"

definition wy_secret :: "nat \<Rightarrow> 64 word" where
  "wy_secret i =
     [0xa0761d6478bd642f, 0xe7037ed1a0b428db, 0x8ebc6af09c88c6e3, 0x589965cc75374cc3] ! i"

fun wy_loop48 :: "string \<Rightarrow> nat \<Rightarrow> nat \<Rightarrow> 64 word \<Rightarrow> 64 word \<Rightarrow> 64 word \<Rightarrow> nat \<times> nat \<times> 64 word" where
  "wy_loop48 s p i seed see1 see2 =
     (if i > 48 then
        wy_loop48 s (p + 48) (i - 48)
          (wy_mix (wy_r8 s p XOR wy_secret 1) (wy_r8 s (p + 8) XOR seed))
          (wy_mix (wy_r8 s (p + 16) XOR wy_secret 2) (wy_r8 s (p + 24) XOR see1))
          (wy_mix (wy_r8 s (p + 32) XOR wy_secret 3) (wy_r8 s (p + 40) XOR see2))
      else (p, i, seed XOR (see1 XOR see2)))"

fun wy_loop16 :: "string \<Rightarrow> nat \<Rightarrow> nat \<Rightarrow> 64 word \<Rightarrow> nat \<times> nat \<times> 64 word" where
  "wy_loop16 s p i seed =
     (if i > 16 then
        wy_loop16 s (p + 16) (i - 16)
          (wy_mix (wy_r8 s p XOR wy_secret 1) (wy_r8 s (p + 8) XOR seed))
      else (p, i, seed))"

definition wyhash_bytes :: "string \<Rightarrow> 64 word" where
  "wyhash_bytes s =
     (let len = length s;
          seed0 = wy_secret 0;
          (a, b, seed) =
            (if len \<le> 16 then
               (if len \<ge> 4 then
                  (push_bit 32 (wy_r4 s 0) OR wy_r4 s (len div 8 * 4),
                   push_bit 32 (wy_r4 s (len - 4)) OR wy_r4 s (len - 4 - len div 8 * 4),
                   seed0)
                else if len > 0 then (wy_r3 s len, 0, seed0)
                else (0, 0, seed0))
             else
               let (p, i, seed) = (if len > 48 then wy_loop48 s 0 len seed0 seed0 seed0
                                   else (0, len, seed0));
                   (p, i, seed) = wy_loop16 s p i seed
               in (wy_r8 s (p + i - 16), wy_r8 s (p + i - 8), seed))
      in wy_mix (wy_secret 1 XOR of_nat len) (wy_mix (a XOR wy_secret 1) (b XOR seed)))"

definition wyhash_u64 :: "64 word \<Rightarrow> 64 word" where
  "wyhash_u64 x = wy_mix x 0x9E3779B97F4A7C15"

declare wy_loop48.simps [simp del] wy_loop16.simps [simp del]

end
