(* ===== verification/Nano_Obj.thy ===== *)
theory Nano_Obj
  imports Nano_Util Dense_Map Wyhash
begin

text \<open>
  \<open>include/core/nano_obj.h\<close> and \<open>src/core/nano_obj.cc\<close>: the 16-byte tagged value that
  holds every key and value.  The tag byte and the union are one datatype, a constructor
  per tag that the code produces:

  \<^item> \<open>InlineStr s\<close>: tags 0 to 14, the bytes stored in \<open>u.data\<close>;
  \<^item> \<open>IntObj v\<close>: \<open>INT_TAG\<close>;
  \<^item> \<open>SmallStr bytes prefix\<close>: \<open>SMALL_STR_TAG\<close>.  \<open>bytes\<close> are the first
    \<open>small_str.length\<close> bytes of the heap block, the only ones any reader reaches; the
    length field has 16 bits, so a longer string keeps its length modulo 65536;
  \<^item> \<open>RobjObj r\<close>: \<open>ROBJ_TAG\<close>, with the container that \<open>inner_obj\<close> points at
    (\<open>None\<close> is the null pointer).  A container is owned by exactly one object (moves
    transfer it, copies never share it), so it is a value here;
  \<^item> \<open>NullObj\<close>: \<open>NULL_TAG\<close>.

  The \<open>flag\<close> byte is written with 0 by every operation and read by none.
\<close>

section \<open>Definitions\<close>

datatype nano_obj =
    InlineStr string
  | IntObj int
  | SmallStr string string
  | RobjObj robj
  | NullObj
and robj = Robj "container option" nat nat nat   \<comment> \<open>\<open>inner_obj\<close>, \<open>sz\<close>, \<open>type\<close>, \<open>encoding\<close>\<close>
and container =
    HashTable "(string \<times> string) list"
  | SetTable "string list"
  | ListDeque "nano_obj list"

definition kInlineLen :: nat where "kInlineLen = 14"

definition OBJ_STRING :: nat where "OBJ_STRING = 0"
definition OBJ_HASH :: nat where "OBJ_HASH = 1"
definition OBJ_SET :: nat where "OBJ_SET = 2"
definition OBJ_LIST :: nat where "OBJ_LIST = 3"
definition OBJ_ZSET :: nat where "OBJ_ZSET = 4"

definition OBJ_ENCODING_RAW :: nat where "OBJ_ENCODING_RAW = 0"
definition OBJ_ENCODING_INT :: nat where "OBJ_ENCODING_INT = 1"
definition OBJ_ENCODING_HASHTABLE :: nat where "OBJ_ENCODING_HASHTABLE = 2"
definition OBJ_ENCODING_SKIPLIST :: nat where "OBJ_ENCODING_SKIPLIST = 7"
definition OBJ_ENCODING_EMBSTR :: nat where "OBJ_ENCODING_EMBSTR = 8"

named_theorems obj_consts "type and encoding constants"

declare kInlineLen_def [obj_consts] OBJ_STRING_def [obj_consts] OBJ_HASH_def [obj_consts]
  OBJ_SET_def [obj_consts] OBJ_LIST_def [obj_consts] OBJ_ZSET_def [obj_consts]
  OBJ_ENCODING_RAW_def [obj_consts] OBJ_ENCODING_INT_def [obj_consts]
  OBJ_ENCODING_HASHTABLE_def [obj_consts] OBJ_ENCODING_SKIPLIST_def [obj_consts]
  OBJ_ENCODING_EMBSTR_def [obj_consts]

subsection \<open>Tags and type queries\<close>

fun GetTag :: "nano_obj \<Rightarrow> nat" where
  "GetTag (InlineStr s) = length s"
| "GetTag (IntObj v) = 15"
| "GetTag (SmallStr b p) = 16"
| "GetTag (RobjObj r) = 17"
| "GetTag NullObj = 31"

definition IsNull :: "nano_obj \<Rightarrow> bool" where "IsNull obj \<longleftrightarrow> obj = NullObj"

fun IsInt :: "nano_obj \<Rightarrow> bool" where
  "IsInt (IntObj v) = True"
| "IsInt _ = False"

fun IsString :: "nano_obj \<Rightarrow> bool" where
  "IsString (InlineStr s) = True"
| "IsString (SmallStr b p) = True"
| "IsString _ = False"

fun robj_has_type :: "nat \<Rightarrow> nano_obj \<Rightarrow> bool" where
  "robj_has_type t (RobjObj (Robj i sz ty enc)) = (ty = t)"
| "robj_has_type t _ = False"

definition IsHash :: "nano_obj \<Rightarrow> bool" where "IsHash = robj_has_type OBJ_HASH"
definition IsSet :: "nano_obj \<Rightarrow> bool" where "IsSet = robj_has_type OBJ_SET"
definition IsList :: "nano_obj \<Rightarrow> bool" where "IsList = robj_has_type OBJ_LIST"
definition IsZset :: "nano_obj \<Rightarrow> bool" where "IsZset = robj_has_type OBJ_ZSET"

subsection \<open>Conversions\<close>

fun TryToString :: "nano_obj \<Rightarrow> string option" where
  "TryToString (InlineStr s) = Some s"
| "TryToString _ = None"

fun TryToInt :: "nano_obj \<Rightarrow> int option" where
  "TryToInt (IntObj v) = Some v"
| "TryToInt _ = None"

fun ToString :: "nano_obj \<Rightarrow> string" where
  "ToString (InlineStr s) = s"
| "ToString (IntObj v) = to_string v"
| "ToString (SmallStr b p) = b"
| "ToString _ = []"

fun AsInt :: "nano_obj \<Rightarrow> int" where
  "AsInt (IntObj v) = v"
| "AsInt _ = 0"

fun GetStringView :: "nano_obj \<Rightarrow> string" where
  "GetStringView (InlineStr s) = s"
| "GetStringView (SmallStr b p) = b"
| "GetStringView _ = []"

fun GetType :: "nano_obj \<Rightarrow> nat" where
  "GetType (RobjObj (Robj i sz ty enc)) = ty"
| "GetType _ = OBJ_STRING"

fun GetEncoding :: "nano_obj \<Rightarrow> nat" where
  "GetEncoding NullObj = OBJ_ENCODING_RAW"
| "GetEncoding (IntObj v) = OBJ_ENCODING_INT"
| "GetEncoding (SmallStr b p) = OBJ_ENCODING_RAW"
| "GetEncoding (RobjObj (Robj i sz ty enc)) = enc"
| "GetEncoding (InlineStr s) = OBJ_ENCODING_EMBSTR"

fun NanoObj_Size :: "nano_obj \<Rightarrow> nat" where
  "NanoObj_Size (InlineStr s) = length s"
| "NanoObj_Size (SmallStr b p) = length b"
| "NanoObj_Size (IntObj v) = length (to_string v)"
| "NanoObj_Size (RobjObj (Robj i sz ty enc)) = sz"
| "NanoObj_Size NullObj = 0"

subsection \<open>Setters and factories\<close>

text \<open>\<open>small_str.length = static_cast<uint16_t>(str.size())\<close>.\<close>

definition small_length :: "nat \<Rightarrow> nat" where
  "small_length n = unat (of_nat n :: 16 word)"

definition SetInlineString :: "string \<Rightarrow> nano_obj" where
  "SetInlineString str = InlineStr str"

definition SetSmallString :: "string \<Rightarrow> nano_obj" where
  "SetSmallString str = SmallStr (take (small_length (length str)) str) (take 4 str)"

definition SetString :: "string \<Rightarrow> nano_obj" where
  "SetString str = (if length str \<le> kInlineLen then SetInlineString str else SetSmallString str)"

definition SetStringKey :: "string \<Rightarrow> nano_obj" where
  "SetStringKey str =
     (if length str \<le> 20 then
        (case String2ll str of
           Some ival \<Rightarrow> IntObj ival
         | None \<Rightarrow> SetString str)
      else SetString str)"

definition FromString :: "string \<Rightarrow> nano_obj" where "FromString str = SetString str"
definition FromInt :: "int \<Rightarrow> nano_obj" where "FromInt v = IntObj v"
definition FromKey :: "string \<Rightarrow> nano_obj" where "FromKey key = SetStringKey key"

text \<open>
  \<open>PrepareStringBuffer(len)\<close> followed by the copy of \<open>len\<close> bytes into the buffer it
  returns, as \<open>ReadBulkStringInto\<close> does.
\<close>

definition PrepareStringBuffer :: "string \<Rightarrow> nano_obj" where
  "PrepareStringBuffer str =
     (if length str \<le> kInlineLen then InlineStr str
      else SmallStr (take (small_length (length str)) str) (replicate 4 (CHR 0x00)))"

fun FinalizePreparedString :: "nano_obj \<Rightarrow> nano_obj" where
  "FinalizePreparedString (SmallStr b p) =
     (let prefix_len = min (length b) 4
      in if prefix_len > 0 then SmallStr b (take prefix_len b @ drop prefix_len p) else SmallStr b p)"
| "FinalizePreparedString obj = obj"

definition MaybeConvertToInt :: "nano_obj \<Rightarrow> nano_obj" where
  "MaybeConvertToInt obj =
     (let sv = GetStringView obj in
      if sv = [] \<or> length sv > 20 then obj
      else case String2ll sv of None \<Rightarrow> obj | Some ival \<Rightarrow> IntObj ival)"

definition InitRobj :: "nat \<Rightarrow> nat \<Rightarrow> nano_obj" where
  "InitRobj ty enc = RobjObj (Robj None 0 ty enc)"

definition FromHash :: nano_obj where "FromHash = InitRobj OBJ_HASH OBJ_ENCODING_HASHTABLE"
definition FromSet :: nano_obj where "FromSet = InitRobj OBJ_SET OBJ_ENCODING_HASHTABLE"
definition FromList :: nano_obj where "FromList = InitRobj OBJ_LIST OBJ_ENCODING_RAW"
definition FromZset :: nano_obj where "FromZset = InitRobj OBJ_ZSET OBJ_ENCODING_SKIPLIST"

fun SetObj :: "container \<Rightarrow> nano_obj \<Rightarrow> nano_obj" where
  "SetObj c (RobjObj (Robj i sz ty enc)) = RobjObj (Robj (Some c) sz ty enc)"
| "SetObj c obj = obj"

text \<open>
  \<open>GetObj<T>\<close> at the three container types; \<open>None\<close> stands for a null pointer and for a
  pointer to a container of another type.
\<close>

fun GetHashObj :: "nano_obj \<Rightarrow> (string \<times> string) list option" where
  "GetHashObj (RobjObj (Robj (Some (HashTable h)) sz ty enc)) = Some h"
| "GetHashObj _ = None"

fun GetSetObj :: "nano_obj \<Rightarrow> string list option" where
  "GetSetObj (RobjObj (Robj (Some (SetTable s)) sz ty enc)) = Some s"
| "GetSetObj _ = None"

fun GetListObj :: "nano_obj \<Rightarrow> nano_obj list option" where
  "GetListObj (RobjObj (Robj (Some (ListDeque l)) sz ty enc)) = Some l"
| "GetListObj _ = None"

subsection \<open>Copying\<close>

text \<open>
  \<open>CopyFrom\<close> copies strings and integers.  For a container it copies the tag and zeroes
  the eight bytes of \<open>u.ival\<close>, that is \<open>inner_obj\<close>; the remaining bytes of the union
  (\<open>sz\<close>, \<open>type\<close>, \<open>encoding\<close>) keep what the destination held, here \<open>stale\<close>.
\<close>

fun CopyFrom :: "nat \<times> nat \<times> nat \<Rightarrow> nano_obj \<Rightarrow> nano_obj" where
  "CopyFrom (sz, ty, enc) (RobjObj r) = RobjObj (Robj None sz ty enc)"
| "CopyFrom stale obj = obj"

text \<open>Copy construction into zeroed storage.\<close>

definition NanoObj_copy :: "nano_obj \<Rightarrow> nano_obj" where
  "NanoObj_copy obj = CopyFrom (0, 0, 0) obj"

text \<open>\<open>MoveFrom\<close>: the destination takes the contents, the source becomes null.\<close>

definition MoveFrom :: "nano_obj \<Rightarrow> nano_obj \<times> nano_obj" where
  "MoveFrom other = (other, NullObj)"

subsection \<open>Equality and hash\<close>

definition NanoObj_eq :: "nano_obj \<Rightarrow> nano_obj \<Rightarrow> bool" where
  "NanoObj_eq a b =
     (if IsInt a \<and> IsInt b then AsInt a = AsInt b
      else if IsString a \<and> IsString b then GetStringView a = GetStringView b
      else False)"

definition NanoObj_hash :: "nano_obj \<Rightarrow> 64 word" where
  "NanoObj_hash obj =
     (case obj of
        InlineStr s \<Rightarrow> wyhash_bytes (GetStringView obj)
      | IntObj v \<Rightarrow> wyhash_u64 (of_int (AsInt obj))
      | SmallStr b p \<Rightarrow> wyhash_bytes (GetStringView obj)
      | _ \<Rightarrow> 0)"

subsection \<open>Well-formed objects\<close>

text \<open>Strings, integers and nulls within the limits of their fields.\<close>

fun scalar_ok :: "nano_obj \<Rightarrow> bool" where
  "scalar_ok (InlineStr s) = (length s \<le> kInlineLen)"
| "scalar_ok (IntObj v) = in_int64 v"
| "scalar_ok (SmallStr b p) = (length b < 65536)"
| "scalar_ok NullObj = True"
| "scalar_ok (RobjObj r) = False"

text \<open>A container object whose type field says what its pointer points at.\<close>

fun container_ok :: "nat \<Rightarrow> container \<Rightarrow> bool" where
  "container_ok ty (HashTable h) = (ty = OBJ_HASH \<and> table_inv (=) fst h)"
| "container_ok ty (SetTable s) = (ty = OBJ_SET \<and> table_inv (=) id s)"
| "container_ok ty (ListDeque l) = (ty = OBJ_LIST \<and> list_all scalar_ok l)"

fun obj_ok :: "nano_obj \<Rightarrow> bool" where
  "obj_ok (RobjObj (Robj (Some c) sz ty enc)) = container_ok ty c"
| "obj_ok (RobjObj (Robj None sz ty enc)) = False"
| "obj_ok obj = scalar_ok obj"

section \<open>Representation\<close>

lemma small_length_mod: "small_length n = n mod 65536"
  by (simp add: small_length_def unat_of_nat)

lemma small_length_id: "n < 65536 \<Longrightarrow> small_length n = n"
  by (simp add: small_length_mod)

lemma FromString_ok: "scalar_ok (FromString s)"
  by (auto simp: FromString_def SetString_def SetInlineString_def SetSmallString_def
      small_length_mod obj_consts)

lemma FromKey_ok: "scalar_ok (FromKey s)"
proof (cases "String2ll s")
  case None
  then show ?thesis
    using FromString_ok [of s] by (simp add: FromKey_def SetStringKey_def FromString_def)
next
  case (Some v)
  then have "in_int64 v" using String2ll_SomeD by blast
  then show ?thesis
    using FromString_ok [of s] Some by (simp add: FromKey_def SetStringKey_def FromString_def)
qed

lemma FromInt_ok: "in_int64 v \<Longrightarrow> scalar_ok (FromInt v)"
  by (simp add: FromInt_def)

lemma scalar_ok_obj_ok: "scalar_ok v \<Longrightarrow> obj_ok v"
  by (cases v) auto

lemma ToString_FromString: "ToString (FromString s) = take (length s mod 65536) s"
  by (auto simp: FromString_def SetString_def SetInlineString_def SetSmallString_def
      small_length_mod obj_consts)

lemma String2ll_length: "String2ll s = Some v \<Longrightarrow> 0 < length s \<and> length s \<le> 20"
  using String2ll_SomeD [of s v] length_to_string [of v] by auto

lemma ToString_FromKey_take: "ToString (FromKey s) = take (length s mod 65536) s"
proof (cases "String2ll s")
  case None
  then show ?thesis
    using ToString_FromString [of s] by (simp add: FromKey_def SetStringKey_def FromString_def)
next
  case (Some v)
  then have "s = to_string v" using String2ll_SomeD by blast
  moreover have "length s \<le> 20" using String2ll_length [OF Some] by simp
  ultimately show ?thesis using Some by (simp add: FromKey_def SetStringKey_def)
qed

lemma ToString_FromKey_short: "length s < 65536 \<Longrightarrow> ToString (FromKey s) = s"
  by (simp add: ToString_FromKey_take)

lemma FromKey_inject:
  assumes "length s < 65536" "length t < 65536"
  shows "FromKey s = FromKey t \<longleftrightarrow> s = t"
  using assms by (metis ToString_FromKey_short)

text \<open>
  C2 (\<open>src/core/nano_obj.cc\<close>, \<open>FromKey\<close> and \<open>ToString\<close>): a string converted to its
  object form is well formed, and converting it back returns its first
  \<open>length s mod 65536\<close> bytes.  That is the string itself when it is shorter than 65536
  bytes, whichever of the three encodings (inline, integer, heap string) it took, and a
  silently truncated one otherwise, because \<open>SmallString.length\<close> has 16 bits.
\<close>

theorem ToString_FromKey:
  "scalar_ok (FromKey s) \<and> ToString (FromKey s) = take (length s mod 65536) s"
  by (simp add: FromKey_ok ToString_FromKey_take)

section \<open>Key identity\<close>

text \<open>What \<open>operator==\<close> compares: an integer, or the bytes of a string; nothing else is a key.\<close>

datatype key_class = KInt int | KStr string

fun key_of :: "nano_obj \<Rightarrow> key_class option" where
  "key_of (InlineStr s) = Some (KStr s)"
| "key_of (IntObj v) = Some (KInt v)"
| "key_of (SmallStr b p) = Some (KStr b)"
| "key_of _ = None"

fun hash_class :: "key_class \<Rightarrow> 64 word" where
  "hash_class (KInt v) = wyhash_u64 (of_int v)"
| "hash_class (KStr s) = wyhash_bytes s"

lemma NanoObj_eq_iff: "NanoObj_eq a b \<longleftrightarrow> key_of a \<noteq> None \<and> key_of a = key_of b"
  by (cases a; cases b) (auto simp: NanoObj_eq_def)

lemma NanoObj_hash_class:
  "NanoObj_hash a = (case key_of a of None \<Rightarrow> 0 | Some c \<Rightarrow> hash_class c)"
  by (cases a) (auto simp: NanoObj_hash_def)

interpretation nano: per_map NanoObj_eq
  by unfold_locales (metis NanoObj_eq_iff)+

interpretation str_map: per_map "(=) :: string \<Rightarrow> string \<Rightarrow> bool"
  by unfold_locales auto

interpretation str_set: per_keys "(=) :: string \<Rightarrow> string \<Rightarrow> bool" id
  by unfold_locales auto

lemma NanoObj_eq_refl: "NanoObj_eq a a \<longleftrightarrow> key_of a \<noteq> None"
  by (simp add: NanoObj_eq_iff)

lemma NanoObj_eq_hash: "NanoObj_eq a b \<Longrightarrow> NanoObj_hash a = NanoObj_hash b"
  by (simp add: NanoObj_eq_iff NanoObj_hash_class)

lemma NanoObj_hash_irrefl: "\<not> NanoObj_eq a a \<Longrightarrow> NanoObj_hash a = 0"
  by (simp add: NanoObj_eq_refl NanoObj_hash_class)

lemma key_of_FromKey: "\<exists>c. key_of (FromKey s) = Some c"
  by (auto simp: FromKey_def SetStringKey_def SetString_def SetInlineString_def
      SetSmallString_def split: option.splits)

lemma ToString_key_of: "key_of a = Some c \<Longrightarrow>
    ToString a = (case c of KInt v \<Rightarrow> to_string v | KStr s \<Rightarrow> s)"
  by (cases a) auto

lemma NanoObj_eq_ToString: "NanoObj_eq a b \<Longrightarrow> ToString a = ToString b"
  by (metis NanoObj_eq_iff ToString_key_of not_None_eq)

lemma key_of_FromKey_eq:
  assumes "length s < 65536"
  shows "key_of (FromKey s) = Some (case String2ll s of Some v \<Rightarrow> KInt v | None \<Rightarrow> KStr s)"
  using assms String2ll_length [of s]
  by (auto simp: FromKey_def SetStringKey_def SetString_def SetInlineString_def
      SetSmallString_def small_length_id split: option.splits)

text \<open>
  C3 (\<open>NanoObj::operator==\<close>, \<open>hash<NanoObj>\<close>): on keys shorter than 65536 bytes, two
  keys made by \<open>FromKey\<close> are equal exactly when their strings are, and equal keys have
  equal hashes.  So the mixed integer and string encodings never confuse two keys nor
  split one.
\<close>

theorem FromKey_identity:
  assumes "length s < 65536" "length t < 65536"
  shows "(NanoObj_eq (FromKey s) (FromKey t) \<longleftrightarrow> s = t) \<and>
    (NanoObj_eq (FromKey s) (FromKey t) \<longrightarrow> NanoObj_hash (FromKey s) = NanoObj_hash (FromKey t))"
proof -
  have "s = t" if "NanoObj_eq (FromKey s) (FromKey t)"
    using NanoObj_eq_ToString [OF that] assms by (simp add: ToString_FromKey_short)
  moreover have "NanoObj_eq (FromKey s) (FromKey s)"
    using key_of_FromKey [of s] by (auto simp: NanoObj_eq_refl)
  ultimately show ?thesis using NanoObj_eq_hash by blast
qed

theorem FromKey_identity_witness:
  "\<not> NanoObj_eq (FromKey ''42'') (FromKey ''042'') \<and>
   NanoObj_hash (FromKey ''42'') = NanoObj_hash (FromKey (''4'' @ ''2''))"
proof -
  have h: "length ''42'' < 65536" "length ''042'' < 65536" by simp_all
  show ?thesis using FromKey_identity [OF h] FromKey_identity [OF h(1) h(1)] by simp
qed

section \<open>Bulk arguments\<close>

text \<open>
  The zero-copy path of the parser builds the same object as \<open>FromKey\<close>, for a payload that
  fits the 16-bit length.
\<close>

lemma Finalize_Prepare:
  "length s < 65536 \<Longrightarrow> FinalizePreparedString (PrepareStringBuffer s) = FromString s"
  by (auto simp: PrepareStringBuffer_def FromString_def SetString_def SetInlineString_def
      SetSmallString_def small_length_id Let_def obj_consts min_def)

lemma bulk_object_eq_FromKey:
  assumes "length s < 65536"
  shows "MaybeConvertToInt (FinalizePreparedString (PrepareStringBuffer s)) = FromKey s"
proof -
  have "GetStringView (FromString s) = s"
    using assms by (auto simp: FromString_def SetString_def SetInlineString_def
        SetSmallString_def small_length_id)
  then show ?thesis
    using Finalize_Prepare [OF assms] String2ll_length [of s]
    by (auto simp: MaybeConvertToInt_def Let_def FromKey_def SetStringKey_def FromString_def
        split: option.splits)
qed

section \<open>Copies\<close>

lemma CopyFrom_scalar: "scalar_ok v \<Longrightarrow> CopyFrom stale v = v"
  by (cases v; cases stale) auto

lemma NanoObj_copy_scalar [simp]: "scalar_ok v \<Longrightarrow> NanoObj_copy v = v"
  by (simp add: NanoObj_copy_def CopyFrom_scalar)

lemma NanoObj_copy_eq [simp]:
  "NanoObj_eq (NanoObj_copy a) b = NanoObj_eq a b" "NanoObj_eq b (NanoObj_copy a) = NanoObj_eq b a"
  by (cases a; simp add: NanoObj_copy_def NanoObj_eq_iff)+

lemma NanoObj_copy_hash [simp]: "NanoObj_hash (NanoObj_copy a) = NanoObj_hash a"
  by (cases a) (auto simp: NanoObj_copy_def NanoObj_hash_class)

end
