(* ===== verification/Dash_Table.thy ===== *)
theory Dash_Table
  imports Dense_Map Nano_Obj
begin

text \<open>
  \<open>include/core/dashtable.h\<close> and \<open>src/core/dashtable.cc\<close>: the extendible-hashing table
  \<open>DashTable<K, V>\<close>.  Directory slots share segments, so segments live in a store
  \<open>segs\<close> and the directory holds their addresses (indices of the store), as the
  \<open>shared_ptr\<close>s of the source do.  \<open>dir_limit\<close> stands for the allocator: the largest
  \<open>global_depth\<close> for which \<open>segment_directory.resize\<close> succeeds; beyond it the code
  throws \<open>std::bad_alloc\<close>.

  The operations take the hash function \<open>h\<close> and the equality \<open>eq\<close> of the key type.  The
  locale \<open>hashed_keys\<close> states what they rely on; \<open>dt_inv\<close> is the invariant (shape of
  the directory, segment ids, every element in the segment its hash selects, no equal
  keys).  The loop of \<open>Insert\<close> carries a bound of \<open>dir_limit + 1\<close> rounds, which is
  enough because each round deepens the segment of the key by one.
\<close>

unbundle bit_operations_syntax

section \<open>Definitions\<close>

record ('k, 'v) segment =
  seg_table :: "('k \<times> 'v) list"
  local_depth :: nat
  segment_id :: nat
  version :: nat

record ('k, 'v) dashtable =
  segs :: "('k, 'v) segment list"
  segment_directory :: "nat list"
  global_depth :: nat
  max_segment_size :: nat
  dir_limit :: nat

definition kInitialSegmentCount :: nat where "kInitialSegmentCount = 1"
definition kDefaultFixedBucketCount :: nat where "kDefaultFixedBucketCount = 16"

definition make_segment :: "nat \<Rightarrow> nat \<Rightarrow> ('k, 'v) segment" where
  "make_segment depth ident =
     \<lparr>seg_table = [], local_depth = depth, segment_id = ident, version = 0\<rparr>"

text \<open>\<open>__builtin_ctz\<close>: the number of trailing zero bits.\<close>

fun builtin_ctz :: "nat \<Rightarrow> nat" where
  "builtin_ctz n = (if n = 0 \<or> odd n then 0 else Suc (builtin_ctz (n div 2)))"

declare builtin_ctz.simps [simp del]

definition DashTable_new :: "nat \<Rightarrow> nat \<Rightarrow> nat \<Rightarrow> ('k, 'v) dashtable" where
  "DashTable_new lim initial_segment_count max_size =
     (let gd = builtin_ctz initial_segment_count
      in \<lparr>segs = map (make_segment gd) [0..<initial_segment_count],
          segment_directory = [0..<initial_segment_count],
          global_depth = gd, max_segment_size = max_size, dir_limit = lim\<rparr>)"

subsection \<open>Access\<close>

definition seg_at :: "('k, 'v) dashtable \<Rightarrow> nat \<Rightarrow> ('k, 'v) segment" where
  "seg_at t i = segs t ! (segment_directory t ! i)"

definition seg_update ::
    "nat \<Rightarrow> (('k, 'v) segment \<Rightarrow> ('k, 'v) segment) \<Rightarrow> ('k, 'v) dashtable \<Rightarrow> ('k, 'v) dashtable" where
  "seg_update a f t = t\<lparr>segs := (segs t)[a := f (segs t ! a)]\<rparr>"

definition GetSegmentIndex :: "('k \<Rightarrow> 64 word) \<Rightarrow> ('k, 'v) dashtable \<Rightarrow> 'k \<Rightarrow> nat" where
  "GetSegmentIndex h t key =
     (if global_depth t = 0 then 0 else unat (drop_bit (64 - global_depth t) (h key)))"

definition DashTable_Find ::
    "('k \<Rightarrow> 64 word) \<Rightarrow> ('k \<Rightarrow> 'k \<Rightarrow> bool) \<Rightarrow> ('k, 'v) dashtable \<Rightarrow> 'k \<Rightarrow> 'v option" where
  "DashTable_Find h eq t key =
     map_option snd (table_find eq fst key (seg_table (seg_at t (GetSegmentIndex h t key))))"

definition DashTable_Erase ::
    "('k \<Rightarrow> 64 word) \<Rightarrow> ('k \<Rightarrow> 'k \<Rightarrow> bool) \<Rightarrow> ('k, 'v) dashtable \<Rightarrow> 'k \<Rightarrow>
     ('k, 'v) dashtable \<times> bool" where
  "DashTable_Erase h eq t key =
     (let seg_idx = GetSegmentIndex h t key;
          a = segment_directory t ! seg_idx;
          (vs, erased) = table_erase eq fst key (seg_table (segs t ! a))
      in (seg_update a (seg_table_update (\<lambda>_. vs)) t, erased))"

definition DashTable_Clear :: "('k, 'v) dashtable \<Rightarrow> ('k, 'v) dashtable" where
  "DashTable_Clear t =
     fold (\<lambda>a. seg_update a (seg_table_update (\<lambda>_. []))) (segment_directory t) t"

text \<open>A write through the pointer that \<open>Find\<close> returned: the stored value is replaced in place.\<close>

definition DashTable_Poke ::
    "('k \<Rightarrow> 64 word) \<Rightarrow> ('k \<Rightarrow> 'k \<Rightarrow> bool) \<Rightarrow> ('k, 'v) dashtable \<Rightarrow> 'k \<Rightarrow> 'v \<Rightarrow> ('k, 'v) dashtable" where
  "DashTable_Poke h eq t key v =
     (let a = segment_directory t ! GetSegmentIndex h t key;
          vs = seg_table (segs t ! a)
      in case table_pos eq fst key vs of
           None \<Rightarrow> t
         | Some i \<Rightarrow> seg_update a (seg_table_update (\<lambda>_. vs[i := (fst (vs ! i), v)])) t)"

subsection \<open>Walking the directory\<close>

definition NextSeg :: "('k, 'v) dashtable \<Rightarrow> nat \<Rightarrow> nat" where
  "NextSeg t sid =
     (if sid \<ge> length (segment_directory t) then sid
      else sid + 2 ^ (global_depth t - local_depth (seg_at t sid)))"

text \<open>The slots visited by \<open>for (i = 0; i < segment_directory.size(); i = NextSeg(i))\<close>.\<close>

function seg_walk :: "('k, 'v) dashtable \<Rightarrow> nat \<Rightarrow> nat list" where
  "seg_walk t i =
     (if i < length (segment_directory t) then i # seg_walk t (NextSeg t i) else [])"
  by pat_completeness auto
termination
  by (relation "measure (\<lambda>(t, i). length (segment_directory t) - i)")
    (auto simp: NextSeg_def diff_less_mono2)

declare seg_walk.simps [simp del]

definition DashTable_Size :: "('k, 'v) dashtable \<Rightarrow> nat" where
  "DashTable_Size t = fold (\<lambda>i size. size + length (seg_table (seg_at t i))) (seg_walk t 0) 0"

definition DashTable_ForEach :: "('k, 'v) dashtable \<Rightarrow> ('k \<times> 'v) list" where
  "DashTable_ForEach t = concat (map (\<lambda>i. seg_table (seg_at t i)) (seg_walk t 0))"

definition DashTable_ForEachInSeg :: "('k, 'v) dashtable \<Rightarrow> nat \<Rightarrow> ('k \<times> 'v) list" where
  "DashTable_ForEachInSeg t dir_idx =
     (if dir_idx \<ge> length (segment_directory t) then [] else seg_table (seg_at t dir_idx))"

definition SegmentCount :: "('k, 'v) dashtable \<Rightarrow> nat" where
  "SegmentCount t = length (segment_directory t)"

definition GetSegVersion :: "('k, 'v) dashtable \<Rightarrow> nat \<Rightarrow> nat" where
  "GetSegVersion t dir_idx = version (seg_at t dir_idx)"

definition SetSegVersion :: "('k, 'v) dashtable \<Rightarrow> nat \<Rightarrow> nat \<Rightarrow> ('k, 'v) dashtable" where
  "SetSegVersion t dir_idx ver =
     seg_update (segment_directory t ! dir_idx) (version_update (\<lambda>_. ver)) t"

subsection \<open>Splitting\<close>

text \<open>
  \<open>NeedSplit\<close> compares in single precision: \<open>size >= max_segment_size * 0.8f\<close>, where
  \<open>0.8f\<close> is $13421773 \cdot 2^{-24}$.  \<open>f32_round\<close> rounds a natural number to 24
  significant bits, ties to even; both sides are scaled by $2^{24}$.
\<close>

fun bit_length :: "nat \<Rightarrow> nat" where
  "bit_length n = (if n = 0 then 0 else Suc (bit_length (n div 2)))"

declare bit_length.simps [simp del]

definition f32_round :: "nat \<Rightarrow> nat" where
  "f32_round n =
     (let e = bit_length n - 24; q = n div 2 ^ e; r = n mod 2 ^ e
      in if 2 * r > 2 ^ e \<or> (2 * r = 2 ^ e \<and> odd q \<and> 0 < e) then (q + 1) * 2 ^ e else q * 2 ^ e)"

definition over_threshold :: "nat \<Rightarrow> nat \<Rightarrow> bool" where
  "over_threshold max_size n \<longleftrightarrow>
     f32_round n * 2 ^ 24 \<ge> f32_round (f32_round max_size * 13421773)"

definition NeedSplit :: "('k, 'v) dashtable \<Rightarrow> nat \<Rightarrow> bool" where
  "NeedSplit t seg_id \<longleftrightarrow>
     over_threshold (max_segment_size t) (length (seg_table (seg_at t (seg_id mod 2 ^ 32))))"

text \<open>Doubling the directory, from the last slot down to the first.\<close>

definition double_step :: "nat \<Rightarrow> ('k, 'v) dashtable \<Rightarrow> ('k, 'v) dashtable" where
  "double_step i t =
     (let offs = i * 2;
          d0 = segment_directory t;
          d1 = d0[offs := d0 ! i];
          d2 = d1[offs + 1 := d1 ! i]
      in seg_update (d2 ! i) (segment_id_update (\<lambda>_. offs mod 2 ^ 32)) (t\<lparr>segment_directory := d2\<rparr>))"

primrec double_loop :: "nat \<Rightarrow> ('k, 'v) dashtable \<Rightarrow> ('k, 'v) dashtable" where
  "double_loop 0 t = t"
| "double_loop (Suc i) t = double_loop i (double_step i t)"

definition double_directory :: "('k, 'v) dashtable \<Rightarrow> ('k, 'v) dashtable" where
  "double_directory t =
     (let old_size = length (segment_directory t);
          t = t\<lparr>segment_directory := segment_directory t @ replicate old_size 0\<rparr>;
          t = double_loop old_size t
      in t\<lparr>global_depth := global_depth t + 1\<rparr>)"

text \<open>Moving the elements of the upper half of the chunk to the new segment.\<close>

fun move_items ::
    "('k \<Rightarrow> 'k \<Rightarrow> bool) \<Rightarrow> nat \<Rightarrow> nat \<Rightarrow> nat \<Rightarrow> (64 word \<times> 'k) list \<Rightarrow>
     ('k \<times> 'v) list \<Rightarrow> ('k \<times> 'v) list \<Rightarrow> ('k \<times> 'v) list \<times> ('k \<times> 'v) list" where
  "move_items eq gd mid fin [] src new = (src, new)"
| "move_items eq gd mid fin ((hash, key) # items) src new =
     (let new_idx = unat (ucast (drop_bit (64 - gd) hash) :: 32 word) in
      if new_idx \<ge> mid \<and> new_idx < fin then
        (case table_pos eq fst key src of
           None \<Rightarrow> move_items eq gd mid fin items src new
         | Some i \<Rightarrow>
             move_items eq gd mid fin items (table_erase_at i src)
               (fst (table_insert eq fst (src ! i) new)))
      else move_items eq gd mid fin items src new)"

definition split_chunk ::
    "('k \<Rightarrow> 64 word) \<Rightarrow> ('k \<Rightarrow> 'k \<Rightarrow> bool) \<Rightarrow> ('k, 'v) dashtable \<Rightarrow> nat \<Rightarrow> ('k, 'v) dashtable" where
  "split_chunk h eq t seg_id =
     (let gd = global_depth t;
          a = segment_directory t ! seg_id;
          source = segs t ! a;
          chunk_size = (of_nat (2 ^ (gd - local_depth source)) :: 32 word);
          start_idx = of_nat seg_id AND NOT (chunk_size - 1);
          chunk_mid = start_idx + chunk_size div 2;
          chunk_end = unat (start_idx + chunk_size);
          mid = unat chunk_mid;
          items = map (\<lambda>e. (h (fst e), fst e)) (seg_table source);
          (src, new) = move_items eq gd mid chunk_end items (seg_table source) [];
          new_segment = \<lparr>seg_table = new, local_depth = local_depth source + 1,
                         segment_id = mid, version = version source\<rparr>;
          source' = source\<lparr>seg_table := src, local_depth := local_depth source + 1,
                           segment_id := unat start_idx\<rparr>;
          addr = length (segs t)
      in t\<lparr>segs := (segs t)[a := source'] @ [new_segment],
           segment_directory :=
             fold (\<lambda>i d. if i < length d then d[i := addr] else d) [mid..<chunk_end]
               (segment_directory t)\<rparr>)"

definition SplitSegment ::
    "('k \<Rightarrow> 64 word) \<Rightarrow> ('k \<Rightarrow> 'k \<Rightarrow> bool) \<Rightarrow> ('k, 'v) dashtable \<Rightarrow> nat \<Rightarrow>
     ('k, 'v) dashtable result" where
  "SplitSegment h eq t seg_id =
     (let source = segs t ! (segment_directory t ! seg_id) in
      if local_depth source = global_depth t then
        (if global_depth t \<ge> dir_limit t then Inl BadAlloc
         else let t' = double_directory t;
                  seg_id' = segment_id (segs t' ! (segment_directory t ! seg_id))
              in Inr (split_chunk h eq t' seg_id'))
      else if global_depth t < local_depth source then Inl ShiftRange
      else Inr (split_chunk h eq t seg_id))"

subsection \<open>Insertion\<close>

primrec Insert_loop ::
    "nat \<Rightarrow> ('k \<Rightarrow> 64 word) \<Rightarrow> ('k \<Rightarrow> 'k \<Rightarrow> bool) \<Rightarrow> 'k \<Rightarrow> ('k, 'v) dashtable \<Rightarrow> nat \<Rightarrow>
     ('k, 'v) dashtable result" where
  "Insert_loop 0 h eq key t seg_idx = Inl Diverges"
| "Insert_loop (Suc n) h eq key t seg_idx =
     (if NeedSplit t seg_idx then
        bind_r (SplitSegment h eq t (seg_idx mod 2 ^ 32))
          (\<lambda>t'. Insert_loop n h eq key t' (GetSegmentIndex h t' key))
      else Inr t)"

definition DashTable_Insert ::
    "('k \<Rightarrow> 64 word) \<Rightarrow> ('k \<Rightarrow> 'k \<Rightarrow> bool) \<Rightarrow> ('k, 'v) dashtable \<Rightarrow> 'k \<Rightarrow> 'v \<Rightarrow>
     ('k, 'v) dashtable result" where
  "DashTable_Insert h eq t key value =
     (let seg_idx = GetSegmentIndex h t key;
          t' = seg_update (segment_directory t ! seg_idx)
                 (seg_table_update (map_insert_or_assign eq key value)) t
      in Insert_loop (dir_limit t + 1) h eq key t' seg_idx)"

subsection \<open>Self check\<close>

function consistent_chunks :: "('k, 'v) dashtable \<Rightarrow> nat \<Rightarrow> bool" where
  "consistent_chunks t i =
     (if i < length (segment_directory t) then
        let a = segment_directory t ! i;
            chunk_size = 2 ^ (global_depth t - local_depth (segs t ! a));
            start_idx = i div chunk_size * chunk_size
        in list_all (\<lambda>j. segment_directory t ! (start_idx + j) = a) [1..<chunk_size] \<and>
           segment_id (segs t ! a) = start_idx \<and>
           consistent_chunks t (i + chunk_size)
      else True)"
  by pat_completeness auto
termination
  by (relation "measure (\<lambda>(t, i). length (segment_directory t) - i)")
    (auto simp: diff_less_mono2)

declare consistent_chunks.simps [simp del]

definition IsDirectoryConsistent :: "('k, 'v) dashtable \<Rightarrow> bool" where
  "IsDirectoryConsistent t =
     (if global_depth t > 64 then False
      else if length (segment_directory t) \<noteq> (if global_depth t = 0 then 1 else 2 ^ global_depth t)
      then False
      else if \<not> list_all (\<lambda>i. local_depth (seg_at t i) \<le> global_depth t)
                  [0..<length (segment_directory t)] then False
      else consistent_chunks t 0)"

subsection \<open>Invariant\<close>

definition chunk :: "('k, 'v) dashtable \<Rightarrow> nat \<Rightarrow> nat" where
  "chunk t i = 2 ^ (global_depth t - local_depth (seg_at t i))"

definition dir_inv :: "('k, 'v) dashtable \<Rightarrow> bool" where
  "dir_inv t \<longleftrightarrow>
     global_depth t \<le> dir_limit t \<and> dir_limit t \<le> 31 \<and>
     length (segment_directory t) = 2 ^ global_depth t \<and>
     (\<forall>i < 2 ^ global_depth t.
        segment_directory t ! i < length (segs t) \<and>
        local_depth (seg_at t i) \<le> global_depth t \<and>
        segment_id (seg_at t i) = i div chunk t i * chunk t i \<and>
        (\<forall>j < 2 ^ global_depth t.
           segment_directory t ! i = segment_directory t ! j \<longleftrightarrow> i div chunk t i = j div chunk t i))"

definition content_inv :: "('k \<Rightarrow> 64 word) \<Rightarrow> ('k \<Rightarrow> 'k \<Rightarrow> bool) \<Rightarrow> ('k, 'v) dashtable \<Rightarrow> bool" where
  "content_inv h eq t \<longleftrightarrow>
     (\<forall>i < 2 ^ global_depth t.
        table_inv eq fst (seg_table (seg_at t i)) \<and>
        (\<forall>e\<in>set (seg_table (seg_at t i)).
           segment_directory t ! GetSegmentIndex h t (fst e) = segment_directory t ! i))"

definition dt_inv :: "('k \<Rightarrow> 64 word) \<Rightarrow> ('k \<Rightarrow> 'k \<Rightarrow> bool) \<Rightarrow> ('k, 'v) dashtable \<Rightarrow> bool" where
  "dt_inv h eq t \<longleftrightarrow> dir_inv t \<and> content_inv h eq t"

 
section \<open>The directory under doubling\<close>

lemma seg_update_simps [simp]:
  "segment_directory (seg_update a f t) = segment_directory t"
  "global_depth (seg_update a f t) = global_depth t"
  "max_segment_size (seg_update a f t) = max_segment_size t"
  "dir_limit (seg_update a f t) = dir_limit t"
  "length (segs (seg_update a f t)) = length (segs t)"
  by (simp_all add: seg_update_def)

lemma segs_seg_update:
  "segs (seg_update a f t) ! b = (if b = a \<and> a < length (segs t) then f (segs t ! a) else segs t ! b)"
  by (cases "a < length (segs t)") (auto simp: seg_update_def nth_list_update list_update_beyond)

lemma double_step_simps [simp]:
  "global_depth (double_step i t) = global_depth t"
  "max_segment_size (double_step i t) = max_segment_size t"
  "dir_limit (double_step i t) = dir_limit t"
  "length (segs (double_step i t)) = length (segs t)"
  "length (segment_directory (double_step i t)) = length (segment_directory t)"
  by (simp_all add: double_step_def Let_def)

lemma double_loop_simps [simp]:
  "global_depth (double_loop m t) = global_depth t"
  "max_segment_size (double_loop m t) = max_segment_size t"
  "dir_limit (double_loop m t) = dir_limit t"
  "length (segs (double_loop m t)) = length (segs t)"
  "length (segment_directory (double_loop m t)) = length (segment_directory t)"
  by (induction m arbitrary: t) simp_all

lemma double_step_dir:
  assumes "2 * i + 1 < length (segment_directory t)"
  shows "segment_directory (double_step i t) ! j =
    (if j = 2 * i \<or> j = 2 * i + 1 then segment_directory t ! i else segment_directory t ! j)"
  using assms by (cases "i = 0") (auto simp: double_step_def Let_def nth_list_update)

lemma double_step_segs:
  assumes "2 * i + 1 < length (segment_directory t)"
  shows "segs (double_step i t) ! a =
    (if a = segment_directory t ! i \<and> a < length (segs t)
     then (segs t ! a)\<lparr>segment_id := (2 * i) mod 2 ^ 32\<rparr> else segs t ! a)"
  using assms
  by (cases "i = 0")
    (auto simp: double_step_def Let_def segs_seg_update nth_list_update mult.commute)

lemma double_loop_dir:
  assumes "2 * m \<le> length (segment_directory t)"
  shows "segment_directory (double_loop m t) ! j =
    (if j < 2 * m then segment_directory t ! (j div 2) else segment_directory t ! j)"
  using assms
proof (induction m arbitrary: t)
  case 0
  then show ?case by simp
next
  case (Suc i)
  have i: "2 * i + 1 < length (segment_directory t)" using Suc.prems by simp
  have "segment_directory (double_loop (Suc i) t) ! j =
      (if j < 2 * i then segment_directory (double_step i t) ! (j div 2)
       else segment_directory (double_step i t) ! j)"
    using Suc.IH [of "double_step i t"] Suc.prems by simp
  then show ?case using i by (auto simp: double_step_dir)
qed

lemma double_loop_segs:
  assumes "2 * m \<le> length (segment_directory t)"
  shows "\<exists>sid. segs (double_loop m t) ! a = (segs t ! a)\<lparr>segment_id := sid\<rparr>"
  using assms
proof (induction m arbitrary: t)
  case 0
  have "segs t ! a = (segs t ! a)\<lparr>segment_id := segment_id (segs t ! a)\<rparr>" by simp
  then show ?case unfolding double_loop.simps by blast
next
  case (Suc i)
  obtain sid where "segs (double_loop i (double_step i t)) ! a =
      (segs (double_step i t) ! a)\<lparr>segment_id := sid\<rparr>"
    using Suc.IH [of "double_step i t"] Suc.prems by auto
  with Suc.prems show ?case by (auto simp: double_step_segs intro!: exI [of _ sid])
qed

text \<open>The id that remains is the one of the first slot of the segment.\<close>

lemma double_loop_segment_id:
  assumes "2 * m \<le> length (segment_directory t)" "2 * m \<le> 2 ^ 32" "a < length (segs t)"
    and "\<forall>j < i0. segment_directory t ! j \<noteq> a" "i0 < m \<longrightarrow> segment_directory t ! i0 = a"
    and "m \<le> i0 \<longrightarrow> segment_id (segs t ! a) = 2 * i0"
  shows "segment_id (segs (double_loop m t) ! a) = 2 * i0"
  using assms
proof (induction m arbitrary: t)
  case 0
  then show ?case by simp
next
  case (Suc i)
  have i: "2 * i + 1 < length (segment_directory t)" using Suc.prems by simp
  have d: "segment_directory (double_step i t) ! j = segment_directory t ! j" if "j \<le> i" for j
    using that i by (auto simp: double_step_dir)
  have s: "segment_id (segs (double_step i t) ! a) =
      (if a = segment_directory t ! i then 2 * i else segment_id (segs t ! a))"
    using i Suc.prems by (auto simp: double_step_segs)
  have "segment_id (segs (double_loop i (double_step i t)) ! a) = 2 * i0"
  proof (rule Suc.IH)
    show "\<forall>j < i0. segment_directory (double_step i t) ! j \<noteq> a"
      using Suc.prems i by (auto simp: double_step_dir)
    show "i0 < i \<longrightarrow> segment_directory (double_step i t) ! i0 = a"
      using Suc.prems d by simp
    show "i \<le> i0 \<longrightarrow> segment_id (segs (double_step i t) ! a) = 2 * i0"
      using Suc.prems s by (auto simp: le_less)
  qed (use Suc.prems in auto)
  then show ?case by simp
qed

lemma GetSegmentIndex_div:
  assumes "global_depth t \<le> 64"
  shows "GetSegmentIndex h t k = unat (h k) div 2 ^ (64 - global_depth t)"
proof (cases "global_depth t = 0")
  case True
  have "unat (h k) < 2 ^ 64" using unsigned_less [of "h k", where 'a=nat] by simp
  with True show ?thesis by (simp add: GetSegmentIndex_def)
next
  case False
  have "take_bit 64 (unat (h k)) = unat (h k)"
    using unsigned_less [of "h k", where 'a=nat] by (simp add: take_bit_nat_eq_self_iff)
  with False show ?thesis
    by (simp add: GetSegmentIndex_def unsigned_drop_bit_eq flip: drop_bit_eq_div)
qed

lemma GetSegmentIndex_less:
  assumes "global_depth t \<le> 64"
  shows "GetSegmentIndex h t k < 2 ^ global_depth t"
proof -
  have "unat (h k) < 2 ^ 64" using unsigned_less [of "h k", where 'a=nat] by simp
  also have "(2 ^ 64 :: nat) = 2 ^ global_depth t * 2 ^ (64 - global_depth t)"
    using assms by (simp flip: power_add)
  finally show ?thesis
    by (simp add: GetSegmentIndex_div [OF assms] less_mult_imp_div_less)
qed

lemma GetSegmentIndex_deeper:
  assumes "global_depth t' = Suc (global_depth t)" "global_depth t < 64"
  shows "GetSegmentIndex h t' k div 2 = GetSegmentIndex h t k"
proof -
  have "64 - global_depth t = Suc (64 - global_depth t')" using assms by simp
  then show ?thesis using assms
    by (simp only: GetSegmentIndex_div div_pow2_split less_imp_le_nat Suc_leI)
qed

lemma dir_invD:
  assumes "dir_inv t"
  shows "global_depth t \<le> dir_limit t" "dir_limit t \<le> 31" "global_depth t \<le> 31"
    "length (segment_directory t) = 2 ^ global_depth t"
    "i < 2 ^ global_depth t \<Longrightarrow> segment_directory t ! i < length (segs t)"
    "i < 2 ^ global_depth t \<Longrightarrow> local_depth (seg_at t i) \<le> global_depth t"
    "i < 2 ^ global_depth t \<Longrightarrow> segment_id (seg_at t i) = i div chunk t i * chunk t i"
    "i < 2 ^ global_depth t \<Longrightarrow> j < 2 ^ global_depth t \<Longrightarrow>
       segment_directory t ! i = segment_directory t ! j \<longleftrightarrow> i div chunk t i = j div chunk t i"
  using assms by (auto simp: dir_inv_def)

lemma chunk_pos [simp]: "0 < chunk t i"
  by (simp add: chunk_def)

lemma segment_id_le: "dir_inv t \<Longrightarrow> i < 2 ^ global_depth t \<Longrightarrow> segment_id (seg_at t i) \<le> i"
  by (simp add: dir_invD(7))

lemma dir_segment_id:
  assumes "dir_inv t" "i < 2 ^ global_depth t"
  shows "segment_directory t ! segment_id (seg_at t i) = segment_directory t ! i"
proof -
  have le: "segment_id (seg_at t i) \<le> i" using assms by (rule segment_id_le)
  have "i div chunk t i = segment_id (seg_at t i) div chunk t i"
    using assms by (simp add: dir_invD(7))
  moreover have "segment_id (seg_at t i) < 2 ^ global_depth t" using le assms(2) by simp
  ultimately show ?thesis by (metis dir_invD(8) [OF assms])
qed

lemma dir_before_segment_id:
  assumes "dir_inv t" "i < 2 ^ global_depth t" "j < segment_id (seg_at t i)"
  shows "segment_directory t ! j \<noteq> segment_directory t ! i"
proof
  assume eq: "segment_directory t ! j = segment_directory t ! i"
  have "j < 2 ^ global_depth t" using assms segment_id_le [OF assms(1,2)] by simp
  then have "j div chunk t i = i div chunk t i" using dir_invD(8) [OF assms(1,2), of j] eq by simp
  then have "i div chunk t i * chunk t i \<le> j" by (simp add: div_block_iff)
  with assms show False by (simp add: dir_invD(7))
qed

lemma double_directory_simps [simp]:
  "global_depth (double_directory t) = Suc (global_depth t)"
  "max_segment_size (double_directory t) = max_segment_size t"
  "dir_limit (double_directory t) = dir_limit t"
  "length (segs (double_directory t)) = length (segs t)"
  "length (segment_directory (double_directory t)) = 2 * length (segment_directory t)"
  by (simp_all add: double_directory_def Let_def)

lemma double_directory_dir:
  assumes "j < 2 * length (segment_directory t)"
  shows "segment_directory (double_directory t) ! j = segment_directory t ! (j div 2)"
proof -
  have "j div 2 < length (segment_directory t)" using assms by simp
  then show ?thesis
    using assms by (simp add: double_directory_def Let_def double_loop_dir nth_append)
qed

lemma seg_at_double:
  assumes inv: "dir_inv t" and gd: "global_depth t < dir_limit t" and j: "j < 2 ^ Suc (global_depth t)"
  shows "seg_at (double_directory t) j =
    (seg_at t (j div 2))\<lparr>segment_id := 2 * segment_id (seg_at t (j div 2))\<rparr>"
proof -
  note D = dir_invD [OF inv]
  let ?i = "j div 2" and ?n = "length (segment_directory t)"
  let ?a = "segment_directory t ! ?i"
  let ?u = "t\<lparr>segment_directory := segment_directory t @ replicate ?n 0\<rparr>"
  have i: "?i < 2 ^ global_depth t" using j by simp
  have n: "2 * ?n \<le> 2 ^ 32"
  proof -
    have "2 ^ global_depth t \<le> (2 :: nat) ^ 31" using D(3) by (intro power_increasing) auto
    with D(4) show ?thesis by simp
  qed
  have segs: "segs (double_directory t) = segs (double_loop ?n ?u)"
    by (simp add: double_directory_def Let_def)
  have dir: "segment_directory ?u ! m = segment_directory t ! m" if "m < 2 ^ global_depth t" for m
    using that D(4) by (simp add: nth_append)
  have sid: "segment_id (segs (double_loop ?n ?u) ! ?a) = 2 * segment_id (seg_at t ?i)"
  proof (rule double_loop_segment_id)
    have le: "segment_id (seg_at t ?i) < 2 ^ global_depth t"
      using segment_id_le [OF inv i] i by simp
    then show "\<forall>m < segment_id (seg_at t ?i). segment_directory ?u ! m \<noteq> ?a"
      using dir dir_before_segment_id [OF inv i] by simp
    show "segment_id (seg_at t ?i) < ?n \<longrightarrow> segment_directory ?u ! segment_id (seg_at t ?i) = ?a"
      using le dir dir_segment_id [OF inv i] by simp
    show "?n \<le> segment_id (seg_at t ?i) \<longrightarrow> segment_id (segs ?u ! ?a) = 2 * segment_id (seg_at t ?i)"
      using le D(4) by simp
  qed (use n D(4) D(5) i in auto)
  obtain x where x: "segs (double_loop ?n ?u) ! ?a = (segs ?u ! ?a)\<lparr>segment_id := x\<rparr>"
    using double_loop_segs [of ?n ?u ?a] by auto
  have "segment_directory (double_directory t) ! j = ?a"
    using j D(4) by (intro double_directory_dir) simp
  with segs x sid show ?thesis by (auto simp: seg_at_def)
qed

lemma chunk_double:
  assumes "dir_inv t" "global_depth t < dir_limit t" "j < 2 ^ Suc (global_depth t)"
  shows "chunk (double_directory t) j = 2 * chunk t (j div 2)"
proof -
  have "local_depth (seg_at t (j div 2)) \<le> global_depth t"
    using assms by (intro dir_invD) auto
  then show ?thesis using assms by (simp add: chunk_def seg_at_double Suc_diff_le)
qed

lemma dir_inv_double:
  assumes inv: "dir_inv t" and gd: "global_depth t < dir_limit t"
  shows "dir_inv (double_directory t)"
proof -
  note D = dir_invD [OF inv]
  let ?t = "double_directory t"
  have "segment_directory ?t ! j < length (segs ?t)"
    "local_depth (seg_at ?t j) \<le> Suc (global_depth t)"
    "segment_id (seg_at ?t j) = j div chunk ?t j * chunk ?t j"
    if j: "j < 2 ^ Suc (global_depth t)" for j :: nat
  proof -
    have i: "j div 2 < 2 ^ global_depth t" using j by simp
    show "segment_directory ?t ! j < length (segs ?t)"
      using D(5) [OF i] j D(4) by (simp add: double_directory_dir)
    show "local_depth (seg_at ?t j) \<le> Suc (global_depth t)"
      using D(6) [OF i] j by (simp add: seg_at_double [OF inv gd])
    show "segment_id (seg_at ?t j) = j div chunk ?t j * chunk ?t j"
      using D(7) [OF i] j by (simp add: seg_at_double [OF inv gd] chunk_double [OF inv gd] div_mult2_eq)
  qed
  moreover have "segment_directory ?t ! j = segment_directory ?t ! k \<longleftrightarrow>
      j div chunk ?t j = k div chunk ?t j"
    if "j < 2 ^ Suc (global_depth t)" "k < 2 ^ Suc (global_depth t)" for j k :: nat
  proof -
    have "j div 2 < 2 ^ global_depth t" "k div 2 < 2 ^ global_depth t" using that by simp_all
    with that D(4) show ?thesis
      by (simp add: double_directory_dir chunk_double [OF inv gd] div_mult2_eq D(8))
  qed
  ultimately show ?thesis using D(1-4) gd by (simp add: dir_inv_def)
qed

lemma content_inv_double:
  assumes inv: "dir_inv t" and gd: "global_depth t < dir_limit t" and c: "content_inv h eq t"
  shows "content_inv h eq (double_directory t)"
  unfolding content_inv_def
proof (intro allI impI conjI ballI)
  let ?t = "double_directory t"
  fix j :: nat assume "j < 2 ^ global_depth ?t"
  then have j: "j < 2 ^ Suc (global_depth t)" by simp
  then have i: "j div 2 < 2 ^ global_depth t" by simp
  show "table_inv eq fst (seg_table (seg_at ?t j))"
    using c i j by (simp add: content_inv_def seg_at_double [OF inv gd])
  fix e assume "e \<in> set (seg_table (seg_at ?t j))"
  then have "e \<in> set (seg_table (seg_at t (j div 2)))"
    using j by (simp add: seg_at_double [OF inv gd])
  then have "segment_directory t ! GetSegmentIndex h t (fst e) = segment_directory t ! (j div 2)"
    using c i by (simp add: content_inv_def)
  moreover have "GetSegmentIndex h ?t (fst e) < 2 ^ global_depth ?t"
    using dir_invD(3) [OF inv] by (intro GetSegmentIndex_less) simp
  moreover have "GetSegmentIndex h ?t (fst e) div 2 = GetSegmentIndex h t (fst e)"
    using dir_invD(3) [OF inv] by (intro GetSegmentIndex_deeper) auto
  ultimately show "segment_directory ?t ! GetSegmentIndex h ?t (fst e) = segment_directory ?t ! j"
    using j dir_invD(4) [OF inv] by (simp add: double_directory_dir)
qed


section \<open>Splitting a segment\<close>

lemma unat_start_idx:
  assumes "k \<le> 31" "s < 2 ^ 32"
  shows "unat ((of_nat s :: 32 word) AND NOT (of_nat (2 ^ k) - 1)) = s div 2 ^ k * 2 ^ k"
proof -
  have m: "of_nat (2 ^ k) - 1 = (mask k :: 32 word)" by (simp add: mask_eq_exp_minus_1)
  have le: "s div 2 ^ k * 2 ^ k \<le> s" by simp
  have s: "take_bit 32 s = s" using assms by (simp add: take_bit_nat_eq_self_iff)
  have "(of_nat s :: 32 word) AND NOT (mask k) = push_bit k (drop_bit k (of_nat s))"
    by (rule bit_word_eqI) (auto simp: bit_simps)
  also have "\<dots> = of_nat (push_bit k (drop_bit k s))"
    by (rule bit_word_eqI) (use s in \<open>auto simp: bit_simps\<close>)
  finally have "unat ((of_nat s :: 32 word) AND NOT (mask k)) = take_bit 32 (push_bit k (drop_bit k s))"
    by (simp add: unsigned_of_nat)
  also have "\<dots> = s div 2 ^ k * 2 ^ k"
    using le_less_trans [OF le assms(2)]
    by (simp add: push_bit_eq_mult drop_bit_eq_div take_bit_nat_eq_self_iff)
  finally show ?thesis by (simp only: m)
qed

lemma unat_chunk_bounds:
  assumes "Suc k \<le> gd" "gd \<le> 31" "s < 2 ^ gd"
  defines "chunk_size \<equiv> of_nat (2 ^ Suc k) :: 32 word"
  defines "start_idx \<equiv> (of_nat s :: 32 word) AND NOT (chunk_size - 1)"
  shows "unat start_idx = s div 2 ^ Suc k * 2 ^ Suc k"
    "unat (start_idx + chunk_size div 2) = s div 2 ^ Suc k * 2 ^ Suc k + 2 ^ k"
    "unat (start_idx + chunk_size) = s div 2 ^ Suc k * 2 ^ Suc k + 2 ^ Suc k"
    "s div 2 ^ Suc k * 2 ^ Suc k + 2 ^ Suc k \<le> 2 ^ gd"
proof -
  let ?c = "2 ^ Suc k :: nat" and ?st = "s div 2 ^ Suc k * 2 ^ Suc k"
  have p: "(2 :: nat) ^ gd \<le> 2 ^ 31" using assms(2) by (intro power_increasing) auto
  have s: "s < 2 ^ 32" using assms(3) p by simp
  show start: "unat start_idx = ?st"
    unfolding start_idx_def chunk_size_def using assms(1,2) s by (intro unat_start_idx) auto
  have gd: "(2 :: nat) ^ gd = 2 ^ (gd - Suc k) * ?c" using assms(1) by (metis le_add_diff_inverse2 power_add)
  have "s div ?c < 2 ^ (gd - Suc k)" using assms(3) gd by (simp add: less_mult_imp_div_less)
  then have "Suc (s div ?c) * ?c \<le> 2 ^ (gd - Suc k) * ?c" by (intro mult_le_mono1) simp
  then show fin: "?st + ?c \<le> 2 ^ gd" using gd by simp
  have c: "unat chunk_size = ?c"
  proof -
    have "?c \<le> ?st + ?c" by simp
    also note fin also note p
    also have "(2 :: nat) ^ 31 < 2 ^ 32" by simp
    finally have "?c < 2 ^ 32" .
    then show ?thesis
      unfolding chunk_size_def unsigned_of_nat of_nat_id
      by (subst take_bit_nat_eq_self) simp_all
  qed
  have c2: "unat (chunk_size div 2) = 2 ^ k"
    using c by (simp add: unat_div)
  show "unat (start_idx + chunk_size div 2) = ?st + 2 ^ k"
    using start c2 fin p by (simp add: unat_word_ariths)
  show "unat (start_idx + chunk_size) = ?st + ?c"
    using start c fin p by (simp add: unat_word_ariths)
qed

lemma redirect_loop:
  "length (fold (\<lambda>i d. if i < length d then d[i := a] else d) [m..<n] d) = length d"
  "fold (\<lambda>i d. if i < length d then d[i := a] else d) [m..<n] d ! j =
     (if m \<le> j \<and> j < n \<and> j < length d then a else d ! j)"
proof (induction n)
  case (Suc n)
  { case 1 with Suc show ?case by simp
  next
    case 2 with Suc show ?case
      by (auto simp: nth_list_update less_Suc_eq) }
qed simp_all

lemma half_blocks:
  fixes i q c :: nat
  assumes "0 < c"
  shows "i div c = 2 * q + 1 \<longleftrightarrow> q * (2 * c) + c \<le> i \<and> i < q * (2 * c) + 2 * c"
    "i div c = 2 * q \<longleftrightarrow> q * (2 * c) \<le> i \<and> i < q * (2 * c) + c"
    "i div (2 * c) = i div c div 2"
  using div_block_iff [OF assms, of i "(2 * q + 1) * c"] div_block_iff [OF assms, of i "2 * q * c"] assms
  by (auto simp: algebra_simps div_mult2_eq)

locale hashed_keys = per_map eq for eq :: "'k \<Rightarrow> 'k \<Rightarrow> bool" +
  fixes h :: "'k \<Rightarrow> 64 word"
  assumes eq_hash: "eq a b \<Longrightarrow> h a = h b"
    and irrefl_hash: "\<not> eq a a \<Longrightarrow> h a = 0"
begin

lemma GetSegmentIndex_eq: "eq a b \<Longrightarrow> GetSegmentIndex h t a = GetSegmentIndex h t b"
  by (simp add: GetSegmentIndex_def eq_hash)

lemma move_items_spec:
  fixes src new :: "('k \<times> 'v) list" and mid fin gd :: nat
  defines "U \<equiv> \<lambda>e :: 'k \<times> 'v. mid \<le> unat (h (fst e)) div 2 ^ (64 - gd) \<and>
                             unat (h (fst e)) div 2 ^ (64 - gd) < fin"
  assumes gd: "0 < gd" "gd \<le> 31" and mid: "0 < mid"
    and "mset es \<subseteq># mset src" "table_inv eq fst (src @ new)"
    and "move_items eq gd mid fin (map (\<lambda>e. (h (fst e), fst e)) es) src new = (src', new')"
  shows "mset src' = mset src - filter_mset U (mset es) \<and> mset new' = mset new + filter_mset U (mset es)"
  using assms(5-)
proof (induction es arbitrary: src new)
  case Nil
  then show ?case by simp
next
  case (Cons e es)
  have idx: "unat (ucast (drop_bit (64 - gd) (h (fst e))) :: 32 word) =
      unat (h (fst e)) div 2 ^ (64 - gd)"
  proof -
    let ?t = "DashTable_new 31 1 16 :: ('k, 'v) dashtable"
    let ?t = "?t\<lparr>global_depth := gd\<rparr>"
    have x: "unat (drop_bit (64 - gd) (h (fst e))) = GetSegmentIndex h ?t (fst e)"
      using gd by (simp add: GetSegmentIndex_def)
    also have "\<dots> < 2 ^ gd" using GetSegmentIndex_less [of ?t] gd by simp
    also have "(2 :: nat) ^ gd \<le> 2 ^ 31" using gd by (intro power_increasing) auto
    finally have "unat (drop_bit (64 - gd) (h (fst e))) < 2 ^ 32" by simp
    then have "unat (ucast (drop_bit (64 - gd) (h (fst e))) :: 32 word) = GetSegmentIndex h ?t (fst e)"
      using x by (simp add: unsigned_ucast_eq take_bit_nat_eq_self_iff)
    then show ?thesis using gd by (simp add: GetSegmentIndex_div)
  qed
  let ?items = "map (\<lambda>e. (h (fst e), fst e)) es"
  have step: "move_items eq gd mid fin (map (\<lambda>e. (h (fst e), fst e)) (e # es)) src new =
      (if U e then
         (case table_pos eq fst (fst e) src of
            None \<Rightarrow> move_items eq gd mid fin ?items src new
          | Some i \<Rightarrow> move_items eq gd mid fin ?items (table_erase_at i src)
                        (fst (table_insert eq fst (src ! i) new)))
       else move_items eq gd mid fin ?items src new)"
    by (simp add: idx U_def Let_def)
  have es: "e \<in> set src" "mset es \<subseteq># mset src - {#e#}" "mset es \<subseteq># mset src"
    using Cons.prems(1) by (auto simp: insert_subset_eq_iff subset_mset.trans)
  show ?case
  proof (cases "U e")
    case False
    then show ?thesis
      using Cons.prems(3) Cons.IH [OF es(3) Cons.prems(2)] unfolding step by simp
  next
    case True
    have "h (fst e) \<noteq> 0" using True mid by (auto simp: U_def)
    then have refl: "eq (fst e) (fst e)" using irrefl_hash by blast
    then obtain i where i: "table_pos eq fst (fst e) src = Some i"
      using es(1) table_pos_None_iff [of eq fst "fst e" src] by auto
    then have il: "i < length src" "eq (fst e) (fst (src ! i))" by (auto dest: table_pos_SomeD)
    have sinv: "table_inv eq fst src"
      by (rule table_inv_subset [OF Cons.prems(2)]) simp
    have at: "src ! i = e"
      using table_inv_unique [OF sinv il(2) refl] il(1) es(1) by simp
    have "\<not> eq (fst e) (fst x)" if x: "x \<in> set new" for x
    proof
      assume eqx: "eq (fst e) (fst x)"
      have "{#e#} + {#x#} \<subseteq># mset src + mset new"
        using es(1) x by (intro subset_mset.add_mono) simp_all
      then have "filter_mset (\<lambda>y. eq (fst e) (fst y)) ({#e#} + {#x#}) \<subseteq>#
          filter_mset (\<lambda>y. eq (fst e) (fst y)) (mset (src @ new))"
        by (intro multiset_filter_mono) simp
      then have "{#e, x#} \<subseteq># filter_mset (\<lambda>y. eq (fst e) (fst y)) (mset (src @ new))"
        using eqx refl by (simp add: add_mset_commute)
      then have "size {#e, x#} \<le> size (filter_mset (\<lambda>y. eq (fst e) (fst y)) (mset (src @ new)))"
        by (rule size_mset_mono)
      moreover have "size (filter_mset (\<lambda>y. eq (fst e) (fst y)) (mset (src @ new))) \<le> 1"
        using Cons.prems(2) unfolding table_inv_mset by blast
      ultimately show False by simp
    qed
    then have ins: "table_insert eq fst e new = (new @ [e], True)"
      using table_pos_None_iff [of eq fst "fst e" new] by (auto simp: table_insert_def)
    let ?src = "table_erase_at i src"
    have m: "mset ?src = mset src - {#e#}" using mset_table_erase_at [OF il(1)] at by simp
    have "table_inv eq fst (?src @ (new @ [e]))"
      by (rule table_inv_subset [OF Cons.prems(2)]) (use m es(1) in simp)
    moreover have "mset es \<subseteq># mset ?src" using es(2) m by simp
    ultimately have "mset src' = mset ?src - filter_mset U (mset es) \<and>
        mset new' = mset (new @ [e]) + filter_mset U (mset es)"
      using Cons.prems(3) Cons.IH [of ?src "new @ [e]"] True i at ins unfolding step by simp
    with True m show ?thesis by simp
  qed
qed

end


lemma split_chunk_simps [simp]:
  "global_depth (split_chunk h eq t s) = global_depth t"
  "max_segment_size (split_chunk h eq t s) = max_segment_size t"
  "dir_limit (split_chunk h eq t s) = dir_limit t"
  "length (segs (split_chunk h eq t s)) = Suc (length (segs t))"
  "length (segment_directory (split_chunk h eq t s)) = length (segment_directory t)"
  by (simp_all add: split_chunk_def Let_def redirect_loop split: prod.splits)

text \<open>
  The effect of one split: \<open>c\<close> is half of the chunk, \<open>q\<close> the number of the chunk; the
  slots with \<open>i div c = 2 * q + 1\<close> go to the new segment, with the elements they select.
\<close>

definition split_effect ::
    "('k \<Rightarrow> 64 word) \<Rightarrow> ('k, 'v) dashtable \<Rightarrow> nat \<Rightarrow> ('k, 'v) dashtable \<Rightarrow> nat \<Rightarrow> nat \<Rightarrow> bool" where
  "split_effect h t s t' c q \<longleftrightarrow>
     0 < c \<and> chunk t s = 2 * c \<and>
     c = 2 ^ (global_depth t - Suc (local_depth (seg_at t s))) \<and> q = s div (2 * c) \<and>
     (\<forall>i < 2 ^ global_depth t. segment_directory t' ! i =
        (if i div c = 2 * q + 1 then length (segs t) else segment_directory t ! i)) \<and>
     (\<forall>i < 2 ^ global_depth t. \<exists>vs. seg_at t' i =
        (if i div c div 2 = q then
           \<lparr>seg_table = vs, local_depth = Suc (local_depth (seg_at t s)),
            segment_id = i div c * c, version = version (seg_at t s)\<rparr>
         else seg_at t i) \<and>
        (i div c div 2 = q \<longrightarrow> mset vs =
           filter_mset (\<lambda>e. GetSegmentIndex h t (fst e) div c = i div c)
             (mset (seg_table (seg_at t s)))))"

lemma split_effectD:
  assumes "split_effect h t s t' c q"
  shows "0 < c" "chunk t s = 2 * c" "c = 2 ^ (global_depth t - Suc (local_depth (seg_at t s)))"
    "q = s div (2 * c)"
    "i < 2 ^ global_depth t \<Longrightarrow> segment_directory t' ! i =
        (if i div c = 2 * q + 1 then length (segs t) else segment_directory t ! i)"
    "i < 2 ^ global_depth t \<Longrightarrow> i div c div 2 \<noteq> q \<Longrightarrow> seg_at t' i = seg_at t i"
    "i < 2 ^ global_depth t \<Longrightarrow> i div c div 2 = q \<Longrightarrow>
       local_depth (seg_at t' i) = Suc (local_depth (seg_at t s)) \<and>
       segment_id (seg_at t' i) = i div c * c \<and> version (seg_at t' i) = version (seg_at t s) \<and>
       mset (seg_table (seg_at t' i)) =
         filter_mset (\<lambda>e. GetSegmentIndex h t (fst e) div c = i div c)
           (mset (seg_table (seg_at t s)))"
proof -
  note E = assms [unfolded split_effect_def]
  show "0 < c" "chunk t s = 2 * c" "c = 2 ^ (global_depth t - Suc (local_depth (seg_at t s)))"
    "q = s div (2 * c)" using E by blast+
  show "i < 2 ^ global_depth t \<Longrightarrow> segment_directory t' ! i =
        (if i div c = 2 * q + 1 then length (segs t) else segment_directory t ! i)" using E by blast
next
  assume i: "i < 2 ^ global_depth t"
  obtain vs where vs: "seg_at t' i =
        (if i div c div 2 = q then
           \<lparr>seg_table = vs, local_depth = Suc (local_depth (seg_at t s)),
            segment_id = i div c * c, version = version (seg_at t s)\<rparr>
         else seg_at t i)"
      "i div c div 2 = q \<longrightarrow> mset vs =
           filter_mset (\<lambda>e. GetSegmentIndex h t (fst e) div c = i div c)
             (mset (seg_table (seg_at t s)))"
    using assms i unfolding split_effect_def by blast
  { assume "i div c div 2 \<noteq> q"
    with vs show "seg_at t' i = seg_at t i" by simp }
  assume "i div c div 2 = q"
  with vs show "local_depth (seg_at t' i) = Suc (local_depth (seg_at t s)) \<and>
       segment_id (seg_at t' i) = i div c * c \<and> version (seg_at t' i) = version (seg_at t s) \<and>
       mset (seg_table (seg_at t' i)) =
         filter_mset (\<lambda>e. GetSegmentIndex h t (fst e) div c = i div c)
           (mset (seg_table (seg_at t s)))"
    by (simp only: segment.simps if_True simp_thms)
qed

lemma half_cases: "x div 2 = q \<Longrightarrow> x \<noteq> 2 * q + 1 \<longleftrightarrow> x = 2 * q" for x q :: nat
  by presburger

context hashed_keys
begin

lemma split_chunk_spec:
  fixes t :: "('k, 'v) dashtable"
  assumes inv: "dir_inv t" and cont: "content_inv h eq t" and s: "s < 2 ^ global_depth t"
    and ld: "local_depth (seg_at t s) < global_depth t"
  obtains c q where "split_effect h t s (split_chunk h eq t s) c q"
proof -
  note D = dir_invD [OF inv]
  let ?gd = "global_depth t" and ?source = "seg_at t s" and ?a = "segment_directory t ! s"
  define k where "k = ?gd - Suc (local_depth ?source)"
  define c where "c = (2 :: nat) ^ k"
  define q where "q = s div (2 * c)"
  have k: "?gd - local_depth ?source = Suc k" using ld by (simp add: k_def)
  have c: "0 < c" "chunk t s = 2 * c" using k by (simp_all add: c_def chunk_def)
  have b: "unat ((of_nat s :: 32 word) AND NOT (of_nat (2 ^ Suc k) - 1)) = q * (2 * c)"
    "unat (((of_nat s :: 32 word) AND NOT (of_nat (2 ^ Suc k) - 1)) + of_nat (2 ^ Suc k) div 2) =
       q * (2 * c) + c"
    "unat (((of_nat s :: 32 word) AND NOT (of_nat (2 ^ Suc k) - 1)) + of_nat (2 ^ Suc k)) =
       q * (2 * c) + 2 * c"
    using unat_chunk_bounds [of k ?gd s] k D(3) s unfolding q_def c_def power_Suc by simp_all
  define items where "items = map (\<lambda>e. (h (fst e), fst e)) (seg_table ?source)"
  obtain src new where mv: "move_items eq ?gd (q * (2 * c) + c) (q * (2 * c) + 2 * c) items
      (seg_table ?source) [] = (src, new)" by fastforce
  define N where "N = \<lparr>seg_table = new, local_depth = Suc (local_depth ?source),
      segment_id = q * (2 * c) + c, version = version ?source\<rparr>"
  define S where "S = \<lparr>seg_table = src, local_depth = Suc (local_depth ?source),
      segment_id = q * (2 * c), version = version ?source\<rparr>"
  have src_eq: "segs t ! ?a = ?source" by (simp add: seg_at_def)
  have S_eq: "?source\<lparr>seg_table := src, local_depth := Suc (local_depth ?source),
      segment_id := q * (2 * c)\<rparr> = S" by (simp add: S_def)
  have eq: "split_chunk h eq t s = t\<lparr>segs := (segs t)[?a := S] @ [N],
      segment_directory := fold (\<lambda>i d. if i < length d then d[i := length (segs t)] else d)
        [q * (2 * c) + c..<q * (2 * c) + 2 * c] (segment_directory t)\<rparr>"
    unfolding split_chunk_def Let_def src_eq k b
    using mv by (simp add: items_def N_def S_eq)
  have dir: "segment_directory (split_chunk h eq t s) ! i =
       (if i div c = 2 * q + 1 then length (segs t) else segment_directory t ! i)"
    if i: "i < 2 ^ ?gd" for i
    using i D(4) half_blocks(1) [OF c(1), of i q] by (auto simp: eq redirect_loop)
  have idx: "GetSegmentIndex h t x = unat (h x) div 2 ^ (64 - ?gd)" for x
    using D(3) by (intro GetSegmentIndex_div) simp
  define U where "U = (\<lambda>e :: 'k \<times> 'v. GetSegmentIndex h t (fst e) div c = 2 * q + 1)"
  have "mset src = mset (seg_table ?source) - filter_mset U (mset (seg_table ?source)) \<and>
      mset new = mset [] + filter_mset U (mset (seg_table ?source))"
    unfolding U_def half_blocks(1) [OF c(1)] idx
    using cont s c(1) D(3) ld mv unfolding items_def
    by (intro move_items_spec) (auto simp: content_inv_def)
  then have src: "mset src = filter_mset (\<lambda>e. \<not> U e) (mset (seg_table ?source))"
    and new: "mset new = filter_mset U (mset (seg_table ?source))"
    by (auto simp: multiset_partition [of "mset (seg_table ?source)" U, symmetric]
        intro: add_implies_diff [symmetric] dest: arg_cong [where f = "\<lambda>x. x"])
  have in_chunk: "GetSegmentIndex h t (fst e) div c div 2 = q"
    if e: "e \<in> set (seg_table ?source)" for e
  proof -
    have "segment_directory t ! GetSegmentIndex h t (fst e) = ?a"
      using cont e s by (simp add: content_inv_def)
    moreover have "GetSegmentIndex h t (fst e) < 2 ^ ?gd"
      using D(3) by (intro GetSegmentIndex_less) simp
    ultimately have "s div chunk t s = GetSegmentIndex h t (fst e) div chunk t s"
      using D(8) [OF s] by metis
    then show ?thesis using c half_blocks(3) [OF c(1)] by (simp add: q_def)
  qed
  have low: "mset src = filter_mset (\<lambda>e. GetSegmentIndex h t (fst e) div c = 2 * q)
      (mset (seg_table ?source))"
    unfolding src
  proof (rule filter_mset_cong0)
    fix e assume "e \<in># mset (seg_table ?source)"
    then have "GetSegmentIndex h t (fst e) div c div 2 = q" using in_chunk by simp
    then show "(\<not> U e) = (GetSegmentIndex h t (fst e) div c = 2 * q)"
      unfolding U_def by (rule half_cases)
  qed
  have seg: "\<exists>vs. seg_at (split_chunk h eq t s) i =
       (if i div c div 2 = q then
          \<lparr>seg_table = vs, local_depth = Suc (local_depth ?source),
           segment_id = i div c * c, version = version ?source\<rparr>
        else seg_at t i) \<and>
       (i div c div 2 = q \<longrightarrow> mset vs =
          filter_mset (\<lambda>e. GetSegmentIndex h t (fst e) div c = i div c) (mset (seg_table ?source)))"
    if i: "i < 2 ^ ?gd" for i
  proof -
    have same: "segment_directory t ! i = ?a \<longleftrightarrow> i div c div 2 = q"
      using D(8) [OF s i] c half_blocks(3) [OF c(1)] by (auto simp: q_def)
    have len: "segment_directory t ! i < length (segs t)" using D(5) [OF i] .
    consider "i div c = 2 * q + 1" | "i div c = 2 * q" | "i div c div 2 \<noteq> q"
      using half_cases [of "i div c" q] by blast
    then show ?thesis
    proof cases
      case 1
      then have "seg_at (split_chunk h eq t s) i = N"
        using dir [OF i] by (simp add: seg_at_def eq nth_append)
      moreover have "i div c div 2 = q" using 1 by simp
      ultimately show ?thesis using 1 new unfolding N_def U_def
        by (intro exI [of _ new]) (simp add: algebra_simps)
    next
      case 2
      then have q: "i div c div 2 = q" by simp
      then have "seg_at (split_chunk h eq t s) i = S"
        using dir [OF i] 2 same len by (simp add: seg_at_def eq nth_append)
      with 2 q low show ?thesis unfolding S_def
        by (intro exI [of _ src]) (simp add: algebra_simps)
    next
      case 3
      then have "seg_at (split_chunk h eq t s) i = seg_at t i"
        using dir [OF i] same len by (auto simp: seg_at_def eq nth_append)
      with 3 show ?thesis by simp
    qed
  qed
  have "c = 2 ^ (?gd - Suc (local_depth ?source))" by (simp add: c_def k_def)
  with c q_def dir seg have "split_effect h t s (split_chunk h eq t s) c q"
    unfolding split_effect_def by blast
  then show thesis by (rule that)
qed

end


text \<open>The stored elements, each segment counted once.\<close>

definition contents :: "('k, 'v) dashtable \<Rightarrow> ('k \<times> 'v) multiset" where
  "contents t = (\<Sum>a\<in>set (segment_directory t). mset (seg_table (segs t ! a)))"

lemma in_contents_iff:
  assumes "dir_inv t"
  shows "e \<in># contents t \<longleftrightarrow> (\<exists>i < 2 ^ global_depth t. e \<in> set (seg_table (seg_at t i)))"
proof -
  have "set (segment_directory t) = (\<lambda>i. segment_directory t ! i) ` {..<2 ^ global_depth t}"
    using dir_invD(4) [OF assms] by (auto simp: in_set_conv_nth)
  then show ?thesis by (auto simp: contents_def set_mset_sum seg_at_def)
qed

lemma contents_seg_update:
  assumes "dir_inv t" "i < 2 ^ global_depth t"
  defines "a \<equiv> segment_directory t ! i"
  shows "contents (seg_update a (seg_table_update (\<lambda>_. vs)) t) =
    contents t - mset (seg_table (segs t ! a)) + mset vs"
proof -
  let ?D = "set (segment_directory t)" and ?t = "seg_update a (seg_table_update (\<lambda>_. vs)) t"
  have a: "a \<in> ?D" "a < length (segs t)" using assms dir_invD(4,5) [OF assms(1)] by auto
  have "contents ?t = mset (seg_table (segs ?t ! a)) +
      (\<Sum>b\<in>?D - {a}. mset (seg_table (segs ?t ! b)))"
    unfolding contents_def using a by (subst sum.remove [of _ a]) auto
  also have "(\<Sum>b\<in>?D - {a}. mset (seg_table (segs ?t ! b))) =
      (\<Sum>b\<in>?D - {a}. mset (seg_table (segs t ! b)))"
    by (intro sum.cong) (auto simp: segs_seg_update)
  finally have "contents ?t = mset vs + (\<Sum>b\<in>?D - {a}. mset (seg_table (segs t ! b)))"
    using a by (simp add: segs_seg_update)
  moreover have "contents t = mset (seg_table (segs t ! a)) +
      (\<Sum>b\<in>?D - {a}. mset (seg_table (segs t ! b)))"
    unfolding contents_def using a by (subst sum.remove [of _ a]) auto
  ultimately show ?thesis by simp
qed

lemma set_double_directory:
  assumes "dir_inv t"
  shows "set (segment_directory (double_directory t)) = set (segment_directory t)"
proof -
  let ?n = "length (segment_directory t)"
  have "set (segment_directory (double_directory t)) =
      (\<lambda>j. segment_directory (double_directory t) ! j) ` {..<2 * ?n}"
    by (auto simp: in_set_conv_nth)
  also have "\<dots> = (\<lambda>j. segment_directory t ! (j div 2)) ` {..<2 * ?n}"
    by (intro image_cong) (auto simp: double_directory_dir)
  also have "\<dots> = (\<lambda>i. segment_directory t ! i) ` ((\<lambda>j. j div 2) ` {..<2 * ?n})"
    by (simp add: image_image)
  also have "(\<lambda>j. j div 2) ` {..<2 * ?n} = {..<?n}"
  proof
    show "{..<?n} \<subseteq> (\<lambda>j. j div 2) ` {..<2 * ?n}"
    proof
      fix i assume "i \<in> {..<?n}"
      then show "i \<in> (\<lambda>j. j div 2) ` {..<2 * ?n}" by (intro image_eqI [of _ _ "2 * i"]) auto
    qed
  qed auto
  finally show ?thesis by (auto simp: in_set_conv_nth)
qed

lemma contents_double:
  assumes "dir_inv t"
  shows "contents (double_directory t) = contents t"
proof -
  let ?n = "length (segment_directory t)"
  let ?u = "t\<lparr>segment_directory := segment_directory t @ replicate ?n 0\<rparr>"
  have "seg_table (segs (double_directory t) ! a) = seg_table (segs t ! a)" for a
    using double_loop_segs [of ?n ?u a] by (auto simp: double_directory_def Let_def)
  then show ?thesis by (simp add: contents_def set_double_directory [OF assms])
qed

context hashed_keys
begin

lemma dir_inv_split:
  fixes t :: "('k, 'v) dashtable"
  assumes inv: "dir_inv t" and cont: "content_inv h eq t" and s: "s < 2 ^ global_depth t"
    and ld: "local_depth (seg_at t s) < global_depth t"
  shows "dir_inv (split_chunk h eq t s)"
proof -
  note D = dir_invD [OF inv]
  let ?t = "split_chunk h eq t s" and ?gd = "global_depth t"
  obtain c q where E: "split_effect h t s ?t c q" using split_chunk_spec [OF assms] .
  note c = split_effectD(1-4) [OF E]
  note dir = split_effectD(5) [OF E]
  have chunk: "chunk ?t i = (if i div c div 2 = q then c else chunk t i)" if "i < 2 ^ ?gd" for i
    using split_effectD(6,7) [OF E that]
    by (cases "i div c div 2 = q") (simp_all add: chunk_def flip: c(3))
  have same: "segment_directory t ! i = segment_directory t ! s \<longleftrightarrow> i div c div 2 = q"
    if "i < 2 ^ ?gd" for i
    using D(8) [OF s that] by (auto simp: c(2,4) half_blocks(3) [OF c(1)])
  have "segment_directory ?t ! i < length (segs ?t)" "local_depth (seg_at ?t i) \<le> ?gd"
    "segment_id (seg_at ?t i) = i div chunk ?t i * chunk ?t i" if i: "i < 2 ^ ?gd" for i
  proof -
    show "segment_directory ?t ! i < length (segs ?t)" using D(5) [OF i] dir [OF i] by simp
    show "local_depth (seg_at ?t i) \<le> ?gd"
      using D(6) [OF i] split_effectD(6,7) [OF E i] ld by (cases "i div c div 2 = q") auto
    show "segment_id (seg_at ?t i) = i div chunk ?t i * chunk ?t i"
      using D(7) [OF i] split_effectD(6,7) [OF E i] chunk [OF i] by (cases "i div c div 2 = q") auto
  qed
  moreover have "segment_directory ?t ! i = segment_directory ?t ! j \<longleftrightarrow>
      i div chunk ?t i = j div chunk ?t i" if i: "i < 2 ^ ?gd" and j: "j < 2 ^ ?gd" for i j
  proof (cases "i div c div 2 = q")
    case True
    show ?thesis
    proof (cases "i div c = 2 * q + 1")
      case True
      then show ?thesis
        using dir [OF i] dir [OF j] chunk [OF i] D(5) [OF j] by auto
    next
      case False
      then have i2: "i div c = 2 * q" using half_cases \<open>i div c div 2 = q\<close> by blast
      have "segment_directory t ! i = segment_directory t ! j \<longleftrightarrow> j div c div 2 = q"
        using same [OF i] same [OF j] True by auto
      with i2 show ?thesis
        using dir [OF i] dir [OF j] chunk [OF i] D(5) [OF i] half_cases [of "j div c" q] by auto
    qed
  next
    case False
    then have ne: "i div c \<noteq> 2 * q + 1" by auto
    show ?thesis
    proof (cases "j div c = 2 * q + 1")
      case True
      then have "segment_directory t ! j = segment_directory t ! s" using same [OF j] by simp
      then have "segment_directory t ! i \<noteq> segment_directory t ! j" using same [OF i] False by simp
      then show ?thesis
        using dir [OF i] dir [OF j] chunk [OF i] False ne True D(5) [OF i] D(8) [OF i j] by simp
    next
      case nj: False
      then show ?thesis using dir [OF i] dir [OF j] chunk [OF i] False ne D(8) [OF i j] by simp
    qed
  qed
  ultimately show ?thesis using D(1,2,4) unfolding dir_inv_def by simp
qed

end


lemma GetSegmentIndex_bound: "dir_inv t \<Longrightarrow> GetSegmentIndex h t k < 2 ^ global_depth t"
  using dir_invD(3) [of t] by (intro GetSegmentIndex_less) simp

lemma content_invD:
  assumes "content_inv h eq t" "i < 2 ^ global_depth t"
  shows "table_inv eq fst (seg_table (seg_at t i))"
    "e \<in> set (seg_table (seg_at t i)) \<Longrightarrow>
       segment_directory t ! GetSegmentIndex h t (fst e) = segment_directory t ! i"
  using assms by (auto simp: content_inv_def)

lemma element_in_chunk:
  assumes "dir_inv t" "content_inv h eq t" "s < 2 ^ global_depth t" "e \<in> set (seg_table (seg_at t s))"
  shows "GetSegmentIndex h t (fst e) div chunk t s = s div chunk t s"
  using content_invD(2) [OF assms(2-4)] dir_invD(8) [OF assms(1,3) GetSegmentIndex_bound [OF assms(1)]]
  by metis

lemma split_slots:
  assumes "dir_inv t" "s < 2 ^ global_depth t" "local_depth (seg_at t s) < global_depth t"
    and E: "split_effect h t s t' c q"
  shows "q * (2 * c) < 2 ^ global_depth t" "q * (2 * c) + c < 2 ^ global_depth t"
    "q * (2 * c) div c = 2 * q" "(q * (2 * c) + c) div c = 2 * q + 1"
proof -
  note c = split_effectD(1-4) [OF E]
  have "s div (2 * c) * (2 * c) + 2 * c \<le> 2 ^ global_depth t"
    using unat_chunk_bounds(4) [of "global_depth t - Suc (local_depth (seg_at t s))" "global_depth t" s]
      assms(2,3) dir_invD(3) [OF assms(1)] by (simp flip: c(3))
  then show "q * (2 * c) < 2 ^ global_depth t" "q * (2 * c) + c < 2 ^ global_depth t"
    using c(1,4) by simp_all
  show "q * (2 * c) div c = 2 * q" "(q * (2 * c) + c) div c = 2 * q + 1"
    using c(1) half_blocks(1,2) [OF c(1)] by auto
qed

context hashed_keys
begin

lemma content_inv_split:
  fixes t :: "('k, 'v) dashtable"
  assumes inv: "dir_inv t" and cont: "content_inv h eq t" and s: "s < 2 ^ global_depth t"
    and ld: "local_depth (seg_at t s) < global_depth t"
  shows "content_inv h eq (split_chunk h eq t s)"
  unfolding content_inv_def
proof (intro allI impI)
  let ?t = "split_chunk h eq t s" and ?gd = "global_depth t"
  obtain c q where E: "split_effect h t s ?t c q" using split_chunk_spec [OF assms] .
  note c = split_effectD(1-4) [OF E] and dir = split_effectD(5) [OF E]
  fix i :: nat assume "i < 2 ^ global_depth ?t"
  then have i: "i < 2 ^ ?gd" by simp
  have idx: "GetSegmentIndex h ?t k = GetSegmentIndex h t k" for k
    by (simp add: GetSegmentIndex_def)
  show "table_inv eq fst (seg_table (seg_at ?t i)) \<and>
      (\<forall>e\<in>set (seg_table (seg_at ?t i)).
         segment_directory ?t ! GetSegmentIndex h ?t (fst e) = segment_directory ?t ! i)"
  proof (cases "i div c div 2 = q")
    case True
    let ?V = "seg_table (seg_at t s)" and ?W = "seg_table (seg_at ?t i)"
    have m: "mset ?W = filter_mset (\<lambda>e. GetSegmentIndex h t (fst e) div c = i div c) (mset ?V)"
      using split_effectD(7) [OF E i True] by blast
    have sub: "mset ?W \<subseteq># mset ?V" unfolding m by simp
    have "segment_directory t ! GetSegmentIndex h t (fst e) = segment_directory t ! i \<and>
        GetSegmentIndex h t (fst e) div c = i div c" if "e \<in> set ?W" for e
    proof -
      have e: "e \<in> set ?V" "GetSegmentIndex h t (fst e) div c = i div c"
        using that m set_mset_mset [of ?W] by auto
      have "segment_directory t ! s = segment_directory t ! i"
        using dir_invD(8) [OF inv s i] True by (simp add: c(2,4) half_blocks(3) [OF c(1)])
      with content_invD(2) [OF cont s e(1)] e(2) show ?thesis by simp
    qed
    moreover have "table_inv eq fst ?W"
      using content_invD(1) [OF cont s] sub by (rule table_inv_subset)
    ultimately show ?thesis
      using dir [OF i] dir [OF GetSegmentIndex_bound [OF inv]] unfolding idx by simp
  next
    case False
    then have seg: "seg_at ?t i = seg_at t i" using split_effectD(6) [OF E i] by blast
    have "GetSegmentIndex h t (fst e) div c \<noteq> 2 * q + 1" "i div c \<noteq> 2 * q + 1"
      if e: "e \<in> set (seg_table (seg_at t i))" for e
    proof -
      let ?j = "GetSegmentIndex h t (fst e)"
      have j: "?j < 2 ^ ?gd" by (rule GetSegmentIndex_bound [OF inv])
      have "segment_directory t ! s \<noteq> segment_directory t ! i"
        using dir_invD(8) [OF inv s i] False by (auto simp: c(2,4) half_blocks(3) [OF c(1)])
      then have "segment_directory t ! s \<noteq> segment_directory t ! ?j"
        using content_invD(2) [OF cont i e] by simp
      then have "?j div c div 2 \<noteq> q"
        using dir_invD(8) [OF inv s j] by (auto simp: c(2,4) half_blocks(3) [OF c(1)])
      then show "?j div c \<noteq> 2 * q + 1" by auto
      show "i div c \<noteq> 2 * q + 1" using False by auto
    qed
    then show ?thesis
      using content_invD [OF cont i] dir [OF i] dir [OF GetSegmentIndex_bound [OF inv]]
      unfolding idx seg by auto
  qed
qed

lemma contents_split:
  fixes t :: "('k, 'v) dashtable"
  assumes inv: "dir_inv t" and cont: "content_inv h eq t" and s: "s < 2 ^ global_depth t"
    and ld: "local_depth (seg_at t s) < global_depth t"
  shows "contents (split_chunk h eq t s) = contents t"
proof -
  let ?t = "split_chunk h eq t s" and ?gd = "global_depth t" and ?n = "length (segs t)"
  let ?D = "set (segment_directory t)" and ?a = "segment_directory t ! s"
  let ?f = "\<lambda>b. mset (seg_table (segs t ! b))" and ?g = "\<lambda>b. mset (seg_table (segs ?t ! b))"
  obtain c q where E: "split_effect h t s ?t c q" using split_chunk_spec [OF assms] .
  note c = split_effectD(1-4) [OF E] and dir = split_effectD(5) [OF E]
  note lo = split_slots(1) [OF inv s ld E] and hi = split_slots(2) [OF inv s ld E]
  note slots = split_slots(3,4) [OF inv s ld E]
  note D = dir_invD [OF inv]
  let ?lo = "q * (2 * c)" and ?hi = "q * (2 * c) + c"
  have same: "segment_directory t ! i = ?a \<longleftrightarrow> i div c div 2 = q" if "i < 2 ^ ?gd" for i
    using D(8) [OF s that] by (auto simp: c(2,4) half_blocks(3) [OF c(1)])
  have dlo: "segment_directory ?t ! ?lo = ?a" using dir [OF lo] same [OF lo] slots by simp
  have dhi: "segment_directory ?t ! ?hi = ?n" using dir [OF hi] slots by simp
  have n: "?n \<notin> ?D" using D(4,5) by (metis in_set_conv_nth less_irrefl)
  have a: "?a \<in> ?D" using s D(4) by simp
  have "set (segment_directory ?t) = insert ?n ?D"
  proof
    show "set (segment_directory ?t) \<subseteq> insert ?n ?D"
    proof
      fix b assume "b \<in> set (segment_directory ?t)"
      then obtain i where "i < 2 ^ ?gd" "b = segment_directory ?t ! i"
        using D(4) by (auto simp: in_set_conv_nth)
      then show "b \<in> insert ?n ?D" using dir [of i] D(4) by simp
    qed
    show "insert ?n ?D \<subseteq> set (segment_directory ?t)"
    proof
      fix b assume b: "b \<in> insert ?n ?D"
      consider "b = ?n" | "b = ?a" | i where "i < 2 ^ ?gd" "b = segment_directory t ! i" "b \<noteq> ?a"
        using b D(4) by (auto simp: in_set_conv_nth)
      then show "b \<in> set (segment_directory ?t)"
      proof cases
        case 1
        then show ?thesis using dhi hi D(4) by (auto simp: in_set_conv_nth)
      next
        case 2
        then show ?thesis using dlo lo D(4) by (auto simp: in_set_conv_nth)
      next
        case 3
        then have "segment_directory ?t ! i = b" using dir [OF 3(1)] same [OF 3(1)] by auto
        then show ?thesis using 3(1) D(4) by (auto simp: in_set_conv_nth)
      qed
    qed
  qed
  then have "contents ?t = ?g ?n + (?g ?a + sum ?g (?D - {?a}))"
    unfolding contents_def using n sum.remove [of ?D ?a ?g] a by simp
  also have "sum ?g (?D - {?a}) = sum ?f (?D - {?a})"
  proof (rule sum.cong)
    fix b assume "b \<in> ?D - {?a}"
    then obtain i where i: "i < 2 ^ ?gd" "b = segment_directory t ! i" "b \<noteq> ?a"
      using D(4) by (auto simp: in_set_conv_nth)
    then have ni: "i div c div 2 \<noteq> q" using same [OF i(1)] by blast
    then have "i div c \<noteq> 2 * q + 1" by auto
    then have "segment_directory ?t ! i = b" using dir [OF i(1)] i(2) by simp
    then show "?g b = ?f b"
      using split_effectD(6) [OF E i(1) ni] i(2) by (simp add: seg_at_def)
  qed simp
  also have "?g ?n + (?g ?a + sum ?f (?D - {?a})) = ?f ?a + sum ?f (?D - {?a})"
  proof -
    have g: "?g ?n = filter_mset (\<lambda>e. GetSegmentIndex h t (fst e) div c = 2 * q + 1) (?f ?a)"
      "?g ?a = filter_mset (\<lambda>e. GetSegmentIndex h t (fst e) div c = 2 * q) (?f ?a)"
      using split_effectD(7) [OF E hi] split_effectD(7) [OF E lo] slots dhi dlo
      by (simp_all add: seg_at_def)
    have "?g ?a = filter_mset (\<lambda>e. \<not> GetSegmentIndex h t (fst e) div c = 2 * q + 1) (?f ?a)"
      unfolding g(2)
    proof (rule filter_mset_cong0)
      fix e assume "e \<in># ?f ?a"
      then have "GetSegmentIndex h t (fst e) div c div 2 = q"
        using element_in_chunk [OF inv cont s, of e]
        by (simp add: seg_at_def c(2,4) half_blocks(3) [OF c(1)])
      then show "(GetSegmentIndex h t (fst e) div c = 2 * q) =
          (\<not> GetSegmentIndex h t (fst e) div c = 2 * q + 1)" using half_cases by blast
    qed
    then have "?g ?n + ?g ?a = ?f ?a" unfolding g(1) by (metis multiset_partition)
    then show ?thesis by (simp add: add.assoc [symmetric])
  qed
  also have "\<dots> = contents t" unfolding contents_def using a by (simp add: sum.remove [of _ ?a])
  finally show ?thesis .
qed

end


section \<open>Updating one segment\<close>

lemma seg_at_seg_update:
  assumes "dir_inv t" "i < 2 ^ global_depth t"
  shows "seg_at (seg_update a f t) i =
    (if segment_directory t ! i = a then f (seg_at t i) else seg_at t i)"
  using dir_invD(5) [OF assms] by (simp add: seg_at_def segs_seg_update)

lemma seg_update_table:
  "seg_update a (seg_table_update f) t =
     seg_update a (seg_table_update (\<lambda>_. f (seg_table (segs t ! a)))) t"
  by (cases "segs t ! a") (simp add: seg_update_def)

lemma dir_inv_seg_update:
  assumes "dir_inv t"
  shows "dir_inv (seg_update a (seg_table_update f) t)"
    "dir_inv (seg_update a (version_update g) t)"
  using assms unfolding dir_inv_def
  by (simp_all add: chunk_def seg_at_seg_update [OF assms] cong: if_cong)

lemma GetSegmentIndex_seg_update [simp]:
  "GetSegmentIndex h (seg_update a f t) k = GetSegmentIndex h t k"
  by (simp add: GetSegmentIndex_def)

lemma content_inv_seg_update:
  assumes "dir_inv t" "content_inv h eq t" "table_inv eq fst vs"
    and "\<forall>e\<in>set vs. segment_directory t ! GetSegmentIndex h t (fst e) = a"
  shows "content_inv h eq (seg_update a (seg_table_update (\<lambda>_. vs)) t)"
  using assms unfolding content_inv_def by (auto simp: seg_at_seg_update [OF assms(1)])

lemma SplitSegment_cases:
  assumes inv: "dir_inv t" and s: "s < 2 ^ global_depth t"
  shows "SplitSegment h eq t s =
    (if local_depth (seg_at t s) < global_depth t then Inr (split_chunk h eq t s)
     else if global_depth t < dir_limit t
     then Inr (split_chunk h eq (double_directory t) (2 * segment_id (seg_at t s)))
     else Inl BadAlloc)"
proof -
  have "segs (double_directory t) ! (segment_directory t ! s) = seg_at (double_directory t) (2 * s)"
    using s dir_invD(4) [OF inv] by (simp add: seg_at_def double_directory_dir)
  then have "global_depth t < dir_limit t \<Longrightarrow>
      segment_id (segs (double_directory t) ! (segment_directory t ! s)) = 2 * segment_id (seg_at t s)"
    using seg_at_double [OF inv, of "2 * s"] s by simp
  then show ?thesis
    using dir_invD(6) [OF assms] by (auto simp: SplitSegment_def Let_def seg_at_def)
qed

context hashed_keys
begin

lemma split_chunk_depth:
  fixes t :: "('k, 'v) dashtable"
  assumes inv: "dir_inv t" and cont: "content_inv h eq t" and s: "s < 2 ^ global_depth t"
    and ld: "local_depth (seg_at t s) < global_depth t"
    and j: "j < 2 ^ global_depth t" "segment_directory t ! j = segment_directory t ! s"
  shows "local_depth (seg_at (split_chunk h eq t s) j) = Suc (local_depth (seg_at t s))"
proof -
  obtain c q where E: "split_effect h t s (split_chunk h eq t s) c q"
    using split_chunk_spec [OF assms(1-4)] .
  note c = split_effectD(1-4) [OF E]
  have "j div c div 2 = q"
    using dir_invD(8) [OF inv s j(1)] j(2) by (simp add: c(2,4) half_blocks(3) [OF c(1)])
  then show ?thesis using split_effectD(7) [OF E j(1)] by blast
qed

lemma SplitSegment_ok:
  fixes t :: "('k, 'v) dashtable"
  assumes inv: "dt_inv h eq t" and s: "s = GetSegmentIndex h t key"
    and r: "SplitSegment h eq t s = Inr t'"
  shows "dt_inv h eq t'" "contents t' = contents t" "dir_limit t' = dir_limit t"
    "max_segment_size t' = max_segment_size t"
    "local_depth (seg_at t' (GetSegmentIndex h t' key)) = Suc (local_depth (seg_at t s))"
proof -
  have I: "dir_inv t" "content_inv h eq t" using inv by (auto simp: dt_inv_def)
  have sl: "s < 2 ^ global_depth t" using GetSegmentIndex_bound [OF I(1)] s by simp
  have "dt_inv h eq t' \<and> contents t' = contents t \<and> dir_limit t' = dir_limit t \<and>
    max_segment_size t' = max_segment_size t \<and>
    local_depth (seg_at t' (GetSegmentIndex h t' key)) = Suc (local_depth (seg_at t s))"
  proof (cases "local_depth (seg_at t s) < global_depth t")
    case True
    then have t': "t' = split_chunk h eq t s" using r SplitSegment_cases [OF I(1) sl] by simp
    have "GetSegmentIndex h t' key = s" by (simp add: t' s GetSegmentIndex_def)
    with True show ?thesis
      using dir_inv_split [OF I sl True] content_inv_split [OF I sl True]
        contents_split [OF I sl True] split_chunk_depth [OF I sl True sl refl]
      by (simp add: t' dt_inv_def)
  next
    case False
    let ?u = "double_directory t" and ?s = "2 * segment_id (seg_at t s)"
    have gd: "global_depth t < dir_limit t" and t': "t' = split_chunk h eq ?u ?s"
      using r SplitSegment_cases [OF I(1) sl, of h eq] False by (auto split: if_splits)
    have U: "dir_inv ?u" "content_inv h eq ?u"
      using dir_inv_double [OF I(1) gd] content_inv_double [OF I(1) gd I(2)] by auto
    have sid: "segment_id (seg_at t s) < 2 ^ global_depth t"
      using segment_id_le [OF I(1) sl] sl by simp
    then have us: "?s < 2 ^ global_depth ?u" by simp
    have at: "segment_directory ?u ! ?s = segment_directory t ! s"
      using sid dir_segment_id [OF I(1) sl] dir_invD(4) [OF I(1)] by (simp add: double_directory_dir)
    have "seg_at ?u ?s = (seg_at t s)\<lparr>segment_id := ?s\<rparr>"
      using seg_at_double [OF I(1) gd, of ?s] sid dir_segment_id [OF I(1) sl] by (simp add: seg_at_def)
    then have ld: "local_depth (seg_at ?u ?s) = local_depth (seg_at t s)" by simp
    then have lt: "local_depth (seg_at ?u ?s) < global_depth ?u"
      using dir_invD(6) [OF I(1) sl] by simp
    let ?j = "GetSegmentIndex h ?u key"
    have j: "?j < 2 ^ global_depth ?u" by (rule GetSegmentIndex_bound [OF U(1)])
    have "?j div 2 = s" using s dir_invD(3) [OF I(1)] by (simp add: GetSegmentIndex_deeper)
    then have "segment_directory ?u ! ?j = segment_directory ?u ! ?s"
      using j at dir_invD(4) [OF I(1)] by (simp add: double_directory_dir)
    then have "local_depth (seg_at t' ?j) = Suc (local_depth (seg_at t s))"
      using split_chunk_depth [OF U us lt j] ld t' by simp
    moreover have "GetSegmentIndex h t' key = ?j" by (simp add: t' GetSegmentIndex_def)
    ultimately show ?thesis
      using dir_inv_split [OF U us lt] content_inv_split [OF U us lt] contents_split [OF U us lt]
        contents_double [OF I(1)] by (simp add: t' dt_inv_def)
  qed
  then show "dt_inv h eq t'" "contents t' = contents t" "dir_limit t' = dir_limit t"
    "max_segment_size t' = max_segment_size t"
    "local_depth (seg_at t' (GetSegmentIndex h t' key)) = Suc (local_depth (seg_at t s))"
    by blast+
qed

end

section \<open>Lookup, insertion and removal\<close>

lemma subset_filter_msetI:
  assumes "M \<subseteq># N" "\<And>x. x \<in># M \<Longrightarrow> P x"
  shows "M \<subseteq># filter_mset P N"
proof -
  have "filter_mset P M = M" using assms(2) by (simp add: filter_mset_eq_conv)
  with multiset_filter_mono [OF assms(1), of P] show ?thesis by simp
qed

text \<open>The elements whose hashes share the first \<open>dir_limit\<close> bits with that of \<open>key\<close>.\<close>

definition colliding :: "('k \<Rightarrow> 64 word) \<Rightarrow> nat \<Rightarrow> 'k \<Rightarrow> ('k \<times> 'v) multiset \<Rightarrow> nat" where
  "colliding h lim key M =
     size (filter_mset (\<lambda>e. unat (h (fst e)) div 2 ^ (64 - lim) = unat (h key) div 2 ^ (64 - lim)) M)"

lemma bit_length_less: "n < 2 ^ k \<Longrightarrow> bit_length n \<le> k"
proof (induction k arbitrary: n)
  case 0
  then show ?case by (simp add: bit_length.simps)
next
  case (Suc k)
  then have "bit_length (n div 2) \<le> k" by (intro Suc.IH) simp
  then show ?case by (subst bit_length.simps) simp
qed

lemma bit_length_power: "0 < n \<Longrightarrow> 2 ^ (bit_length n - 1) \<le> n"
proof (induction n rule: bit_length.induct)
  case (1 n)
  show ?case
  proof (cases "n div 2 = 0")
    case True
    with 1(2) show ?thesis by (simp add: bit_length.simps [of n] bit_length.simps [of 0])
  next
    case False
    then have "2 ^ (bit_length (n div 2) - 1) \<le> n div 2" using 1 by simp
    moreover have "bit_length n - 1 = Suc (bit_length (n div 2) - 1)"
      using 1(2) False by (simp add: bit_length.simps [of n] bit_length.simps [of "n div 2"])
    ultimately show ?thesis by simp
  qed
qed

lemma f32_round_small: "n < 2 ^ 24 \<Longrightarrow> f32_round n = n"
  using bit_length_less [of n 24] by (simp add: f32_round_def)

lemma f32_round_large:
  assumes "2 ^ 24 \<le> n"
  shows "2 ^ 23 \<le> f32_round n"
proof -
  let ?e = "bit_length n - 24"
  have pos: "0 < n" using assms by simp
  have "24 \<le> bit_length n"
  proof (rule ccontr)
    assume "\<not> ?thesis"
    moreover have "n < 2 ^ bit_length n"
      by (induction n rule: bit_length.induct) (subst bit_length.simps, auto)
    ultimately have "n < 2 ^ 24" by (meson less_le_trans nat_le_linear not_le power_increasing one_le_numeral)
    with assms show False by simp
  qed
  then have "bit_length n - 1 = 23 + ?e" by simp
  then have "(2 :: nat) ^ (bit_length n - 1) = 2 ^ 23 * 2 ^ ?e" by (simp only: power_add)
  with bit_length_power [OF pos] have "2 ^ 23 * 2 ^ ?e \<le> n" by simp
  then have "2 ^ 23 \<le> n div 2 ^ ?e" by (metis div_le_mono nonzero_mult_div_cancel_right power_not_zero zero_neq_numeral)
  then have "2 ^ 23 * 1 \<le> n div 2 ^ ?e * 2 ^ ?e" by (intro mult_le_mono) simp_all
  then show ?thesis by (simp add: f32_round_def Let_def)
qed

text \<open>With the default segment size of 16, a segment splits when it holds 13 elements.\<close>

lemma over_threshold_16: "over_threshold 16 n \<longleftrightarrow> 13 \<le> n"
proof -
  have t: "f32_round 214748368 = 214748368"
    by (simp add: f32_round_def bit_length.simps)
  show ?thesis
  proof (cases "n < 2 ^ 24")
    case True
    then show ?thesis by (auto simp: over_threshold_def t f32_round_small)
  next
    case False
    then show ?thesis using f32_round_large [of n] by (simp add: over_threshold_def t f32_round_small)
  qed
qed

context hashed_keys
begin

lemma Find_Some_iff:
  fixes t :: "('k, 'v) dashtable"
  assumes "dt_inv h eq t"
  shows "DashTable_Find h eq t k = Some v \<longleftrightarrow> (\<exists>k'. eq k k' \<and> (k', v) \<in># contents t)"
proof -
  have I: "dir_inv t" "content_inv h eq t" using assms by (auto simp: dt_inv_def)
  let ?i = "GetSegmentIndex h t k"
  have i: "?i < 2 ^ global_depth t" by (rule GetSegmentIndex_bound [OF I(1)])
  have "e \<in># contents t \<longleftrightarrow> e \<in> set (seg_table (seg_at t ?i))" if "eq k (fst e)" for e
  proof -
    have idx: "GetSegmentIndex h t (fst e) = ?i" using that GetSegmentIndex_eq by metis
    show ?thesis
      using content_invD(2) [OF I(2), of _ e] i unfolding in_contents_iff [OF I(1)] idx
      by (metis seg_at_def)
  qed
  then show ?thesis
    using table_find_Some_iff [OF content_invD(1) [OF I(2) i], of k]
    by (fastforce simp: DashTable_Find_def)
qed

lemma Find_contents_cong:
  fixes t t' :: "('k, 'v) dashtable"
  assumes "dt_inv h eq t" "dt_inv h eq t'" "contents t' = contents t"
  shows "DashTable_Find h eq t' k = DashTable_Find h eq t k"
proof -
  have "DashTable_Find h eq t' k = Some v \<longleftrightarrow> DashTable_Find h eq t k = Some v" for v
    by (simp add: Find_Some_iff [OF assms(1)] Find_Some_iff [OF assms(2)] assms(3))
  then show ?thesis by (metis option.exhaust)
qed

lemma Insert_loop_ok:
  fixes t :: "('k, 'v) dashtable"
  assumes "dt_inv h eq t"
    and "dir_limit t - local_depth (seg_at t (GetSegmentIndex h t key)) < n"
  shows "case Insert_loop n h eq key t (GetSegmentIndex h t key) of
      Inl f \<Rightarrow> f = BadAlloc \<and>
        (\<exists>m \<le> colliding h (dir_limit t) key (contents t). over_threshold (max_segment_size t) m)
    | Inr t' \<Rightarrow> dt_inv h eq t' \<and> contents t' = contents t \<and> dir_limit t' = dir_limit t \<and>
        max_segment_size t' = max_segment_size t"
  using assms
proof (induction n arbitrary: t)
  case 0
  then show ?case by simp
next
  case (Suc n)
  let ?i = "GetSegmentIndex h t key"
  have I: "dir_inv t" "content_inv h eq t" using Suc.prems by (auto simp: dt_inv_def)
  have i: "?i < 2 ^ global_depth t" by (rule GetSegmentIndex_bound [OF I(1)])
  have "(2 :: nat) ^ global_depth t \<le> 2 ^ 31"
    using dir_invD(3) [OF I(1)] by (intro power_increasing) auto
  then have mod: "?i mod 2 ^ 32 = ?i" using i by simp
  show ?case
  proof (cases "NeedSplit t ?i")
    case False
    with Suc.prems show ?thesis by simp
  next
    case True
    show ?thesis
    proof (cases "SplitSegment h eq t ?i")
      case (Inr t')
      note S = SplitSegment_ok [OF Suc.prems(1) refl Inr]
      have "local_depth (seg_at t ?i) \<le> dir_limit t"
        using dir_invD(1,6) [OF I(1)] i by (meson le_trans)
      moreover have "local_depth (seg_at t' (GetSegmentIndex h t' key)) \<le> dir_limit t'"
        using S(1) dir_invD(1,6) [of t'] GetSegmentIndex_bound [of t' h key]
        by (meson dt_inv_def le_trans)
      ultimately have "dir_limit t' - local_depth (seg_at t' (GetSegmentIndex h t' key)) < n"
        using Suc.prems(2) S(3,5) by linarith
      from Suc.IH [OF S(1) this] show ?thesis
        using True Inr mod S(2-4) by (simp split: sum.splits)
    next
      case (Inl f)
      then have lim: "f = BadAlloc" "global_depth t = dir_limit t"
          "local_depth (seg_at t ?i) = global_depth t"
        using SplitSegment_cases [OF I(1) i] dir_invD(1,6) [OF I(1)] i
        by (auto split: if_splits simp: le_less)
      let ?V = "seg_table (seg_at t ?i)"
      have "mset ?V \<subseteq># contents t"
        using i dir_invD(4) [OF I(1)] unfolding contents_def seg_at_def
        by (subst sum.remove [of _ "segment_directory t ! ?i"]) simp_all
      moreover have "unat (h (fst e)) div 2 ^ (64 - dir_limit t) = unat (h key) div 2 ^ (64 - dir_limit t)"
        if "e \<in> set ?V" for e
        using element_in_chunk [OF I i that] dir_invD(3) [OF I(1)] lim(2,3)
        by (simp add: chunk_def GetSegmentIndex_div)
      ultimately have "size (mset ?V) \<le> colliding h (dir_limit t) key (contents t)"
        unfolding colliding_def by (intro size_mset_mono subset_filter_msetI) simp_all
      moreover have "over_threshold (max_segment_size t) (size (mset ?V))"
        using True mod by (simp add: NeedSplit_def)
      ultimately show ?thesis using True Inl lim(1) mod by auto
    qed
  qed
qed

end

definition dt_put ::
    "('k \<Rightarrow> 64 word) \<Rightarrow> ('k \<Rightarrow> 'k \<Rightarrow> bool) \<Rightarrow> ('k, 'v) dashtable \<Rightarrow> 'k \<Rightarrow> 'v \<Rightarrow> ('k, 'v) dashtable" where
  "dt_put h eq t k v =
     (let a = segment_directory t ! GetSegmentIndex h t k
      in seg_update a (seg_table_update (\<lambda>_. map_insert_or_assign eq k v (seg_table (segs t ! a)))) t)"

lemma DashTable_Insert_eq:
  "DashTable_Insert h eq t k v =
     Insert_loop (dir_limit t + 1) h eq k (dt_put h eq t k v) (GetSegmentIndex h t k)"
  unfolding DashTable_Insert_def dt_put_def Let_def
  by (subst seg_update_table) simp

lemma map_fst_insert_or_assign:
  "map fst (map_insert_or_assign eq k v vs) =
     map fst vs @ (if table_find eq fst k vs = None then [k] else [])"
  by (auto simp: map_insert_or_assign_def table_find_def map_update
      dest!: table_pos_SomeD split: option.splits intro: nth_equalityI)
    (metis length_map list_update_id nth_map)

lemma size_filter_fst:
  "size (filter_mset (\<lambda>e. P (fst e)) (mset vs)) = length (filter P (map fst vs))"
  by (induction vs) auto

context hashed_keys
begin

lemma Find_seg_update:
  fixes t :: "('k, 'v) dashtable"
  assumes "dir_inv t"
  shows "DashTable_Find h eq (seg_update a (seg_table_update (\<lambda>_. vs)) t) k =
    (if segment_directory t ! GetSegmentIndex h t k = a
     then map_option snd (table_find eq fst k vs) else DashTable_Find h eq t k)"
  using assms by (simp add: DashTable_Find_def seg_at_seg_update GetSegmentIndex_bound)

lemma put_ok:
  fixes t :: "('k, 'v) dashtable"
  assumes inv: "dt_inv h eq t"
  shows "dt_inv h eq (dt_put h eq t k v)"
    "DashTable_Find h eq (dt_put h eq t k v) k' = (if eq k k' then Some v else DashTable_Find h eq t k')"
    "colliding h n k (contents (dt_put h eq t k v)) \<le> Suc (colliding h n k (contents t))"
    "size (contents (dt_put h eq t k v)) =
       size (contents t) + (if DashTable_Find h eq t k = None then 1 else 0)"
proof -
  let ?i = "GetSegmentIndex h t k" and ?a = "segment_directory t ! GetSegmentIndex h t k"
  let ?V = "seg_table (segs t ! ?a)"
  let ?W = "map_insert_or_assign eq k v ?V"
  have I: "dir_inv t" "content_inv h eq t" using inv by (auto simp: dt_inv_def)
  have i: "?i < 2 ^ global_depth t" by (rule GetSegmentIndex_bound [OF I(1)])
  have V: "?V = seg_table (seg_at t ?i)" by (simp add: seg_at_def)
  have Vinv: "table_inv eq fst ?V" unfolding V by (rule content_invD(1) [OF I(2) i])
  have keys: "fst e = k \<or> fst e \<in> fst ` set ?V" if "e \<in> set ?W" for e
  proof -
    have "fst e \<in> set (map fst ?W)" using that by simp
    then show ?thesis by (simp only: map_fst_insert_or_assign) (auto split: if_splits)
  qed
  have "segment_directory t ! GetSegmentIndex h t (fst e) = ?a" if "e \<in> set ?W" for e
    using keys [OF that] content_invD(2) [OF I(2) i] V by auto
  then show "dt_inv h eq (dt_put h eq t k v)"
    unfolding dt_inv_def dt_put_def Let_def
    using I Vinv by (intro conjI dir_inv_seg_update content_inv_seg_update
        table_inv_insert_or_assign) auto
  show "DashTable_Find h eq (dt_put h eq t k v) k' =
      (if eq k k' then Some v else DashTable_Find h eq t k')"
    using GetSegmentIndex_eq [of k k' t]
    unfolding dt_put_def Let_def Find_seg_update [OF I(1)] table_find_insert_or_assign [OF Vinv]
    by (auto simp: DashTable_Find_def seg_at_def)
  have c: "contents (dt_put h eq t k v) = contents t - mset ?V + mset ?W"
    unfolding dt_put_def Let_def by (rule contents_seg_update [OF I(1) i])
  have sub: "mset ?V \<subseteq># contents t"
    using i dir_invD(4) [OF I(1)] unfolding contents_def
    by (subst sum.remove [of _ ?a]) simp_all
  then obtain R where R: "contents t = mset ?V + R" by (auto simp: subset_mset.le_iff_add)
  then have c': "contents (dt_put h eq t k v) = mset ?W + R" using c by simp
  show "colliding h n k (contents (dt_put h eq t k v)) \<le> Suc (colliding h n k (contents t))"
    using size_filter_fst [of "\<lambda>x. unat (h x) div 2 ^ (64 - n) = unat (h k) div 2 ^ (64 - n)" ?V]
      size_filter_fst [of "\<lambda>x. unat (h x) div 2 ^ (64 - n) = unat (h k) div 2 ^ (64 - n)" ?W]
    unfolding colliding_def R c' by (simp add: map_fst_insert_or_assign)
  have "DashTable_Find h eq t k = None \<longleftrightarrow> table_find eq fst k ?V = None"
    by (simp add: DashTable_Find_def V)
  then show "size (contents (dt_put h eq t k v)) =
       size (contents t) + (if DashTable_Find h eq t k = None then 1 else 0)"
    unfolding R c' by (simp add: length_map_insert_or_assign)
qed

lemma Insert_ok:
  fixes t :: "('k, 'v) dashtable"
  assumes inv: "dt_inv h eq t" and r: "DashTable_Insert h eq t k v = Inr t'"
  shows "dt_inv h eq t'"
    "DashTable_Find h eq t' k' = (if eq k k' then Some v else DashTable_Find h eq t k')"
    "contents t' = contents (dt_put h eq t k v)"
    "dir_limit t' = dir_limit t" "max_segment_size t' = max_segment_size t"
proof -
  note P = put_ok [OF inv, where k = k and v = v]
  let ?p = "dt_put h eq t k v"
  have g: "GetSegmentIndex h ?p k = GetSegmentIndex h t k" "dir_limit ?p = dir_limit t"
      "max_segment_size ?p = max_segment_size t"
    by (simp_all add: dt_put_def Let_def)
  have "dir_limit ?p - local_depth (seg_at ?p (GetSegmentIndex h ?p k)) < dir_limit t + 1"
    using g by simp
  from Insert_loop_ok [OF P(1) this]
  have t': "dt_inv h eq t'" "contents t' = contents ?p" "dir_limit t' = dir_limit t"
      "max_segment_size t' = max_segment_size t"
    using r g unfolding DashTable_Insert_eq by auto
  then show "dt_inv h eq t'" "contents t' = contents ?p" "dir_limit t' = dir_limit t"
      "max_segment_size t' = max_segment_size t" by auto
  show "DashTable_Find h eq t' k' = (if eq k k' then Some v else DashTable_Find h eq t k')"
    using Find_contents_cong [OF P(1) t'(1,2)] P(2) by simp
qed

text \<open>
  Insertion ends in every case, and only an exhausted allocator makes it fail; with
  segments of 16 it succeeds unless 12 stored keys share all usable hash bits with the new one.
\<close>

lemma Insert_total:
  fixes t :: "('k, 'v) dashtable"
  assumes inv: "dt_inv h eq t"
  shows "DashTable_Insert h eq t k v = Inl BadAlloc \<or> (\<exists>t'. DashTable_Insert h eq t k v = Inr t')"
    "max_segment_size t = 16 \<Longrightarrow> colliding h (dir_limit t) k (contents t) < 12 \<Longrightarrow>
       \<exists>t'. DashTable_Insert h eq t k v = Inr t'"
proof -
  note P = put_ok [OF inv, where k = k and v = v]
  let ?p = "dt_put h eq t k v"
  have g: "GetSegmentIndex h ?p k = GetSegmentIndex h t k" "dir_limit ?p = dir_limit t"
      "max_segment_size ?p = max_segment_size t"
    by (simp_all add: dt_put_def Let_def)
  have "dir_limit ?p - local_depth (seg_at ?p (GetSegmentIndex h ?p k)) < dir_limit t + 1"
    using g by simp
  from Insert_loop_ok [OF P(1) this]
  have L: "DashTable_Insert h eq t k v = Inl f \<Longrightarrow> f = BadAlloc \<and>
      (\<exists>m \<le> colliding h (dir_limit t) k (contents ?p). over_threshold (max_segment_size t) m)" for f
    using g unfolding DashTable_Insert_eq by auto
  then show "DashTable_Insert h eq t k v = Inl BadAlloc \<or> (\<exists>t'. DashTable_Insert h eq t k v = Inr t')"
    by (cases "DashTable_Insert h eq t k v") auto
  assume "max_segment_size t = 16" "colliding h (dir_limit t) k (contents t) < 12"
  then show "\<exists>t'. DashTable_Insert h eq t k v = Inr t'"
    using L P(3) [of "dir_limit t"]
    by (cases "DashTable_Insert h eq t k v") (auto simp: over_threshold_16)
qed

lemma Erase_ok:
  fixes t :: "('k, 'v) dashtable"
  assumes inv: "dt_inv h eq t" and r: "DashTable_Erase h eq t k = (t', b)"
  shows "dt_inv h eq t'"
    "DashTable_Find h eq t' k' = (if eq k k' then None else DashTable_Find h eq t k')"
    "b \<longleftrightarrow> DashTable_Find h eq t k \<noteq> None"
    "size (contents t') = size (contents t) - (if b then 1 else 0)"
    "dir_limit t' = dir_limit t" "max_segment_size t' = max_segment_size t"
    "contents t' \<subseteq># contents t"
proof -
  let ?i = "GetSegmentIndex h t k" and ?a = "segment_directory t ! GetSegmentIndex h t k"
  let ?V = "seg_table (segs t ! ?a)"
  let ?W = "fst (table_erase eq fst k ?V)"
  have I: "dir_inv t" "content_inv h eq t" using inv by (auto simp: dt_inv_def)
  have i: "?i < 2 ^ global_depth t" by (rule GetSegmentIndex_bound [OF I(1)])
  have V: "?V = seg_table (seg_at t ?i)" by (simp add: seg_at_def)
  have Vinv: "table_inv eq fst ?V" unfolding V by (rule content_invD(1) [OF I(2) i])
  have t': "t' = seg_update ?a (seg_table_update (\<lambda>_. ?W)) t"
    and b: "b = snd (table_erase eq fst k ?V)"
    using r by (auto simp: DashTable_Erase_def Let_def split: prod.splits)
  show "dt_inv h eq t'"
    unfolding t' dt_inv_def using I Vinv content_invD(2) [OF I(2) i] V
    by (intro conjI dir_inv_seg_update content_inv_seg_update table_inv_erase)
      (auto simp: set_table_erase)
  show "DashTable_Find h eq t' k' = (if eq k k' then None else DashTable_Find h eq t k')"
    using GetSegmentIndex_eq [of k k' t]
    unfolding t' Find_seg_update [OF I(1)] table_find_erase [OF Vinv]
    by (auto simp: DashTable_Find_def seg_at_def)
  show bf: "b \<longleftrightarrow> DashTable_Find h eq t k \<noteq> None"
    by (simp add: b table_erase_snd DashTable_Find_def V)
  have "mset ?V \<subseteq># contents t"
    using i dir_invD(4) [OF I(1)] unfolding contents_def
    by (subst sum.remove [of _ ?a]) simp_all
  then obtain R where R: "contents t = mset ?V + R" by (auto simp: subset_mset.le_iff_add)
  then have c: "contents t' = mset ?W + R"
    unfolding t' using contents_seg_update [OF I(1) i] by simp
  have "?V \<noteq> [] \<or> \<not> b" by (auto simp: b table_erase_snd)
  then have nonempty: "(if b then 1 else 0) \<le> length ?V" by (auto simp: Suc_le_eq)
  have "length ?W = length ?V - (if b then 1 else 0)"
    unfolding length_table_erase b table_erase_snd by (cases "table_find eq fst k ?V") simp_all
  then show "size (contents t') = size (contents t) - (if b then 1 else 0)"
    using nonempty unfolding c R size_union size_mset by linarith
  show "contents t' \<subseteq># contents t"
    unfolding c R
    by (intro subset_mset.add_right_mono)
      (auto simp: table_erase_def mset_table_erase_at dest: table_pos_SomeD split: option.splits)
  show "dir_limit t' = dir_limit t" "max_segment_size t' = max_segment_size t"
    by (simp_all add: t')
qed

end

section \<open>Enumeration\<close>

lemma next_chunk:
  assumes inv: "dir_inv t" and i: "i < 2 ^ global_depth t" and start: "segment_id (seg_at t i) = i"
  defines "n \<equiv> i + chunk t i"
  shows "n \<le> 2 ^ global_depth t" "NextSeg t i = n"
    "n < 2 ^ global_depth t \<Longrightarrow> segment_id (seg_at t n) = n"
    "j < 2 ^ global_depth t \<Longrightarrow> segment_directory t ! j = segment_directory t ! i \<longleftrightarrow> i \<le> j \<and> j < n"
proof -
  note D = dir_invD [OF inv]
  let ?c = "chunk t i" and ?gd = "global_depth t"
  have ic: "i div ?c * ?c = i" using D(7) [OF i] start by simp
  have "(2 :: nat) ^ ?gd = 2 ^ local_depth (seg_at t i) * ?c"
    using D(6) [OF i] by (simp add: chunk_def flip: power_add)
  moreover have "i div ?c < 2 ^ local_depth (seg_at t i)"
    using i calculation by (simp add: less_mult_imp_div_less)
  then have "Suc (i div ?c) * ?c \<le> 2 ^ local_depth (seg_at t i) * ?c"
    by (intro mult_le_mono1) simp
  ultimately show le: "n \<le> 2 ^ ?gd" using ic by (simp add: n_def)
  show "NextSeg t i = n" using i D(4) by (simp add: NextSeg_def n_def chunk_def)
  have block: "segment_directory t ! j = segment_directory t ! i \<longleftrightarrow> i \<le> j \<and> j < n"
    if "j < 2 ^ ?gd" for j
  proof -
    have "j div ?c = i div ?c \<longleftrightarrow> i \<le> j \<and> j < n"
      using div_block_iff [OF chunk_pos, of j t i i] unfolding ic n_def .
    then show ?thesis using D(8) [OF i that] by metis
  qed
  then show "j < 2 ^ ?gd \<Longrightarrow> segment_directory t ! j = segment_directory t ! i \<longleftrightarrow> i \<le> j \<and> j < n" .
  assume n: "n < 2 ^ ?gd"
  show "segment_id (seg_at t n) = n"
  proof (rule ccontr)
    assume ne: "segment_id (seg_at t n) \<noteq> n"
    let ?s = "segment_id (seg_at t n)"
    have s: "?s < n" using ne segment_id_le [OF inv n] by simp
    have sn: "?s = n div chunk t n * chunk t n" using D(7) [OF n] .
    have "n < ?s + chunk t n" unfolding sn using div_block_iff [of "chunk t n" n n] by simp
    then have "?s \<le> n - 1 \<and> n - 1 < ?s + chunk t n" using s by linarith
    then have "(n - 1) div chunk t n = n div chunk t n"
      using div_block_iff [OF chunk_pos, of "n - 1" t n n] unfolding sn by blast
    then have "segment_directory t ! (n - 1) = segment_directory t ! n"
      using D(8) [OF n, of "n - 1"] n by simp
    moreover have "segment_directory t ! (n - 1) = segment_directory t ! i"
    proof -
      have "i \<le> n - 1 \<and> n - 1 < n" using chunk_pos [of t i] unfolding n_def by linarith
      then show ?thesis using block [of "n - 1"] n by simp
    qed
    ultimately show False using block [OF n] by simp
  qed
qed

lemma seg_walk_image:
  assumes "dir_inv t" "i < 2 ^ global_depth t \<longrightarrow> segment_id (seg_at t i) = i"
  shows "distinct (map ((!) (segment_directory t)) (seg_walk t i)) \<and>
    set (map ((!) (segment_directory t)) (seg_walk t i)) =
      (!) (segment_directory t) ` {i..<2 ^ global_depth t} \<and>
    set (seg_walk t i) \<subseteq> {i..<2 ^ global_depth t}"
  using assms
proof (induction t i rule: seg_walk.induct)
  case (1 t i)
  show ?case
  proof (cases "i < 2 ^ global_depth t")
    case False
    then show ?thesis using dir_invD(4) [OF 1(2)] by (simp add: seg_walk.simps [of t i])
  next
    case True
    let ?n = "i + chunk t i" and ?d = "segment_directory t" and ?N = "2 ^ global_depth t :: nat"
    have start: "segment_id (seg_at t i) = i" using 1(3) True by simp
    note N = next_chunk [OF 1(2) True start]
    have w: "seg_walk t i = i # seg_walk t ?n"
      using True dir_invD(4) [OF 1(2)] N(2) by (simp add: seg_walk.simps [of t i])
    have IH: "distinct (map ((!) ?d) (seg_walk t ?n))"
      "set (map ((!) ?d) (seg_walk t ?n)) = (!) ?d ` {?n..<?N}"
      "set (seg_walk t ?n) \<subseteq> {?n..<?N}"
      using 1(1) [OF _ 1(2)] True dir_invD(4) [OF 1(2)] N(2,3) by auto
    have block: "?d ! j = ?d ! i \<longleftrightarrow> i \<le> j \<and> j < ?n" if "j < ?N" for j
      using N(4) [OF that] .
    have "?d ! i \<notin> (!) ?d ` {?n..<?N}"
    proof
      assume "?d ! i \<in> (!) ?d ` {?n..<?N}"
      then obtain j where "?n \<le> j" "j < ?N" "?d ! j = ?d ! i" by auto
      then show False using block [of j] by simp
    qed
    then have "distinct (map ((!) ?d) (seg_walk t i))" using IH(1,2) by (simp add: w)
    moreover have "set (map ((!) ?d) (seg_walk t i)) = (!) ?d ` {i..<?N}"
    proof -
      have "{i..<?N} = {i..<?n} \<union> {?n..<?N}" using N(1) by (auto simp: ivl_disj_un)
      moreover have "(!) ?d ` {i..<?n} = {?d ! i}"
      proof -
        have "?d ! j = ?d ! i" if "j \<in> {i..<?n}" for j using that block [of j] N(1) by simp
        moreover have "i \<in> {i..<?n}" by simp
        ultimately show ?thesis by blast
      qed
      ultimately show ?thesis using IH(2) by (simp add: w image_Un)
    qed
    moreover have "set (seg_walk t i) \<subseteq> {i..<?N}" using IH(3) True by (auto simp: w)
    ultimately show ?thesis by blast
  qed
qed

lemma first_slot: "dir_inv t \<Longrightarrow> segment_id (seg_at t 0) = 0"
  by (simp add: dir_invD(7))

text \<open>\<open>ForEach\<close> visits every stored element once, and \<open>Size\<close> counts them.\<close>

lemma mset_ForEach:
  assumes "dir_inv t"
  shows "mset (DashTable_ForEach t) = contents t"
proof -
  let ?d = "segment_directory t"
  have W: "distinct (map ((!) ?d) (seg_walk t 0))"
    "set (map ((!) ?d) (seg_walk t 0)) = set ?d"
    using seg_walk_image [OF assms, of 0] first_slot [OF assms] nth_image [of "length ?d" ?d]
      dir_invD(4) [OF assms] by simp_all
  have "mset (DashTable_ForEach t) =
      sum_list (map (\<lambda>a. mset (seg_table (segs t ! a))) (map ((!) ?d) (seg_walk t 0)))"
    by (simp add: DashTable_ForEach_def mset_concat seg_at_def comp_def)
  also have "\<dots> = contents t"
    unfolding sum_list_distinct_conv_sum_set [OF W(1)] W(2) contents_def ..
  finally show ?thesis .
qed

lemma Size_ForEach: "DashTable_Size t = length (DashTable_ForEach t)"
proof -
  have "fold (\<lambda>i n. n + length (seg_table (seg_at t i))) xs m =
      m + length (concat (map (\<lambda>i. seg_table (seg_at t i)) xs))" for xs m
    by (induction xs arbitrary: m) simp_all
  then show ?thesis by (simp add: DashTable_Size_def DashTable_ForEach_def)
qed

lemma Size_contents: "dir_inv t \<Longrightarrow> DashTable_Size t = size (contents t)"
  using mset_ForEach [of t] by (metis Size_ForEach size_mset)

lemma consistent_chunks_inv:
  assumes "dir_inv t" "i < 2 ^ global_depth t \<longrightarrow> segment_id (seg_at t i) = i"
  shows "consistent_chunks t i"
  using assms
proof (induction t i rule: consistent_chunks.induct)
  case (1 t i)
  show ?case
  proof (cases "i < 2 ^ global_depth t")
    case False
    then show ?thesis using dir_invD(4) [OF 1(2)] by (simp add: consistent_chunks.simps [of t i])
  next
    case True
    have start: "segment_id (seg_at t i) = i" using 1(3) True by simp
    note N = next_chunk [OF 1(2) True start]
    have c: "2 ^ (global_depth t - local_depth (segs t ! (segment_directory t ! i))) = chunk t i"
      by (simp add: chunk_def seg_at_def)
    have "i div chunk t i * chunk t i = i" using dir_invD(7) [OF 1(2) True] start by simp
    moreover have "consistent_chunks t (i + chunk t i)"
      using 1(1) [OF _ refl refl refl] True dir_invD(4) [OF 1(2)] N(3) 1(2) unfolding c by simp
    moreover have "segment_directory t ! (i + j) = segment_directory t ! i" if "j < chunk t i" for j
      using N(4) [of "i + j"] N(1) that by simp
    ultimately show ?thesis
      using start unfolding consistent_chunks.simps [of t i] Let_def c
      by (simp add: seg_at_def list_all_iff)
  qed
qed

lemma IsDirectoryConsistent_inv: "dir_inv t \<Longrightarrow> IsDirectoryConsistent t"
  using dir_invD(3,4,6) [of t] consistent_chunks_inv [of t 0] first_slot [of t]
  by (auto simp: IsDirectoryConsistent_def list_all_iff)

section \<open>Other operations\<close>

lemma clear_fold:
  fixes t :: "('k, 'v) dashtable"
  defines "cl \<equiv> fold (\<lambda>a. seg_update a (seg_table_update (\<lambda>_. [] :: ('k \<times> 'v) list)))"
  shows "segment_directory (cl as t) = segment_directory t" "global_depth (cl as t) = global_depth t"
    "dir_limit (cl as t) = dir_limit t" "max_segment_size (cl as t) = max_segment_size t"
    "length (segs (cl as t)) = length (segs t)"
    "b < length (segs t) \<Longrightarrow> segs (cl as t) ! b =
       (if b \<in> set as then (segs t ! b)\<lparr>seg_table := []\<rparr> else segs t ! b)"
  unfolding cl_def by (induction as arbitrary: t) (simp_all add: segs_seg_update)

lemma Clear_ok:
  assumes inv: "dir_inv t"
  shows "dt_inv h eq (DashTable_Clear t)" "contents (DashTable_Clear t) = {#}"
    "dir_limit (DashTable_Clear t) = dir_limit t"
    "max_segment_size (DashTable_Clear t) = max_segment_size t"
proof -
  let ?t = "DashTable_Clear t"
  note C = clear_fold [where as = "segment_directory t" and t = t, folded DashTable_Clear_def]
  note D = dir_invD [OF inv]
  have seg: "seg_at ?t i = (seg_at t i)\<lparr>seg_table := []\<rparr>" if "i < 2 ^ global_depth t" for i
    using that D(4,5) by (simp add: seg_at_def C)
  then have d: "dir_inv ?t"
    using inv unfolding dir_inv_def by (simp add: C chunk_def cong: conj_cong)
  moreover have "content_inv h eq ?t"
    unfolding content_inv_def using seg by (simp add: C)
  ultimately show "dt_inv h eq ?t" by (simp add: dt_inv_def)
  have "e \<notin># contents ?t" for e
    unfolding in_contents_iff [OF d] using seg by (simp add: C)
  then show "contents ?t = {#}" by (simp add: multiset_eq_iff not_in_iff)
  show "dir_limit ?t = dir_limit t" "max_segment_size ?t = max_segment_size t" by (simp_all add: C)
qed

lemma builtin_ctz_power [simp]: "builtin_ctz (2 ^ k) = k"
proof (induction k)
  case 0
  show ?case by (subst builtin_ctz.simps) simp
next
  case (Suc k)
  then show ?case by (subst builtin_ctz.simps) simp
qed

lemma DashTable_new_ok:
  fixes h :: "'k \<Rightarrow> 64 word" and eq :: "'k \<Rightarrow> 'k \<Rightarrow> bool" and m :: nat
  assumes "k \<le> lim" "lim \<le> 31"
  defines "t \<equiv> DashTable_new lim (2 ^ k) m :: ('k, 'v) dashtable"
  shows "dt_inv h eq t" "contents t = {#}" "dir_limit t = lim" "max_segment_size t = m"
proof -
  let ?t = t
  have f: "global_depth ?t = k" "segment_directory ?t = [0..<2 ^ k]" "dir_limit ?t = lim"
      "max_segment_size ?t = m" "segs ?t = map (make_segment k) [0..<2 ^ k]"
    by (simp_all add: t_def DashTable_new_def Let_def)
  have seg: "seg_at ?t i = make_segment k i" if "i < 2 ^ k" for i
    using that by (simp add: seg_at_def f)
  have d: "dir_inv ?t"
    using assms(1,2) seg by (simp add: dir_inv_def f chunk_def make_segment_def)
  moreover have "content_inv h eq ?t"
    using seg by (simp add: content_inv_def f make_segment_def)
  ultimately show "dt_inv h eq ?t" by (simp add: dt_inv_def)
  have "e \<notin># contents ?t" for e
    unfolding in_contents_iff [OF d] using seg by (simp add: f make_segment_def)
  then show "contents ?t = {#}" by (simp add: multiset_eq_iff not_in_iff)
  show "dir_limit ?t = lim" "max_segment_size ?t = m" by (simp_all add: f)
qed

lemma SetSegVersion_ok:
  assumes inv: "dt_inv h eq t" and i: "dir_idx < 2 ^ global_depth t"
  shows "dt_inv h eq (SetSegVersion t dir_idx ver)" "contents (SetSegVersion t dir_idx ver) = contents t"
    "GetSegVersion (SetSegVersion t dir_idx ver) j =
       (if segment_directory t ! j = segment_directory t ! dir_idx then ver else GetSegVersion t j)"
proof -
  have I: "dir_inv t" "content_inv h eq t" using inv by (auto simp: dt_inv_def)
  let ?t = "SetSegVersion t dir_idx ver"
  have "content_inv h eq ?t"
    using I(2) unfolding content_inv_def SetSegVersion_def
    by (simp add: seg_at_seg_update [OF I(1)])
  then show "dt_inv h eq ?t"
    using dir_inv_seg_update(2) [OF I(1)] by (simp add: dt_inv_def SetSegVersion_def)
  show "contents ?t = contents t"
    unfolding contents_def SetSegVersion_def by (auto simp: segs_seg_update intro!: sum.cong)
  show "GetSegVersion ?t j =
       (if segment_directory t ! j = segment_directory t ! dir_idx then ver else GetSegVersion t j)"
    using dir_invD(5) [OF I(1) i]
    by (simp add: GetSegVersion_def SetSegVersion_def seg_at_def segs_seg_update)
qed

lemma Poke_eq:
  "DashTable_Poke h eq t k v = (if DashTable_Find h eq t k = None then t else dt_put h eq t k v)"
  by (simp add: DashTable_Poke_def DashTable_Find_def dt_put_def table_find_def seg_at_def Let_def
      map_insert_or_assign_def split: option.splits)

lemma Insert_loop_no_split:
  "Insert_loop n h eq key t (GetSegmentIndex h t key) = Inr t' \<Longrightarrow>
     \<not> NeedSplit t' (GetSegmentIndex h t' key)"
  by (induction n arbitrary: t) (auto simp: bind_r_Inr_iff split: if_splits)

context hashed_keys
begin

lemma Poke_ok:
  fixes t :: "('k, 'v) dashtable"
  assumes inv: "dt_inv h eq t"
  shows "dt_inv h eq (DashTable_Poke h eq t k v)"
    "DashTable_Find h eq (DashTable_Poke h eq t k v) k' =
       (if eq k k' \<and> DashTable_Find h eq t k \<noteq> None then Some v else DashTable_Find h eq t k')"
    "size (contents (DashTable_Poke h eq t k v)) = size (contents t)"
  using put_ok [OF inv, where k = k and v = v] inv by (auto simp: Poke_eq)

lemma Find_eq_cong:
  fixes t :: "('k, 'v) dashtable"
  shows "eq k k' \<Longrightarrow> DashTable_Find h eq t k = DashTable_Find h eq t k'"
  unfolding DashTable_Find_def using GetSegmentIndex_eq [of k k' t] table_find_cong [of k k'] by simp

lemma contents_key_split:
  fixes t :: "('k, 'v) dashtable"
  assumes inv: "dt_inv h eq t"
  obtains R where
    "contents t = mset (seg_table (seg_at t (GetSegmentIndex h t k))) + R"
    "\<And>e. e \<in># R \<Longrightarrow> h (fst e) \<noteq> h k"
proof -
  let ?i = "GetSegmentIndex h t k" and ?d = "segment_directory t"
  have I: "dir_inv t" "content_inv h eq t" using inv by (auto simp: dt_inv_def)
  have i: "?i < 2 ^ global_depth t" by (rule GetSegmentIndex_bound [OF I(1)])
  define R where "R = (\<Sum>b\<in>set ?d - {?d ! ?i}. mset (seg_table (segs t ! b)))"
  have c: "contents t = mset (seg_table (seg_at t ?i)) + R"
    using i dir_invD(4) [OF I(1)] unfolding contents_def R_def seg_at_def
    by (subst sum.remove [of _ "?d ! ?i"]) simp_all
  have "h (fst e) \<noteq> h k" if "e \<in># R" for e
  proof
    assume eq: "h (fst e) = h k"
    from that obtain b where "b \<in> set ?d" "b \<noteq> ?d ! ?i" "e \<in> set (seg_table (segs t ! b))"
      by (auto simp: R_def set_mset_sum)
    then obtain j where j: "j < 2 ^ global_depth t" "?d ! j \<noteq> ?d ! ?i" "e \<in> set (seg_table (seg_at t j))"
      using dir_invD(4) [OF I(1)] by (auto simp: in_set_conv_nth seg_at_def)
    have "GetSegmentIndex h t (fst e) = ?i" using eq by (simp add: GetSegmentIndex_def)
    with content_invD(2) [OF I(2) j(1,3)] j(2) show False by simp
  qed
  with c show thesis using that by blast
qed

text \<open>A table never holds 13 elements with the same hash: no insertion that would make it returns.\<close>

lemma Insert_same_hash:
  fixes t :: "('k, 'v) dashtable"
  assumes inv: "dt_inv h eq t" and m: "max_segment_size t = 16"
    and r: "DashTable_Insert h eq t k v = Inr t'"
  shows "size (filter_mset (\<lambda>e. h (fst e) = h k) (contents (dt_put h eq t k v))) < 13"
proof -
  let ?i = "GetSegmentIndex h t' k"
  note T = Insert_ok [OF inv r]
  have g: "GetSegmentIndex h (dt_put h eq t k v) k = GetSegmentIndex h t k"
    by (simp add: dt_put_def Let_def)
  have "\<not> NeedSplit t' ?i"
    using r Insert_loop_no_split [of "dir_limit t + 1" h eq k "dt_put h eq t k v" t']
    unfolding DashTable_Insert_eq g by simp
  moreover have "?i mod 2 ^ 32 = ?i"
  proof -
    have I: "dir_inv t'" using T(1) by (simp add: dt_inv_def)
    have "(2 :: nat) ^ global_depth t' \<le> 2 ^ 31"
      using dir_invD(3) [OF I] by (intro power_increasing) auto
    then show ?thesis using GetSegmentIndex_bound [OF I, of h k] by simp
  qed
  ultimately have len: "length (seg_table (seg_at t' ?i)) < 13"
    using T(5) m by (simp add: NeedSplit_def over_threshold_16)
  obtain R where R: "contents t' = mset (seg_table (seg_at t' ?i)) + R"
      "\<And>e. e \<in># R \<Longrightarrow> h (fst e) \<noteq> h k" using contents_key_split [OF T(1), of k] by blast
  have z: "filter_mset (\<lambda>e. h (fst e) = h k) R = {#}" using R(2) by simp
  have "filter_mset (\<lambda>e. h (fst e) = h k) (contents t') \<subseteq># mset (seg_table (seg_at t' ?i))"
    unfolding R(1) filter_union_mset z by simp
  then have "size (filter_mset (\<lambda>e. h (fst e) = h k) (contents t')) \<le> length (seg_table (seg_at t' ?i))"
    using size_mset_mono by fastforce
  with len T(3) show ?thesis by simp
qed

end

section \<open>The table as a flat dense map\<close>

context hashed_keys
begin

lemma table_pos_part:
  fixes vs us :: "('k \<times> 'v) list"
  assumes inv: "table_inv eq fst vs" and m: "mset vs = mset us + R"
    and R: "\<And>e. e \<in># R \<Longrightarrow> \<not> eq k (fst e)"
  shows "case table_pos eq fst k us of
      None \<Rightarrow> table_pos eq fst k vs = None
    | Some i \<Rightarrow> (\<exists>j. table_pos eq fst k vs = Some j \<and> vs ! j = us ! i)"
proof -
  have set: "set vs = set us \<union> set_mset R" using arg_cong [OF m, of set_mset] by simp
  show ?thesis
  proof (cases "table_pos eq fst k us")
    case None
    then have "table_pos eq fst k vs = None" using R set by (auto simp: table_pos_None_iff)
    with None show ?thesis by simp
  next
    case (Some i)
    then have i: "us ! i \<in> set vs" "eq k (fst (us ! i))" using set by (auto dest: table_pos_SomeD)
    then obtain j where j: "table_pos eq fst k vs = Some j"
      using table_pos_None_iff [of eq fst k vs] by auto
    then have "vs ! j = us ! i"
      using table_inv_unique [OF inv _ i(2) _ i(1)] table_pos_SomeD [OF j] nth_mem by blast
    with Some j show ?thesis by simp
  qed
qed

lemma insert_or_assign_part:
  fixes vs us :: "('k \<times> 'v) list"
  assumes inv: "table_inv eq fst vs" "table_inv eq fst us" and m: "mset vs = mset us + R"
    and R: "\<And>e. e \<in># R \<Longrightarrow> \<not> eq k (fst e)"
  shows "mset (map_insert_or_assign eq k v vs) = mset (map_insert_or_assign eq k v us) + R"
proof (cases "table_pos eq fst k us")
  case None
  then show ?thesis
    using table_pos_part [OF inv(1) m R] by (simp add: map_insert_or_assign_absent m)
next
  case (Some i)
  then obtain j where j: "table_pos eq fst k vs = Some j" "vs ! j = us ! i"
    using table_pos_part [OF inv(1) m R] by auto
  have "us ! i \<in># mset us" using table_pos_SomeD [OF Some] by simp
  then show ?thesis
    using map_insert_or_assign_present(1) [OF Some inv(2)] map_insert_or_assign_present(1) [OF j(1) inv(1)]
      j(2) m by simp
qed

lemma erase_part:
  fixes vs us :: "('k \<times> 'v) list"
  assumes inv: "table_inv eq fst vs" and m: "mset vs = mset us + R"
    and R: "\<And>e. e \<in># R \<Longrightarrow> \<not> eq k (fst e)"
  shows "mset (fst (table_erase eq fst k vs)) = mset (fst (table_erase eq fst k us)) + R"
proof (cases "table_pos eq fst k us")
  case None
  then show ?thesis using table_pos_part [OF inv m R] by (simp add: table_erase_def m)
next
  case (Some i)
  then obtain j where j: "table_pos eq fst k vs = Some j" "vs ! j = us ! i"
    using table_pos_part [OF inv m R] by auto
  have "us ! i \<in># mset us" using table_pos_SomeD [OF Some] by simp
  then show ?thesis
    using Some j m table_pos_SomeD [OF Some] table_pos_SomeD [OF j(1)]
    by (simp add: table_erase_def mset_table_erase_at)
qed

lemma key_split_ForEach:
  fixes t :: "('k, 'v) dashtable"
  assumes inv: "dt_inv h eq t"
  obtains R where
    "mset (DashTable_ForEach t) = mset (seg_table (seg_at t (GetSegmentIndex h t k))) + R"
    "\<And>e. e \<in># R \<Longrightarrow> \<not> eq k (fst e)"
    "table_inv eq fst (seg_table (seg_at t (GetSegmentIndex h t k)))"
proof -
  have I: "dir_inv t" "content_inv h eq t" using inv by (auto simp: dt_inv_def)
  obtain R where R: "contents t = mset (seg_table (seg_at t (GetSegmentIndex h t k))) + R"
    "\<And>e. e \<in># R \<Longrightarrow> h (fst e) \<noteq> h k" using contents_key_split [OF inv, of k] by blast
  show thesis
  proof (rule that)
    show "mset (DashTable_ForEach t) = mset (seg_table (seg_at t (GetSegmentIndex h t k))) + R"
      using R(1) mset_ForEach [OF I(1)] by simp
    show "\<not> eq k (fst e)" if "e \<in># R" for e using R(2) [OF that] eq_hash [of k "fst e"] by auto
    show "table_inv eq fst (seg_table (seg_at t (GetSegmentIndex h t k)))"
      by (rule content_invD(1) [OF I(2) GetSegmentIndex_bound [OF I(1)]])
  qed
qed

lemma table_inv_ForEach:
  fixes t :: "('k, 'v) dashtable"
  assumes inv: "dt_inv h eq t"
  shows "table_inv eq fst (DashTable_ForEach t)"
  unfolding table_inv_mset
proof
  fix k
  obtain R where R: "mset (DashTable_ForEach t) = mset (seg_table (seg_at t (GetSegmentIndex h t k))) + R"
    "\<And>e. e \<in># R \<Longrightarrow> \<not> eq k (fst e)"
    "table_inv eq fst (seg_table (seg_at t (GetSegmentIndex h t k)))"
    using key_split_ForEach [OF inv, of k] by blast
  have z: "filter_mset (\<lambda>e. eq k (fst e)) R = {#}" using R(2) by simp
  show "size (filter_mset (\<lambda>e. eq k (fst e)) (mset (DashTable_ForEach t))) \<le> 1"
    unfolding R(1) filter_union_mset z using R(3) unfolding table_inv_mset by simp
qed

lemma Find_ForEach:
  fixes t :: "('k, 'v) dashtable"
  assumes inv: "dt_inv h eq t"
  shows "DashTable_Find h eq t k = map_option snd (table_find eq fst k (DashTable_ForEach t))"
proof -
  obtain R where R: "mset (DashTable_ForEach t) = mset (seg_table (seg_at t (GetSegmentIndex h t k))) + R"
    "\<And>e. e \<in># R \<Longrightarrow> \<not> eq k (fst e)"
    using key_split_ForEach [OF inv, of k] by blast
  show ?thesis
    using table_pos_part [OF table_inv_ForEach [OF inv] R]
    by (fastforce simp: DashTable_Find_def table_find_def split: option.splits
        intro: prod.collapse [symmetric])
qed

lemma Insert_ForEach:
  fixes t :: "('k, 'v) dashtable"
  assumes inv: "dt_inv h eq t" and r: "DashTable_Insert h eq t k v = Inr t'"
  shows "mset (DashTable_ForEach t') = mset (map_insert_or_assign eq k v (DashTable_ForEach t))"
proof -
  obtain R where R: "mset (DashTable_ForEach t) = mset (seg_table (seg_at t (GetSegmentIndex h t k))) + R"
    "\<And>e. e \<in># R \<Longrightarrow> \<not> eq k (fst e)"
    "table_inv eq fst (seg_table (seg_at t (GetSegmentIndex h t k)))"
    using key_split_ForEach [OF inv, of k] by blast
  have I: "dir_inv t" "dir_inv t'" using inv Insert_ok(1) [OF inv r] by (auto simp: dt_inv_def)
  have "contents t' = contents t - mset (seg_table (seg_at t (GetSegmentIndex h t k))) +
      mset (map_insert_or_assign eq k v (seg_table (seg_at t (GetSegmentIndex h t k))))"
    unfolding Insert_ok(3) [OF inv r] dt_put_def Let_def seg_at_def
    by (rule contents_seg_update [OF I(1) GetSegmentIndex_bound [OF I(1)]])
  then show ?thesis
    using insert_or_assign_part [OF table_inv_ForEach [OF inv] R(3,1,2)] R(1)
    by (simp add: mset_ForEach [OF I(1)] mset_ForEach [OF I(2)])
qed

lemma Erase_ForEach:
  fixes t :: "('k, 'v) dashtable"
  assumes inv: "dt_inv h eq t" and r: "DashTable_Erase h eq t k = (t', b)"
  shows "mset (DashTable_ForEach t') = mset (fst (table_erase eq fst k (DashTable_ForEach t)))"
proof -
  let ?a = "segment_directory t ! GetSegmentIndex h t k"
  let ?V = "seg_table (segs t ! ?a)"
  obtain R where R: "mset (DashTable_ForEach t) = mset (seg_table (seg_at t (GetSegmentIndex h t k))) + R"
    "\<And>e. e \<in># R \<Longrightarrow> \<not> eq k (fst e)"
    using key_split_ForEach [OF inv, of k] by blast
  have I: "dir_inv t" "dir_inv t'" using inv Erase_ok(1) [OF inv r] by (auto simp: dt_inv_def)
  have t': "t' = seg_update ?a (seg_table_update (\<lambda>_. fst (table_erase eq fst k ?V))) t"
    using r by (auto simp: DashTable_Erase_def Let_def split: prod.splits)
  have "contents t' = contents t - mset ?V + mset (fst (table_erase eq fst k ?V))"
    unfolding t' by (rule contents_seg_update [OF I(1) GetSegmentIndex_bound [OF I(1)]])
  then show ?thesis
    using erase_part [OF table_inv_ForEach [OF inv] R] R(1)
    by (simp add: mset_ForEach [OF I(1)] mset_ForEach [OF I(2)] seg_at_def)
qed

end

section \<open>The contract of a key-value table\<close>

locale kv_table =
  fixes inv :: "'t \<Rightarrow> bool" and find :: "'t \<Rightarrow> 'k \<Rightarrow> 'v option"
    and ins :: "'t \<Rightarrow> 'k \<Rightarrow> 'v \<Rightarrow> 't result" and era :: "'t \<Rightarrow> 'k \<Rightarrow> 't \<times> bool"
    and eq :: "'k \<Rightarrow> 'k \<Rightarrow> bool"
  assumes ins_inv: "inv t \<Longrightarrow> ins t k v = Inr t' \<Longrightarrow> inv t'"
    and find_ins: "inv t \<Longrightarrow> ins t k v = Inr t' \<Longrightarrow> find t' k' = (if eq k k' then Some v else find t k')"
    and era_inv: "inv t \<Longrightarrow> inv (fst (era t k))"
    and find_era: "inv t \<Longrightarrow> find (fst (era t k)) k' = (if eq k k' then None else find t k')"
    and era_hit: "inv t \<Longrightarrow> snd (era t k) \<longleftrightarrow> find t k \<noteq> None"
    and find_cong: "eq k k' \<Longrightarrow> find t k = find t k'"
begin

text \<open>Erasing a list of keys, as the loops that collect expired keys do.\<close>

lemma era_list:
  assumes "inv t"
  shows "inv (fold (\<lambda>k t. fst (era t k)) ks t) \<and>
    find (fold (\<lambda>k t. fst (era t k)) ks t) k' = (if \<exists>k\<in>set ks. eq k k' then None else find t k')"
  using assms
proof (induction ks arbitrary: t)
  case Nil
  then show ?case by simp
next
  case (Cons k ks)
  have "inv (fst (era t k))" using Cons.prems by (rule era_inv)
  from Cons.IH [OF this] show ?case using Cons.prems by (auto simp: find_era)
qed

end

sublocale hashed_keys \<subseteq> kv: kv_table "dt_inv h eq :: ('k, 'v) dashtable \<Rightarrow> bool"
  "DashTable_Find h eq" "DashTable_Insert h eq" "DashTable_Erase h eq" eq
proof unfold_locales
  fix t t' :: "('k, 'v) dashtable" and k k' v
  show "dt_inv h eq t \<Longrightarrow> DashTable_Insert h eq t k v = Inr t' \<Longrightarrow> dt_inv h eq t'"
    by (rule Insert_ok(1))
  show "dt_inv h eq t \<Longrightarrow> DashTable_Insert h eq t k v = Inr t' \<Longrightarrow>
      DashTable_Find h eq t' k' = (if eq k k' then Some v else DashTable_Find h eq t k')"
    by (rule Insert_ok(2))
  show "dt_inv h eq t \<Longrightarrow> dt_inv h eq (fst (DashTable_Erase h eq t k))"
    using Erase_ok(1) by (metis prod.collapse)
  show "dt_inv h eq t \<Longrightarrow> DashTable_Find h eq (fst (DashTable_Erase h eq t k)) k' =
      (if eq k k' then None else DashTable_Find h eq t k')"
    using Erase_ok(2) by (metis prod.collapse)
  show "dt_inv h eq t \<Longrightarrow> snd (DashTable_Erase h eq t k) \<longleftrightarrow> DashTable_Find h eq t k \<noteq> None"
    using Erase_ok(3) by (metis prod.collapse)
  show "eq k k' \<Longrightarrow> DashTable_Find h eq t k = DashTable_Find h eq t k'"
    by (rule Find_eq_cong)
qed

interpretation nano_dt: hashed_keys NanoObj_eq NanoObj_hash
  by unfold_locales (auto intro: NanoObj_eq_hash NanoObj_hash_irrefl)

section \<open>Tables with \<open>NanoObj\<close> keys\<close>

abbreviation nt_inv :: "(nano_obj, 'v) dashtable \<Rightarrow> bool" where
  "nt_inv \<equiv> dt_inv NanoObj_hash NanoObj_eq"

abbreviation nt_Find :: "(nano_obj, 'v) dashtable \<Rightarrow> nano_obj \<Rightarrow> 'v option" where
  "nt_Find \<equiv> DashTable_Find NanoObj_hash NanoObj_eq"

abbreviation nt_Insert :: "(nano_obj, 'v) dashtable \<Rightarrow> nano_obj \<Rightarrow> 'v \<Rightarrow> (nano_obj, 'v) dashtable result" where
  "nt_Insert \<equiv> DashTable_Insert NanoObj_hash NanoObj_eq"

abbreviation nt_Erase :: "(nano_obj, 'v) dashtable \<Rightarrow> nano_obj \<Rightarrow> (nano_obj, 'v) dashtable \<times> bool" where
  "nt_Erase \<equiv> DashTable_Erase NanoObj_hash NanoObj_eq"

abbreviation nt_Poke :: "(nano_obj, 'v) dashtable \<Rightarrow> nano_obj \<Rightarrow> 'v \<Rightarrow> (nano_obj, 'v) dashtable" where
  "nt_Poke \<equiv> DashTable_Poke NanoObj_hash NanoObj_eq"

text \<open>The tables the public operations can produce.\<close>

inductive dt_reachable :: "(nano_obj, 'v) dashtable \<Rightarrow> bool" where
  new: "k \<le> lim \<Longrightarrow> lim \<le> 31 \<Longrightarrow> dt_reachable (DashTable_new lim (2 ^ k) m)"
| insert: "dt_reachable t \<Longrightarrow> nt_Insert t k v = Inr t' \<Longrightarrow> dt_reachable t'"
| erase: "dt_reachable t \<Longrightarrow> nt_Erase t k = (t', b) \<Longrightarrow> dt_reachable t'"
| poke: "dt_reachable t \<Longrightarrow> dt_reachable (nt_Poke t k v)"
| clear: "dt_reachable t \<Longrightarrow> dt_reachable (DashTable_Clear t)"
| set_version: "dt_reachable t \<Longrightarrow> i < SegmentCount t \<Longrightarrow> dt_reachable (SetSegVersion t i ver)"

lemma nt_inv_dir_inv: "nt_inv t \<Longrightarrow> dir_inv t"
  by (simp add: dt_inv_def)

lemma dt_reachable_inv: "dt_reachable t \<Longrightarrow> nt_inv t"
proof (induction rule: dt_reachable.induct)
  case (new k lim m)
  then show ?case by (rule DashTable_new_ok(1))
next
  case (insert t k v t')
  then show ?case by (blast intro: nano_dt.Insert_ok(1))
next
  case (erase t k t' b)
  then show ?case by (blast intro: nano_dt.Erase_ok(1))
next
  case (poke t k v)
  then show ?case by (blast intro: nano_dt.Poke_ok(1))
next
  case (clear t)
  then show ?case by (blast intro: Clear_ok(1) nt_inv_dir_inv)
next
  case (set_version t i ver)
  then show ?case
    using dir_invD(4) [OF nt_inv_dir_inv, of t] by (intro SetSegVersion_ok(1)) (auto simp: SegmentCount_def)
qed

lemma new_16_empty:
  fixes t :: "(nano_obj, 'v) dashtable"
  defines "t \<equiv> DashTable_new 31 1 16"
  shows "nt_inv t" "contents t = {#}" "DashTable_ForEach t = []" "DashTable_Size t = 0"
    "nt_Find t k = None" "max_segment_size t = 16"
proof -
  show i: "nt_inv t" and c: "contents t = {#}" and "max_segment_size t = 16"
    using DashTable_new_ok [of 0 31] by (simp_all add: t_def)
  show f: "DashTable_ForEach t = []" using mset_ForEach [OF nt_inv_dir_inv [OF i]] c by simp
  then show "DashTable_Size t = 0" by (simp add: Size_ForEach)
  show "nt_Find t k = None" using nano_dt.Find_ForEach [OF i] f by simp
qed

lemma new_16_Insert:
  "\<exists>t'. nt_Insert (DashTable_new 31 1 16 :: (nano_obj, 'v) dashtable) k v = Inr t'"
  by (intro nano_dt.Insert_total(2)) (simp_all add: new_16_empty [simplified] colliding_def)

lemma FromKey_a_eq: "NanoObj_eq (FromKey ''a'') (FromKey ''a'')"
  by code_simp

text \<open>
  C4: after a successful \<open>Insert\<close> a lookup of any key equal to the inserted one gives the new
  value and every other lookup is as before; the size grows by one exactly when the key was
  absent; and the table invariant holds, however many segments were split on the way.
\<close>

theorem DashTable_Insert_correct:
  assumes "nt_inv t" "nt_Insert t k v = Inr t'"
  shows "nt_inv t' \<and>
    nt_Find t' k' = (if NanoObj_eq k k' then Some v else nt_Find t k') \<and>
    DashTable_Size t' = DashTable_Size t + (if nt_Find t k = None then 1 else 0)"
  using nano_dt.Insert_ok(1,2,3) [OF assms] nano_dt.put_ok(4) [OF assms(1), of k v]
    Size_contents nt_inv_dir_inv assms(1) by metis

theorem DashTable_Insert_correct_witness:
  "\<exists>t'. nt_Insert (DashTable_new 31 1 16) (FromKey ''a'') (IntObj 7) = Inr t' \<and>
     nt_Find t' (FromKey ''a'') = Some (IntObj 7) \<and> DashTable_Size t' = 1"
proof -
  obtain t' where t': "nt_Insert (DashTable_new 31 1 16) (FromKey ''a'') (IntObj 7) = Inr t'"
    by (rule exE [OF new_16_Insert])
  show ?thesis
    using DashTable_Insert_correct [OF new_16_empty(1) t', of "FromKey ''a''"] t' FromKey_a_eq
    unfolding new_16_empty(4,5) by simp
qed



text \<open>
  C6: \<open>Erase\<close> reports whether the key was present, removes exactly the element with that key
  and keeps the invariant.
\<close>

theorem DashTable_Erase_correct:
  assumes "nt_inv t" "nt_Erase t k = (t', b)"
  shows "nt_inv t' \<and> (b \<longleftrightarrow> nt_Find t k \<noteq> None) \<and>
    nt_Find t' k' = (if NanoObj_eq k k' then None else nt_Find t k') \<and>
    DashTable_Size t' = DashTable_Size t - (if b then 1 else 0)"
  using nano_dt.Erase_ok(1-4) [OF assms] Size_contents nt_inv_dir_inv assms(1) by metis

theorem DashTable_Erase_correct_witness:
  "\<exists>t t'. nt_Insert (DashTable_new 31 1 16) (FromKey ''a'') (IntObj 7) = Inr t \<and>
     nt_Erase t (FromKey ''a'') = (t', True) \<and> nt_Find t' (FromKey ''a'') = None"
proof -
  obtain t where t: "nt_Insert (DashTable_new 31 1 16) (FromKey ''a'') (IntObj 7) = Inr t"
    by (rule exE [OF new_16_Insert])
  obtain t' b where e: "nt_Erase t (FromKey ''a'') = (t', b)" by fastforce
  note refl = FromKey_a_eq
  have "nt_inv t" "nt_Find t (FromKey ''a'') = Some (IntObj 7)"
    using nano_dt.Insert_ok(1,2) [OF new_16_empty(1) t] refl by auto
  then show ?thesis
    using DashTable_Erase_correct [OF _ e, of "FromKey ''a''"] refl t e by auto
qed

text \<open>
  C7: the directory of segments refines one flat dense map.  \<open>ForEach\<close> enumerates a table
  with pairwise different keys, \<open>Find\<close> is the lookup in it, and \<open>Insert\<close> and \<open>Erase\<close>
  change it, as a bag of elements, exactly as \<open>insert_or_assign\<close> and \<open>erase\<close> of the
  dense map do.
\<close>

theorem DashTable_refines_flat_map:
  assumes "nt_inv t"
  shows "table_inv NanoObj_eq fst (DashTable_ForEach t) \<and>
    nt_Find t k = map_option snd (table_find NanoObj_eq fst k (DashTable_ForEach t)) \<and>
    (nt_Insert t k v = Inr t' \<longrightarrow>
       mset (DashTable_ForEach t') = mset (map_insert_or_assign NanoObj_eq k v (DashTable_ForEach t))) \<and>
    mset (DashTable_ForEach (fst (nt_Erase t k))) =
       mset (fst (table_erase NanoObj_eq fst k (DashTable_ForEach t)))"
  using nano_dt.table_inv_ForEach [OF assms] nano_dt.Find_ForEach [OF assms]
    nano_dt.Insert_ForEach [OF assms] nano_dt.Erase_ForEach [OF assms]
  by (auto simp: prod_eq_iff)

theorem DashTable_refines_flat_map_witness:
  "\<exists>t'. nt_Insert (DashTable_new 31 1 16) (FromKey ''a'') (IntObj 7) = Inr t' \<and>
     mset (DashTable_ForEach t') = {#(FromKey ''a'', IntObj 7)#}"
proof -
  obtain t' where t': "nt_Insert (DashTable_new 31 1 16) (FromKey ''a'') (IntObj 7) = Inr t'"
    by (rule exE [OF new_16_Insert])
  show ?thesis
    using DashTable_refines_flat_map [OF new_16_empty(1), of "FromKey ''a''" "IntObj 7" t'] t'
    by (simp add: map_insert_or_assign_def new_16_empty(3) del: One_nat_def)
qed

text \<open>
  C8: every table that the public operations can produce passes the self check
  \<open>IsDirectoryConsistent\<close>, has a power-of-two directory and satisfies the invariant.
\<close>

theorem DashTable_reachable_consistent:
  assumes "dt_reachable t"
  shows "nt_inv t \<and> IsDirectoryConsistent t \<and> SegmentCount t = 2 ^ global_depth t"
  using dt_reachable_inv [OF assms] IsDirectoryConsistent_inv nt_inv_dir_inv dir_invD(4)
  unfolding SegmentCount_def by blast

theorem DashTable_reachable_consistent_witness:
  "IsDirectoryConsistent (DashTable_new 31 4 16 :: (nano_obj, nano_obj) dashtable)"
proof -
  have "dt_reachable (DashTable_new 31 (2 ^ 2) 16 :: (nano_obj, nano_obj) dashtable)"
    by (rule dt_reachable.new) simp_all
  from DashTable_reachable_consistent [OF this] show ?thesis by simp
qed

text \<open>
  C9: null keys make insertion fail.  A null key is equal to no key, so it is appended each time,
  and its hash is 0, so splitting never separates null keys: with 12 of them in a table, one more
  \<open>Insert\<close> doubles the directory until the allocation fails, whatever the limit is.
\<close>

theorem DashTable_null_keys_exhaust:
  assumes "nt_inv t" "max_segment_size t = 16"
    and nulls: "12 \<le> size (filter_mset (\<lambda>e. fst e = NullObj) (mset (DashTable_ForEach t)))"
  shows "nt_Insert t NullObj v = Inl BadAlloc"
proof (rule ccontr)
  assume "\<not> ?thesis"
  then obtain t' where t': "nt_Insert t NullObj v = Inr t'"
    using nano_dt.Insert_total(1) [OF assms(1)] by blast
  have "\<not> NanoObj_eq NullObj k" for k by (cases k) (simp_all add: NanoObj_eq_def)
  then have "map_insert_or_assign NanoObj_eq NullObj v (DashTable_ForEach t) =
      DashTable_ForEach t @ [(NullObj, v)]"
    using table_pos_None_iff [of NanoObj_eq fst NullObj "DashTable_ForEach t"]
    by (simp add: map_insert_or_assign_def)
  then have m: "mset (DashTable_ForEach t') = add_mset (NullObj, v) (mset (DashTable_ForEach t))"
    using nano_dt.Insert_ForEach [OF assms(1) t'] by simp
  have "contents (dt_put NanoObj_hash NanoObj_eq t NullObj v) = mset (DashTable_ForEach t')"
    using nano_dt.Insert_ok(1,3) [OF assms(1) t'] mset_ForEach nt_inv_dir_inv by metis
  then have "size (filter_mset (\<lambda>e. NanoObj_hash (fst e) = NanoObj_hash NullObj)
      (add_mset (NullObj, v) (mset (DashTable_ForEach t)))) < 13"
    using nano_dt.Insert_same_hash [OF assms(1,2) t'] m by simp
  moreover have "size (filter_mset (\<lambda>e. fst e = NullObj) (mset (DashTable_ForEach t))) \<le>
      size (filter_mset (\<lambda>e. NanoObj_hash (fst e) = NanoObj_hash NullObj) (mset (DashTable_ForEach t)))"
    by (intro size_mset_mono filter_mset_mono_strong) auto
  ultimately show False using nulls by simp
qed

theorem DashTable_null_keys_exhaust_witness:
  "nt_Insert \<lparr>segs = [\<lparr>seg_table = replicate 12 (NullObj, 0 :: nat), local_depth = 0, segment_id = 0,
       version = 0\<rparr>], segment_directory = [0], global_depth = 0, max_segment_size = 16,
     dir_limit = 31\<rparr> NullObj 1 = Inl BadAlloc"
  by (rule DashTable_null_keys_exhaust) code_simp+

end
