(* ===== verification/Nano_Database.thy ===== *)
theory Nano_Database
  imports Dash_Table
begin

text \<open>
  \<open>include/core/database.h\<close> and \<open>src/core/database.cc\<close>: sixteen logical databases, each a
  table of values and a table of expiry times.  Every operation takes the reading \<open>now\<close> that
  \<open>CurrentTimeMs()\<close> gives when it is called.  An operation that hands out a pointer
  (\<open>Find\<close>) returns the object; a caller that writes through the pointer uses
  \<open>Database_Poke\<close>.

  \<open>db_view\<close> is what a client can observe at a time: the stored value of a key, unless its
  expiry time has been reached.  The lemmas give every operation as a change of the view and of
  the expiry times, and show that the lazy removal of expired keys never shows.
\<close>

section \<open>State and operations\<close>

record database =
  tables :: "(nano_obj, nano_obj) dashtable list"
  expire_tables :: "(nano_obj, int) dashtable list"
  current_db :: nat

definition kNumDBs :: nat where "kNumDBs = 16"

definition Database_new :: "nat \<Rightarrow> database" where
  "Database_new lim =
     \<lparr>tables = replicate kNumDBs (DashTable_new lim kInitialSegmentCount kDefaultFixedBucketCount),
      expire_tables = replicate kNumDBs (DashTable_new lim kInitialSegmentCount kDefaultFixedBucketCount),
      current_db = 0\<rparr>"

definition set_table :: "nat \<Rightarrow> (nano_obj, nano_obj) dashtable \<Rightarrow> database \<Rightarrow> database" where
  "set_table i t db = db\<lparr>tables := (tables db)[i := t]\<rparr>"

definition set_expire :: "nat \<Rightarrow> (nano_obj, int) dashtable \<Rightarrow> database \<Rightarrow> database" where
  "set_expire i t db = db\<lparr>expire_tables := (expire_tables db)[i := t]\<rparr>"

definition IsExpiredInDB :: "database \<Rightarrow> nat \<Rightarrow> nano_obj \<Rightarrow> int \<Rightarrow> bool" where
  "IsExpiredInDB db i key now =
     (case nt_Find (expire_tables db ! i) key of None \<Rightarrow> False | Some at \<Rightarrow> at \<le> now)"

text \<open>\<open>tables[i]->Erase(key)\<close> followed by \<open>expire_tables[i]->Erase(key)\<close>.\<close>

definition erase_both :: "nat \<Rightarrow> nano_obj \<Rightarrow> database \<Rightarrow> database" where
  "erase_both i key db =
     (let db = set_table i (fst (nt_Erase (tables db ! i) key)) db
      in set_expire i (fst (nt_Erase (expire_tables db ! i) key)) db)"

definition PruneExpiredInDB :: "nat \<Rightarrow> nano_obj \<Rightarrow> int \<Rightarrow> database \<Rightarrow> database" where
  "PruneExpiredInDB i key now db =
     (if \<not> IsExpiredInDB db i key now then db else erase_both i key db)"

definition Database_Set :: "nano_obj \<Rightarrow> nano_obj \<Rightarrow> database \<Rightarrow> database result" where
  "Database_Set key value db =
     bind_r (nt_Insert (tables db ! current_db db) key value)
       (\<lambda>t. Inr (set_table (current_db db) t db))"

definition Database_Set_copy :: "nano_obj \<Rightarrow> nano_obj \<Rightarrow> database \<Rightarrow> database result" where
  "Database_Set_copy key value db = Database_Set key (NanoObj_copy value) db"

definition Database_Set_string :: "nano_obj \<Rightarrow> string \<Rightarrow> database \<Rightarrow> database result" where
  "Database_Set_string key value db = Database_Set key (FromKey value) db"

definition Database_Find :: "int \<Rightarrow> nano_obj \<Rightarrow> database \<Rightarrow> database \<times> nano_obj option" where
  "Database_Find now key db =
     (let db = PruneExpiredInDB (current_db db) key now db
      in (db, nt_Find (tables db ! current_db db) key))"

definition Database_Get :: "int \<Rightarrow> nano_obj \<Rightarrow> database \<Rightarrow> database \<times> string option" where
  "Database_Get now key db =
     (let db = PruneExpiredInDB (current_db db) key now db
      in (db, case nt_Find (tables db ! current_db db) key of
                None \<Rightarrow> None
              | Some val \<Rightarrow> Some (ToString val)))"

definition Database_Del :: "int \<Rightarrow> nano_obj \<Rightarrow> database \<Rightarrow> database \<times> bool" where
  "Database_Del now key db =
     (let i = current_db db;
          db = PruneExpiredInDB i key now db;
          (t, deleted) = nt_Erase (tables db ! i) key;
          db = set_table i t db;
          db = (if deleted then set_expire i (fst (nt_Erase (expire_tables db ! i) key)) db else db)
      in (db, deleted))"

definition Database_Exists :: "int \<Rightarrow> nano_obj \<Rightarrow> database \<Rightarrow> database \<times> bool" where
  "Database_Exists now key db =
     (let db = PruneExpiredInDB (current_db db) key now db
      in (db, nt_Find (tables db ! current_db db) key \<noteq> None))"

definition Database_Poke :: "nano_obj \<Rightarrow> nano_obj \<Rightarrow> database \<Rightarrow> database" where
  "Database_Poke key value db =
     set_table (current_db db) (nt_Poke (tables db ! current_db db) key value) db"

text \<open>The keys that \<open>KeyCount\<close> and \<open>Keys\<close> collect, and their removal.\<close>

definition expired_keys :: "int \<Rightarrow> (nano_obj \<times> int) list \<Rightarrow> nano_obj list" where
  "expired_keys now es = map fst (filter (\<lambda>e. snd e \<le> now) es)"

definition remove_expired :: "int \<Rightarrow> database \<Rightarrow> database" where
  "remove_expired now db =
     (let i = current_db db
      in fold (erase_both i) (expired_keys now (DashTable_ForEach (expire_tables db ! i))) db)"

definition Database_KeyCount :: "int \<Rightarrow> database \<Rightarrow> database \<times> nat" where
  "Database_KeyCount now db =
     (let db = remove_expired now db in (db, DashTable_Size (tables db ! current_db db)))"

definition Database_Keys :: "int \<Rightarrow> database \<Rightarrow> database \<times> string list" where
  "Database_Keys now db =
     (let db = remove_expired now db
      in (db, map (\<lambda>e. ToString (fst e)) (DashTable_ForEach (tables db ! current_db db))))"

definition Database_Select :: "nat \<Rightarrow> database \<Rightarrow> database \<times> bool" where
  "Database_Select db_index db =
     (if db_index \<ge> kNumDBs then (db, False) else (db\<lparr>current_db := db_index\<rparr>, True))"

definition clear_db :: "nat \<Rightarrow> database \<Rightarrow> database" where
  "clear_db i db =
     (let db = set_table i (DashTable_Clear (tables db ! i)) db
      in set_expire i (DashTable_Clear (expire_tables db ! i)) db)"

definition ClearCurrentDB :: "database \<Rightarrow> database" where
  "ClearCurrentDB db = clear_db (current_db db) db"

definition ClearAll :: "database \<Rightarrow> database" where
  "ClearAll db = fold clear_db [0..<kNumDBs] db"

definition Database_Expire :: "int \<Rightarrow> nano_obj \<Rightarrow> int \<Rightarrow> database \<Rightarrow> (database \<times> bool) result" where
  "Database_Expire now key ttl_ms db =
     (let i = current_db db; db = PruneExpiredInDB i key now db in
      if nt_Find (tables db ! i) key = None then Inr (db, False)
      else if ttl_ms \<le> 0 then Inr (erase_both i key db, True)
      else bind_r (sub_i64 INT64_MAX now) (\<lambda>room.
           let expire_at_ms = (if ttl_ms \<ge> room then INT64_MAX else now + ttl_ms)
           in bind_r (nt_Insert (expire_tables db ! i) key expire_at_ms)
                (\<lambda>t. Inr (set_expire i t db, True))))"

definition Database_Persist :: "int \<Rightarrow> nano_obj \<Rightarrow> database \<Rightarrow> database \<times> bool" where
  "Database_Persist now key db =
     (let i = current_db db; db = PruneExpiredInDB i key now db in
      if nt_Find (tables db ! i) key = None then (db, False)
      else let (t, erased) = nt_Erase (expire_tables db ! i) key in (set_expire i t db, erased))"

definition Database_TTL :: "int \<Rightarrow> nano_obj \<Rightarrow> database \<Rightarrow> (database \<times> int) result" where
  "Database_TTL now key db =
     (let i = current_db db; db = PruneExpiredInDB i key now db in
      if nt_Find (tables db ! i) key = None then Inr (db, - 2)
      else case nt_Find (expire_tables db ! i) key of
          None \<Rightarrow> Inr (db, - 1)
        | Some at \<Rightarrow>
            if at \<le> now then Inr (erase_both i key db, - 2)
            else bind_r (sub_i64 at now) (\<lambda>remaining_ms. Inr (db, cdiv remaining_ms 1000)))"

text \<open>One database of the active expiry cycle: at most \<open>max_keys\<close> entries are scanned.\<close>

definition active_expire_key :: "nat \<Rightarrow> nano_obj \<Rightarrow> database \<times> nat \<Rightarrow> database \<times> nat" where
  "active_expire_key i key st =
     (let (db, deleted_count) = st;
          (t, hit) = nt_Erase (tables db ! i) key;
          db = set_table i t db;
          deleted_count = (if hit then deleted_count + 1 else deleted_count)
      in (set_expire i (fst (nt_Erase (expire_tables db ! i) key)) db, deleted_count))"

definition active_expire_db :: "int \<Rightarrow> nat \<Rightarrow> nat \<Rightarrow> database \<times> nat \<Rightarrow> database \<times> nat" where
  "active_expire_db now max_keys i st =
     fold (active_expire_key i)
       (expired_keys now (take max_keys (DashTable_ForEach (expire_tables (fst st) ! i)))) st"

definition ActiveExpireCycle :: "int \<Rightarrow> nat \<Rightarrow> database \<Rightarrow> database \<times> nat" where
  "ActiveExpireCycle now max_keys_per_db db =
     (if max_keys_per_db = 0 then (db, 0)
      else fold (active_expire_db now max_keys_per_db) [0..<kNumDBs] (db, 0))"

definition ForEachInDB :: "int \<Rightarrow> nat \<Rightarrow> database \<Rightarrow> (nano_obj \<times> nano_obj \<times> int) list" where
  "ForEachInDB now i db =
     (if i \<ge> kNumDBs then []
      else List.map_filter (\<lambda>(key, value).
             case nt_Find (expire_tables db ! i) key of
               None \<Rightarrow> Some (key, value, 0)
             | Some at \<Rightarrow> if at \<le> now then None else Some (key, value, at))
           (DashTable_ForEach (tables db ! i)))"

section \<open>Invariant and view\<close>

definition db_inv :: "database \<Rightarrow> bool" where
  "db_inv db \<longleftrightarrow>
     length (tables db) = kNumDBs \<and> length (expire_tables db) = kNumDBs \<and> current_db db < kNumDBs \<and>
     (\<forall>i < kNumDBs.
        nt_inv (tables db ! i) \<and> nt_inv (expire_tables db ! i) \<and>
        max_segment_size (tables db ! i) = 16 \<and> max_segment_size (expire_tables db ! i) = 16 \<and>
        (\<forall>k. nt_Find (tables db ! i) k = None \<longrightarrow> nt_Find (expire_tables db ! i) k = None))"

definition db_view :: "database \<Rightarrow> nat \<Rightarrow> int \<Rightarrow> nano_obj \<Rightarrow> nano_obj option" where
  "db_view db i now key =
     (if IsExpiredInDB db i key now then None else nt_Find (tables db ! i) key)"

definition db_expiry :: "database \<Rightarrow> nat \<Rightarrow> nano_obj \<Rightarrow> int option" where
  "db_expiry db i key = nt_Find (expire_tables db ! i) key"

definition db_get :: "database \<Rightarrow> nat \<Rightarrow> nano_obj \<Rightarrow> nano_obj option" where
  "db_get db i key = nt_Find (tables db ! i) key"

section \<open>Erasing and pruning\<close>

lemma set_table_simps [simp]:
  "expire_tables (set_table i t db) = expire_tables db" "current_db (set_table i t db) = current_db db"
  "tables (set_table i t db) = (tables db)[i := t]"
  "db_expiry (set_table i t db) = db_expiry db"
  by (simp_all add: set_table_def db_expiry_def fun_eq_iff)

lemma set_expire_simps [simp]:
  "tables (set_expire i t db) = tables db" "current_db (set_expire i t db) = current_db db"
  "expire_tables (set_expire i t db) = (expire_tables db)[i := t]"
  "db_get (set_expire i t db) = db_get db"
  by (simp_all add: set_expire_def db_get_def fun_eq_iff)

lemma nt_Find_irrefl: "\<not> NanoObj_eq k k \<Longrightarrow> nt_Find t k = None"
  using nano.eq_refl_left [of k] by (auto simp: DashTable_Find_def table_find_None_iff)

lemma db_invD:
  assumes "db_inv db"
  shows "length (tables db) = kNumDBs" "length (expire_tables db) = kNumDBs" "current_db db < kNumDBs"
    "i < kNumDBs \<Longrightarrow> nt_inv (tables db ! i)" "i < kNumDBs \<Longrightarrow> nt_inv (expire_tables db ! i)"
    "i < kNumDBs \<Longrightarrow> max_segment_size (tables db ! i) = 16"
    "i < kNumDBs \<Longrightarrow> max_segment_size (expire_tables db ! i) = 16"
    "i < kNumDBs \<Longrightarrow> db_get db i k = None \<Longrightarrow> db_expiry db i k = None"
  using assms unfolding db_inv_def db_get_def db_expiry_def by blast+

lemma IsExpiredInDB_expiry:
  "IsExpiredInDB db i k now = (case db_expiry db i k of None \<Rightarrow> False | Some at \<Rightarrow> at \<le> now)"
  by (simp add: IsExpiredInDB_def db_expiry_def)

lemma db_view_eq:
  "db_view db i now k =
     (case db_expiry db i k of None \<Rightarrow> db_get db i k | Some at \<Rightarrow> if at \<le> now then None else db_get db i k)"
  by (simp add: db_view_def IsExpiredInDB_expiry db_get_def split: option.splits)

lemma db_cong:
  assumes "NanoObj_eq k k'"
  shows "db_get db i k = db_get db i k'" "db_expiry db i k = db_expiry db i k'"
    "IsExpiredInDB db i k now = IsExpiredInDB db i k' now"
  using nano_dt.Find_eq_cong [OF assms, of "tables db ! i"]
    nano_dt.Find_eq_cong [OF assms, of "expire_tables db ! i"]
  by (simp_all add: db_get_def db_expiry_def IsExpiredInDB_def)

lemma db_inv_set_table:
  assumes "db_inv db" "i < kNumDBs" "nt_inv t" "max_segment_size t = 16"
    and "\<And>k. nt_Find t k = None \<Longrightarrow> db_expiry db i k = None"
  shows "db_inv (set_table i t db)"
    "db_get (set_table i t db) j k = (if j = i then nt_Find t k else db_get db j k)"
  using assms unfolding db_inv_def db_expiry_def db_get_def
  by (auto simp: nth_list_update)

lemma db_inv_set_expire:
  assumes "db_inv db" "i < kNumDBs" "nt_inv t" "max_segment_size t = 16"
    and "\<And>k. db_get db i k = None \<Longrightarrow> nt_Find t k = None"
  shows "db_inv (set_expire i t db)"
    "db_expiry (set_expire i t db) j k = (if j = i then nt_Find t k else db_expiry db j k)"
  using assms unfolding db_inv_def db_expiry_def db_get_def
  by (auto simp: nth_list_update)

lemma nt_Erase_fst:
  assumes "nt_inv t"
  shows "nt_inv (fst (nt_Erase t k))" "max_segment_size (fst (nt_Erase t k)) = max_segment_size t"
    "nt_Find (fst (nt_Erase t k)) k' = (if NanoObj_eq k k' then None else nt_Find t k')"
    "snd (nt_Erase t k) \<longleftrightarrow> nt_Find t k \<noteq> None"
    "DashTable_Size (fst (nt_Erase t k)) = DashTable_Size t - (if nt_Find t k = None then 0 else 1)"
proof -
  obtain t' b where e: "nt_Erase t k = (t', b)" by fastforce
  note E = nano_dt.Erase_ok [OF assms e]
  show "nt_inv (fst (nt_Erase t k))" "max_segment_size (fst (nt_Erase t k)) = max_segment_size t"
    "nt_Find (fst (nt_Erase t k)) k' = (if NanoObj_eq k k' then None else nt_Find t k')"
    "snd (nt_Erase t k) \<longleftrightarrow> nt_Find t k \<noteq> None"
    using E(1,2,3,6) by (simp_all add: e)
  show "DashTable_Size (fst (nt_Erase t k)) = DashTable_Size t - (if nt_Find t k = None then 0 else 1)"
    using E(1,3,4) Size_contents [OF nt_inv_dir_inv [OF assms]] Size_contents [OF nt_inv_dir_inv [OF E(1)]]
    by (simp add: e)
qed

text \<open>The effect of an operation on the raw contents: values and expiry times.\<close>

lemma erase_both_ok:
  assumes inv: "db_inv db" and i: "i < kNumDBs"
  shows "db_inv (erase_both i k db)" "current_db (erase_both i k db) = current_db db"
    "db_get (erase_both i k db) j k' = (if j = i \<and> NanoObj_eq k k' then None else db_get db j k')"
    "db_expiry (erase_both i k db) j k' =
       (if j = i \<and> NanoObj_eq k k' then None else db_expiry db j k')"
    "j \<noteq> i \<Longrightarrow> tables (erase_both i k db) ! j = tables db ! j"
    "DashTable_Size (tables (erase_both i k db) ! i) =
       DashTable_Size (tables db ! i) - (if db_get db i k = None then 0 else 1)"
proof -
  note D = db_invD [OF inv]
  let ?t = "fst (nt_Erase (tables db ! i) k)" and ?e = "fst (nt_Erase (expire_tables db ! i) k)"
  note T = nt_Erase_fst [OF D(4) [OF i]] and E = nt_Erase_fst [OF D(5) [OF i]]
  have eq: "erase_both i k db = set_table i ?t (set_expire i ?e db)"
    by (simp add: erase_both_def Let_def set_table_def set_expire_def)
  have e: "db_inv (set_expire i ?e db)"
    "\<And>j k'. db_expiry (set_expire i ?e db) j k' = (if j = i then nt_Find ?e k' else db_expiry db j k')"
    using D(7,8) i E by (intro db_inv_set_expire [OF inv i]; auto simp: db_expiry_def)+
  have c: "db_expiry (set_expire i ?e db) i k' = None" if "nt_Find ?t k' = None" for k'
    using that D(8) [OF i, of k'] T(3) [of k k'] E(3) [of k k'] unfolding e(2)
    by (auto simp: db_get_def db_expiry_def split: if_splits)
  have t: "db_inv (erase_both i k db)"
    "\<And>j k'. db_get (erase_both i k db) j k' =
       (if j = i then nt_Find ?t k' else db_get (set_expire i ?e db) j k')"
    unfolding eq using D(6) [OF i] T(1,2) c by (intro db_inv_set_table [OF e(1) i]; simp)+
  show "db_inv (erase_both i k db)" by (rule t(1))
  show "current_db (erase_both i k db) = current_db db" by (simp add: eq)
  show "db_get (erase_both i k db) j k' = (if j = i \<and> NanoObj_eq k k' then None else db_get db j k')"
    using t(2) T(3) by (simp add: db_get_def)
  show "db_expiry (erase_both i k db) j k' =
       (if j = i \<and> NanoObj_eq k k' then None else db_expiry db j k')"
    using e(2) E(3) by (simp add: eq db_expiry_def)
  show "j \<noteq> i \<Longrightarrow> tables (erase_both i k db) ! j = tables db ! j" by (simp add: eq)
  show "DashTable_Size (tables (erase_both i k db) ! i) =
       DashTable_Size (tables db ! i) - (if db_get db i k = None then 0 else 1)"
    using T(5) i D(1) by (simp add: eq db_get_def)
qed

lemma Prune_ok:
  fixes k :: nano_obj and now :: int
  assumes inv: "db_inv db" and i: "i < kNumDBs"
  defines "db' \<equiv> PruneExpiredInDB i k now db"
  shows "db_inv db'" "current_db db' = current_db db"
    "db_get db' j k' =
       (if j = i \<and> NanoObj_eq k k' \<and> IsExpiredInDB db i k now then None else db_get db j k')"
    "db_expiry db' j k' =
       (if j = i \<and> NanoObj_eq k k' \<and> IsExpiredInDB db i k now then None else db_expiry db j k')"
    "now \<le> now' \<Longrightarrow> db_view db' j now' k' = db_view db j now' k'"
proof -
  show a: "db_inv db'" "current_db db' = current_db db"
    "\<And>j k'. db_get db' j k' =
       (if j = i \<and> NanoObj_eq k k' \<and> IsExpiredInDB db i k now then None else db_get db j k')"
    "\<And>j k'. db_expiry db' j k' =
       (if j = i \<and> NanoObj_eq k k' \<and> IsExpiredInDB db i k now then None else db_expiry db j k')"
    using erase_both_ok [OF inv i] inv by (auto simp: db'_def PruneExpiredInDB_def)
  assume le: "now \<le> now'"
  show "db_view db' j now' k' = db_view db j now' k'"
  proof (cases "j = i \<and> NanoObj_eq k k' \<and> IsExpiredInDB db i k now")
    case True
    then have "IsExpiredInDB db i k' now" using db_cong(3) by blast
    with le True show ?thesis by (auto simp: db_view_eq a IsExpiredInDB_expiry split: option.splits)
  next
    case False
    then have "db_get db' j k' = db_get db j k'" "db_expiry db' j k' = db_expiry db j k'"
      using a(3,4) by auto
    then show ?thesis by (simp add: db_view_eq split: option.splits)
  qed
qed

lemma Prune_get:
  assumes inv: "db_inv db" and i: "i < kNumDBs"
  shows "db_get (PruneExpiredInDB i k now db) i k = db_view db i now k"
    "db_expiry (PruneExpiredInDB i k now db) i k = Some at \<Longrightarrow> now < at"
proof -
  note P = Prune_ok [OF inv i, where k = k and now = now]
  show "db_get (PruneExpiredInDB i k now db) i k = db_view db i now k"
  proof (cases "NanoObj_eq k k")
    case True
    then show ?thesis using P(3) [of i k] by (simp add: db_view_def db_get_def)
  next
    case False
    then show ?thesis by (simp add: db_get_def db_view_def nt_Find_irrefl)
  qed
  assume e: "db_expiry (PruneExpiredInDB i k now db) i k = Some at"
  show "now < at"
  proof (rule ccontr)
    assume n: "\<not> now < at"
    have r: "NanoObj_eq k k" 
      using e nt_Find_irrefl [of k "expire_tables (PruneExpiredInDB i k now db) ! i"]
      by (auto simp: db_expiry_def)
    with e P(4) [of i k] have "\<not> IsExpiredInDB db i k now" "db_expiry db i k = Some at"
      by (auto split: if_splits)
    with n show False by (simp add: IsExpiredInDB_expiry)
  qed
qed

section \<open>The operations on the view\<close>

lemma nt_new:
  fixes t :: "(nano_obj, 'v) dashtable"
  assumes "lim \<le> 31"
  defines "t \<equiv> DashTable_new lim 1 16"
  shows "nt_inv t" "max_segment_size t = 16" "nt_Find t k = None"
proof -
  show i: "nt_inv t" and "max_segment_size t = 16"
    using DashTable_new_ok [of 0 lim] assms by simp_all
  have "contents t = {#}" using DashTable_new_ok(2) [of 0 lim] assms by simp
  then have "DashTable_ForEach t = []" using mset_ForEach [OF nt_inv_dir_inv [OF i]] by simp
  then show "nt_Find t k = None" using nano_dt.Find_ForEach [OF i] by simp
qed

lemma nt_Erase_absent: "nt_Find t k = None \<Longrightarrow> nt_Erase t k = (t, False)"
  by (simp add: DashTable_Find_def DashTable_Erase_def table_erase_absent seg_at_def seg_update_def Let_def)

lemma db_view_cong: "NanoObj_eq k k' \<Longrightarrow> db_view db i now k = db_view db i now k'"
  using db_cong [of k k' db i] by (simp add: db_view_def db_get_def)

lemma Database_new_inv:
  assumes "lim \<le> 31"
  shows "db_inv (Database_new lim)" "db_get (Database_new lim) i k = None \<or> kNumDBs \<le> i"
proof -
  show "db_inv (Database_new lim)"
    unfolding db_inv_def Database_new_def kInitialSegmentCount_def kDefaultFixedBucketCount_def
    by (simp add: kNumDBs_def nt_new [OF assms] del: One_nat_def)
  show "db_get (Database_new lim) i k = None \<or> kNumDBs \<le> i"
    unfolding db_get_def Database_new_def kInitialSegmentCount_def kDefaultFixedBucketCount_def
    by (cases "i < kNumDBs") (simp_all add: nt_new [OF assms] del: One_nat_def)
qed

lemma Set_ok:
  assumes inv: "db_inv db" and r: "Database_Set k v db = Inr db'"
  shows "db_inv db'" "current_db db' = current_db db" "db_expiry db' = db_expiry db"
    "db_get db' j k' = (if j = current_db db \<and> NanoObj_eq k k' then Some v else db_get db j k')"
proof -
  note D = db_invD [OF inv]
  let ?i = "current_db db"
  obtain t where t: "nt_Insert (tables db ! ?i) k v = Inr t" and db': "db' = set_table ?i t db"
    using r by (auto simp: Database_Set_def bind_r_Inr_iff)
  note T = nano_dt.Insert_ok [OF D(4) [OF D(3)] t]
  have c: "db_expiry db ?i k' = None" if "nt_Find t k' = None" for k'
    using that T(2) D(8) [OF D(3), of k'] by (auto simp: db_get_def split: if_splits)
  have m: "max_segment_size t = 16" using T(5) D(6) [OF D(3)] by simp
  show "db_inv db'" unfolding db' by (rule db_inv_set_table(1) [OF inv D(3) T(1) m c])
  show "current_db db' = current_db db" "db_expiry db' = db_expiry db" by (simp_all add: db')
  show "db_get db' j k' = (if j = ?i \<and> NanoObj_eq k k' then Some v else db_get db j k')"
    unfolding db' using db_inv_set_table(2) [OF inv D(3) T(1) m c, of j k'] T(2) [of k']
    by (simp add: db_get_def)
qed

lemma Set_total:
  assumes "db_inv db"
  shows "Database_Set k v db = Inl BadAlloc \<or> (\<exists>db'. Database_Set k v db = Inr db')"
  using nano_dt.Insert_total(1) [OF db_invD(4) [OF assms db_invD(3) [OF assms]], of k v]
  by (auto simp: Database_Set_def)

lemma Find_ok:
  assumes inv: "db_inv db"
  shows "snd (Database_Find now k db) = db_view db (current_db db) now k"
    "fst (Database_Find now k db) = PruneExpiredInDB (current_db db) k now db"
  using Prune_get(1) [OF inv db_invD(3) [OF inv]] Prune_ok(2) [OF inv db_invD(3) [OF inv]]
  by (simp_all add: Database_Find_def Let_def db_get_def)

lemma Get_Find: "Database_Get now k db =
    (fst (Database_Find now k db), map_option ToString (snd (Database_Find now k db)))"
  by (simp add: Database_Get_def Database_Find_def Let_def map_option_case)

lemma Exists_Find: "Database_Exists now k db =
    (fst (Database_Find now k db), snd (Database_Find now k db) \<noteq> None)"
  by (simp add: Database_Exists_def Database_Find_def Let_def)

lemma Del_ok:
  assumes inv: "db_inv db" and r: "Database_Del now k db = (db', b)"
  shows "db_inv db'" "current_db db' = current_db db"
    "b \<longleftrightarrow> db_view db (current_db db) now k \<noteq> None"
    "now \<le> now' \<Longrightarrow> db_view db' j now' k' =
       (if j = current_db db \<and> NanoObj_eq k k' then None else db_view db j now' k')"
proof -
  let ?i = "current_db db" and ?p = "PruneExpiredInDB (current_db db) k now db"
  note P = Prune_ok [OF inv db_invD(3) [OF inv], where k = k and now = now]
  note D = db_invD [OF P(1)]
  have i: "?i < kNumDBs" by (rule db_invD(3) [OF inv])
  note T = nt_Erase_fst [OF D(4) [OF i]]
  have b: "b \<longleftrightarrow> db_get ?p ?i k \<noteq> None"
    using r T(4) [of k] by (simp add: Database_Del_def Let_def db_get_def split: prod.splits)
  then show "b \<longleftrightarrow> db_view db ?i now k \<noteq> None" using Prune_get(1) [OF inv i] by simp
  have db': "db' = erase_both ?i k ?p \<or>
      (\<not> b \<and> db' = set_table ?i (fst (nt_Erase (tables ?p ! ?i) k)) ?p)"
    using r by (auto simp: Database_Del_def Let_def erase_both_def split: prod.splits if_splits)
  have noop: "set_table ?i (fst (nt_Erase (tables ?p ! ?i) k)) ?p = ?p" if "\<not> b"
  proof -
    have "fst (nt_Erase (tables ?p ! ?i) k) = tables ?p ! ?i"
      using that b nt_Erase_absent [of "tables ?p ! ?i" k] by (simp add: db_get_def)
    then show ?thesis by (simp add: set_table_def)
  qed
  have none: "db_get ?p ?i k' = None" if "\<not> b" "NanoObj_eq k k'" for k'
    using that b db_cong(1) by simp
  have E: "db_inv db' \<and> current_db db' = ?i \<and>
      (\<forall>j k'. db_get db' j k' = (if j = ?i \<and> NanoObj_eq k k' then None else db_get ?p j k')) \<and>
      (\<forall>j k'. db_expiry db' j k' = (if j = ?i \<and> NanoObj_eq k k' then None else db_expiry ?p j k'))"
    using db'
  proof
    assume "db' = erase_both ?i k ?p"
    then show ?thesis using erase_both_ok [OF P(1) i] P(2) by simp
  next
    assume a: "\<not> b \<and> db' = set_table ?i (fst (nt_Erase (tables ?p ! ?i) k)) ?p"
    then have "db' = ?p" using noop by simp
    then show ?thesis using P(1,2) none a D(8) [OF i] by auto
  qed
  then show "db_inv db'" "current_db db' = ?i" by auto
  assume le: "now \<le> now'"
  show "db_view db' j now' k' = (if j = ?i \<and> NanoObj_eq k k' then None else db_view db j now' k')"
    using E P(5) [OF le, of j k'] by (auto simp: db_view_eq split: option.splits)
qed

definition expiry_deadline :: "int \<Rightarrow> int \<Rightarrow> int" where
  "expiry_deadline now ttl_ms =
     (if ttl_ms \<le> 0 then now else if ttl_ms \<ge> INT64_MAX - now then INT64_MAX else now + ttl_ms)"

lemma Expire_ok:
  assumes inv: "db_inv db" and r: "Database_Expire now k ttl db = Inr (db', b)"
  shows "db_inv db'" "current_db db' = current_db db"
    "b \<longleftrightarrow> db_view db (current_db db) now k \<noteq> None"
    "now \<le> now' \<Longrightarrow> db_view db' j now' k' =
       (if j = current_db db \<and> NanoObj_eq k k'
        then (if expiry_deadline now ttl \<le> now' then None else db_view db j now k')
        else db_view db j now' k')"
proof -
  let ?i = "current_db db" and ?p = "PruneExpiredInDB (current_db db) k now db"
  let ?d = "expiry_deadline now ttl"
  have i: "?i < kNumDBs" by (rule db_invD(3) [OF inv])
  note P = Prune_ok [OF inv i, where k = k and now = now]
  note D = db_invD [OF P(1)] and G = Prune_get(1) [OF inv i, of k now]
  have Gk: "db_get ?p ?i k' = db_view db ?i now k'" if "NanoObj_eq k k'" for k'
    using G db_cong(1) [OF that] db_view_cong [OF that] by simp
  have E: "db_inv db' \<and> current_db db' = ?i \<and> (b \<longleftrightarrow> db_get ?p ?i k \<noteq> None) \<and>
      (\<forall>j k'. db_get db' j k' =
         (if j = ?i \<and> NanoObj_eq k k' \<and> ttl \<le> 0 then None else db_get ?p j k')) \<and>
      (\<forall>j k'. db_expiry db' j k' =
         (if j = ?i \<and> NanoObj_eq k k' then (if b \<and> 0 < ttl then Some ?d else None) else db_expiry ?p j k'))"
  proof -
    consider (none) "db_get ?p ?i k = None" "db' = ?p" "\<not> b"
      | (del) "db_get ?p ?i k \<noteq> None" "ttl \<le> 0" "db' = erase_both ?i k ?p" b
      | (ins) t where "db_get ?p ?i k \<noteq> None" "0 < ttl" b
          "nt_Insert (expire_tables ?p ! ?i) k ?d = Inr t" "db' = set_expire ?i t ?p"
      using r by (auto simp: Database_Expire_def Let_def db_get_def bind_r_Inr_iff sub_i64_def
          expiry_deadline_def split: if_splits)
    then show ?thesis
    proof cases
      case none
      then have "db_get ?p ?i k' = None" "db_expiry ?p ?i k' = None" if "NanoObj_eq k k'" for k'
        using db_cong [OF that] D(8) [OF i, of k'] by auto
      with none P(1,2) show ?thesis by auto
    next
      case del
      then show ?thesis using erase_both_ok [OF P(1) i] P(2) by auto
    next
      case ins
      note T = nano_dt.Insert_ok [OF D(5) [OF i] ins(4)]
      have c: "nt_Find t k' = None" if "db_get ?p ?i k' = None" for k'
        using that D(8) [OF i, of k'] T(2) ins(1) db_cong(1) [of k k' ?p ?i]
        by (auto simp: db_expiry_def)
      have m: "max_segment_size t = 16" using T(5) D(7) [OF i] by simp
      show ?thesis
        using db_inv_set_expire [OF P(1) i T(1) m c] ins P(2) T(2)
        by (auto simp: db_expiry_def)
    qed
  qed
  then show "db_inv db'" "current_db db' = ?i" "b \<longleftrightarrow> db_view db ?i now k \<noteq> None"
    using G by auto
  assume le: "now \<le> now'"
  show "db_view db' j now' k' =
       (if j = ?i \<and> NanoObj_eq k k'
        then (if ?d \<le> now' then None else db_view db j now k') else db_view db j now' k')"
  proof (cases "j = ?i \<and> NanoObj_eq k k'")
    case True
    have "?d = now" if "ttl \<le> 0" using that by (simp add: expiry_deadline_def)
    moreover have "db_get ?p ?i k' = None" if "\<not> b"
      using that E db_cong(1) [of k k'] True by simp
    ultimately show ?thesis
      using True E Gk [of k'] le by (auto simp: db_view_eq [of db'])
  next
    case False
    then have "db_get db' j k' = db_get ?p j k'" "db_expiry db' j k' = db_expiry ?p j k'"
      using E by auto
    then have "db_view db' j now' k' = db_view ?p j now' k'"
      by (simp add: db_view_eq split: option.splits)
    with False P(5) [OF le] show ?thesis by auto
  qed
qed

lemma Persist_ok:
  assumes inv: "db_inv db" and r: "Database_Persist now k db = (db', b)"
  shows "db_inv db'" "current_db db' = current_db db"
    "now \<le> now' \<Longrightarrow> db_view db' j now' k' =
       (if j = current_db db \<and> NanoObj_eq k k' then db_view db j now k' else db_view db j now' k')"
proof -
  let ?i = "current_db db" and ?p = "PruneExpiredInDB (current_db db) k now db"
  have i: "?i < kNumDBs" by (rule db_invD(3) [OF inv])
  note P = Prune_ok [OF inv i, where k = k and now = now]
  note D = db_invD [OF P(1)] and G = Prune_get(1) [OF inv i, of k now]
  have Gk: "db_get ?p ?i k' = db_view db ?i now k'" if "NanoObj_eq k k'" for k'
    using G db_cong(1) [OF that] db_view_cong [OF that] by simp
  note T = nt_Erase_fst [OF D(5) [OF i]]
  let ?t = "fst (nt_Erase (expire_tables ?p ! ?i) k)"
  have db': "db' = (if db_get ?p ?i k = None then ?p else set_expire ?i ?t ?p)"
    using r by (auto simp: Database_Persist_def Let_def db_get_def split: prod.splits if_splits)
  have c: "nt_Find ?t k' = None" if "db_get ?p ?i k' = None" for k'
    using that D(8) [OF i, of k'] T(3) by (simp add: db_expiry_def)
  have m: "max_segment_size ?t = 16" using T(2) D(7) [OF i] by simp
  note S = db_inv_set_expire [OF P(1) i T(1) m c]
  have E: "db_inv db' \<and> current_db db' = ?i \<and> db_get db' = db_get ?p \<and>
      (\<forall>j k'. db_expiry db' j k' =
         (if j = ?i \<and> NanoObj_eq k k' then None else db_expiry ?p j k'))"
  proof (cases "db_get ?p ?i k = None")
    case True
    then have "db_expiry ?p ?i k' = None" if "NanoObj_eq k k'" for k'
      using db_cong [OF that] D(8) [OF i, of k'] by auto
    with True P(1,2) show ?thesis by (auto simp: db')
  next
    case False
    then show ?thesis using S T(3) P(2) by (auto simp: db' db_expiry_def)
  qed
  then show "db_inv db'" "current_db db' = ?i" by auto
  assume le: "now \<le> now'"
  show "db_view db' j now' k' =
       (if j = ?i \<and> NanoObj_eq k k' then db_view db j now k' else db_view db j now' k')"
    using E Gk [of k'] P(5) [OF le, of j k'] by (auto simp: db_view_eq split: option.splits)
qed

section \<open>Expiry\<close>

lemma TTL_ok:
  assumes inv: "db_inv db" and r: "Database_TTL now k db = Inr (db', n)"
  shows "db' = PruneExpiredInDB (current_db db) k now db"
    "n = (if db_view db (current_db db) now k = None then - 2
          else case db_expiry db (current_db db) k of None \<Rightarrow> - 1 | Some at \<Rightarrow> (at - now) div 1000)"
proof -
  let ?i = "current_db db" and ?p = "PruneExpiredInDB (current_db db) k now db"
  have i: "?i < kNumDBs" by (rule db_invD(3) [OF inv])
  note G = Prune_get [OF inv i, of k now]
  have e: "db_expiry ?p ?i k = db_expiry db ?i k" if "db_view db ?i now k \<noteq> None"
    using that Prune_ok(4) [OF inv i, where k = k and now = now and j = ?i and k' = k]
    by (auto simp: db_view_def split: if_splits)
  have d: "cdiv x 1000 = x div 1000" if "0 < x" for x :: int
    using that by (simp add: cdiv_def)
  have c: "(db', n) = (?p, - 2) \<and> db_get ?p ?i k = None \<or>
      db_get ?p ?i k \<noteq> None \<and> db_expiry ?p ?i k = None \<and> (db', n) = (?p, - 1) \<or>
      db_get ?p ?i k \<noteq> None \<and> (\<exists>at. db_expiry ?p ?i k = Some at \<and> (db', n) = (?p, (at - now) div 1000))"
    using r G(2)
    by (auto simp: Database_TTL_def Let_def db_get_def db_expiry_def bind_r_Inr_iff sub_i64_def d
        split: if_splits option.splits)
  then show "db' = ?p" by auto
  show "n = (if db_view db ?i now k = None then - 2
          else case db_expiry db ?i k of None \<Rightarrow> - 1 | Some at \<Rightarrow> (at - now) div 1000)"
    using c e G(1) by (cases "db_expiry db ?i k") auto
qed

text \<open>The loops over collected keys, through the contract of the tables.\<close>

lemma fold_erase_both:
  assumes "i < length (tables db)" "i < length (expire_tables db)"
  shows "fold (erase_both i) ks db =
    set_expire i (fold (\<lambda>k t. fst (nt_Erase t k)) ks (expire_tables db ! i))
      (set_table i (fold (\<lambda>k t. fst (nt_Erase t k)) ks (tables db ! i)) db)"
  using assms
proof (induction ks arbitrary: db)
  case Nil
  then show ?case by (simp add: set_table_def set_expire_def)
next
  case (Cons k ks)
  then show ?case by (simp add: erase_both_def Let_def set_table_def set_expire_def)
qed

lemma nt_erase_list:
  fixes ks :: "nano_obj list"
  assumes "nt_inv t"
  defines "t' \<equiv> fold (\<lambda>k t. fst (nt_Erase t k)) ks t"
  shows "nt_inv t'" "nt_Find t' k' = (if \<exists>k\<in>set ks. NanoObj_eq k k' then None else nt_Find t k')"
    "max_segment_size t' = max_segment_size t"
    "mset (DashTable_ForEach t') =
       filter_mset (\<lambda>e. \<forall>k\<in>set ks. \<not> NanoObj_eq k (fst e)) (mset (DashTable_ForEach t))"
proof -
  show "nt_inv t'" "nt_Find t' k' = (if \<exists>k\<in>set ks. NanoObj_eq k k' then None else nt_Find t k')"
    using nano_dt.kv.era_list [OF assms(1)] unfolding t'_def by blast+
  have "max_segment_size t' = max_segment_size t \<and> mset (DashTable_ForEach t') =
       filter_mset (\<lambda>e. \<forall>k\<in>set ks. \<not> NanoObj_eq k (fst e)) (mset (DashTable_ForEach t))"
    unfolding t'_def using assms(1)
  proof (induction ks arbitrary: t)
    case Nil
    then show ?case by simp
  next
    case (Cons k ks)
    obtain t1 b where e: "nt_Erase t k = (t1, b)" by fastforce
    have "mset (DashTable_ForEach t1) =
        filter_mset (\<lambda>e. \<not> NanoObj_eq k (fst e)) (mset (DashTable_ForEach t))"
      using nano_dt.Erase_ForEach [OF Cons.prems e]
        nano.mset_table_erase [OF nano_dt.table_inv_ForEach [OF Cons.prems]] by metis
    then show ?case
      using Cons.IH [OF nano_dt.Erase_ok(1) [OF Cons.prems e]] nano_dt.Erase_ok(6) [OF Cons.prems e]
      by (simp add: e filter_filter_mset conj_commute)
  qed
  then show "max_segment_size t' = max_segment_size t" "mset (DashTable_ForEach t') =
       filter_mset (\<lambda>e. \<forall>k\<in>set ks. \<not> NanoObj_eq k (fst e)) (mset (DashTable_ForEach t))"
    by blast+
qed

lemma expired_keys_iff:
  assumes inv: "db_inv db" and i: "i < kNumDBs"
  shows "(\<exists>k\<in>set (expired_keys now (DashTable_ForEach (expire_tables db ! i))). NanoObj_eq k k') \<longleftrightarrow>
    IsExpiredInDB db i k' now"
proof -
  let ?E = "DashTable_ForEach (expire_tables db ! i)"
  note t = db_invD(5) [OF inv i]
  have "IsExpiredInDB db i k' now \<longleftrightarrow>
      (\<exists>e. table_find NanoObj_eq fst k' ?E = Some e \<and> snd e \<le> now)"
    using nano_dt.Find_ForEach [OF t, of k'] by (auto simp: IsExpiredInDB_def split: option.splits)
  also have "\<dots> \<longleftrightarrow> (\<exists>e. e \<in> set ?E \<and> NanoObj_eq k' (fst e) \<and> snd e \<le> now)"
    using nano.table_find_Some_iff [OF nano_dt.table_inv_ForEach [OF t], of k'] by auto
  finally show ?thesis using nano.eq_sym by (auto simp: expired_keys_def)
qed

lemma expired_keys_sub:
  assumes inv: "db_inv db" and i: "i < kNumDBs"
    and k: "k \<in> set (expired_keys now (take n (DashTable_ForEach (expire_tables db ! i))))" "NanoObj_eq k k'"
  shows "IsExpiredInDB db i k' now"
proof -
  have "k \<in> set (expired_keys now (DashTable_ForEach (expire_tables db ! i)))"
    using k(1) by (auto simp: expired_keys_def dest!: in_set_takeD)
  then show ?thesis using expired_keys_iff [OF inv i] k(2) by blast
qed

lemma erase_list_ok:
  assumes inv: "db_inv db" and i: "i < kNumDBs"
    and exp: "\<And>k k'. k \<in> set ks \<Longrightarrow> NanoObj_eq k k' \<Longrightarrow> IsExpiredInDB db i k' now"
  defines "db' \<equiv> fold (erase_both i) ks db"
  shows "db_inv db'" "current_db db' = current_db db"
    "now \<le> now' \<Longrightarrow> db_view db' j now' k' = db_view db j now' k'"
    "db_get db' j k' = (if j = i \<and> (\<exists>k\<in>set ks. NanoObj_eq k k') then None else db_get db j k')"
    "db_expiry db' j k' = (if j = i \<and> (\<exists>k\<in>set ks. NanoObj_eq k k') then None else db_expiry db j k')"
    "mset (DashTable_ForEach (tables db' ! i)) = filter_mset (\<lambda>e. \<forall>k\<in>set ks. \<not> NanoObj_eq k (fst e))
       (mset (DashTable_ForEach (tables db ! i)))"
    "j \<noteq> i \<Longrightarrow> tables db' ! j = tables db ! j"
proof -
  note D = db_invD [OF inv]
  have A: "db_inv db' \<and> current_db db' = current_db db \<and>
    (\<forall>j k'. db_get db' j k' = (if j = i \<and> (\<exists>k\<in>set ks. NanoObj_eq k k') then None else db_get db j k')) \<and>
    (\<forall>j k'. db_expiry db' j k' = (if j = i \<and> (\<exists>k\<in>set ks. NanoObj_eq k k') then None else db_expiry db j k'))"
    unfolding db'_def using inv
  proof (induction ks arbitrary: db)
    case Nil
    then show ?case by simp
  next
    case (Cons k ks)
    note E = erase_both_ok [OF Cons.prems i, where k = k]
    show ?case using Cons.IH [OF E(1)] E(2-4) by auto
  qed
  then show "db_inv db'" "current_db db' = current_db db" by auto
  show "db_get db' j k' = (if j = i \<and> (\<exists>k\<in>set ks. NanoObj_eq k k') then None else db_get db j k')"
    "db_expiry db' j k' = (if j = i \<and> (\<exists>k\<in>set ks. NanoObj_eq k k') then None else db_expiry db j k')"
    using A by auto
  have fe: "db' = set_expire i (fold (\<lambda>k t. fst (nt_Erase t k)) ks (expire_tables db ! i))
      (set_table i (fold (\<lambda>k t. fst (nt_Erase t k)) ks (tables db ! i)) db)"
    unfolding db'_def using i D(1,2) by (intro fold_erase_both) simp_all
  show "mset (DashTable_ForEach (tables db' ! i)) = filter_mset (\<lambda>e. \<forall>k\<in>set ks. \<not> NanoObj_eq k (fst e))
       (mset (DashTable_ForEach (tables db ! i)))"
    unfolding fe using nt_erase_list(4) [OF D(4) [OF i]] i D(1) by simp
  show "j \<noteq> i \<Longrightarrow> tables db' ! j = tables db ! j" by (simp add: fe)
  assume le: "now \<le> now'"
  show "db_view db' j now' k' = db_view db j now' k'"
  proof (cases "j = i \<and> (\<exists>k\<in>set ks. NanoObj_eq k k')")
    case True
    then have "IsExpiredInDB db i k' now" using exp by blast
    with True A le show ?thesis by (auto simp: db_view_eq IsExpiredInDB_expiry split: option.splits)
  next
    case False
    then have "db_get db' j k' = db_get db j k'" "db_expiry db' j k' = db_expiry db j k'"
      using A by auto
    then show ?thesis by (simp add: db_view_eq split: option.splits)
  qed
qed

definition live :: "database \<Rightarrow> nat \<Rightarrow> int \<Rightarrow> (nano_obj \<times> nano_obj) list" where
  "live db i now = filter (\<lambda>e. \<not> IsExpiredInDB db i (fst e) now) (DashTable_ForEach (tables db ! i))"

lemma remove_expired_ok:
  fixes now :: int
  assumes inv: "db_inv db"
  defines "db' \<equiv> remove_expired now db"
  shows "db_inv db'" "current_db db' = current_db db"
    "now \<le> now' \<Longrightarrow> db_view db' j now' k' = db_view db j now' k'"
    "mset (DashTable_ForEach (tables db' ! current_db db)) = mset (live db (current_db db) now)"
proof -
  let ?i = "current_db db"
  let ?ks = "expired_keys now (DashTable_ForEach (expire_tables db ! ?i))"
  note i = db_invD(3) [OF inv]
  have e: "\<And>k k'. k \<in> set ?ks \<Longrightarrow> NanoObj_eq k k' \<Longrightarrow> IsExpiredInDB db ?i k' now"
    using expired_keys_iff [OF inv i] by blast
  have db': "db' = fold (erase_both ?i) ?ks db" by (simp add: db'_def remove_expired_def Let_def)
  note E = erase_list_ok [OF inv i e, of ?ks]
  show "db_inv db'" "current_db db' = ?i"
    "now \<le> now' \<Longrightarrow> db_view db' j now' k' = db_view db j now' k'"
    using E(1-3) by (simp_all add: db')
  have "(\<forall>k\<in>set ?ks. \<not> NanoObj_eq k (fst e)) \<longleftrightarrow> \<not> IsExpiredInDB db ?i (fst e) now" for e :: "nano_obj \<times> nano_obj"
    using expired_keys_iff [OF inv i, of now "fst e"] by blast
  then show "mset (DashTable_ForEach (tables db' ! ?i)) = mset (live db ?i now)"
    using E(6) by (simp add: db' live_def)
qed

section \<open>The active expiry cycle and enumeration\<close>

definition total_size :: "database \<Rightarrow> nat" where
  "total_size db = (\<Sum>i<kNumDBs. DashTable_Size (tables db ! i))"

lemma Size_pos:
  assumes "nt_inv t" "nt_Find t k \<noteq> None"
  shows "0 < DashTable_Size t"
  using assms nano_dt.Find_ForEach [OF assms(1), of k] by (cases "DashTable_ForEach t") (auto simp: Size_ForEach)

lemma active_expire_key_eq:
  "active_expire_key i k (db, c) =
     (erase_both i k db, c + (if snd (nt_Erase (tables db ! i) k) then 1 else 0))"
  by (simp add: active_expire_key_def erase_both_def Let_def case_prod_beta)

lemma active_fold:
  assumes "db_inv db" "i < kNumDBs"
  shows "\<exists>hits \<le> length ks.
    fold (active_expire_key i) ks (db, c) = (fold (erase_both i) ks db, c + hits) \<and>
    DashTable_Size (tables db ! i) = DashTable_Size (tables (fold (erase_both i) ks db) ! i) + hits"
  using assms
proof (induction ks arbitrary: db c)
  case Nil
  then show ?case by simp
next
  case (Cons k ks)
  note D = db_invD [OF Cons.prems(1)]
  note E = erase_both_ok [OF Cons.prems, where k = k]
  let ?hit = "if snd (nt_Erase (tables db ! i) k) then 1 else 0 :: nat"
  obtain hits where h: "hits \<le> length ks"
    "fold (active_expire_key i) ks (erase_both i k db, c + ?hit) =
       (fold (erase_both i) ks (erase_both i k db), c + ?hit + hits)"
    "DashTable_Size (tables (erase_both i k db) ! i) =
       DashTable_Size (tables (fold (erase_both i) ks (erase_both i k db)) ! i) + hits"
    using Cons.IH [OF E(1) Cons.prems(2), of "c + ?hit"] by blast
  have s: "DashTable_Size (tables db ! i) = DashTable_Size (tables (erase_both i k db) ! i) + ?hit"
    using E(6) Size_pos [OF D(4) [OF Cons.prems(2)], of k]
      nt_Erase_fst(4) [OF D(4) [OF Cons.prems(2)], of k] by (simp add: db_get_def)
  show ?case
    using h s by (intro exI [of _ "hits + ?hit"]) (simp add: active_expire_key_eq)
qed

lemma active_expire_db_ok:
  assumes inv: "db_inv db" and i: "i < kNumDBs"
    and r: "active_expire_db now n i (db, c) = (db', c')"
  shows "db_inv db'" "current_db db' = current_db db"
    "now \<le> now' \<Longrightarrow> db_view db' j now' k' = db_view db j now' k'"
    "total_size db + c = total_size db' + c'" "c' \<le> c + n"
proof -
  let ?ks = "expired_keys now (take n (DashTable_ForEach (expire_tables db ! i)))"
  obtain hits where h: "hits \<le> length ?ks" "db' = fold (erase_both i) ?ks db" "c' = c + hits"
    "DashTable_Size (tables db ! i) = DashTable_Size (tables (fold (erase_both i) ?ks db) ! i) + hits"
    using active_fold [OF inv i, where ks = ?ks and c = c] r unfolding active_expire_db_def by auto
  have e: "\<And>k k'. k \<in> set ?ks \<Longrightarrow> NanoObj_eq k k' \<Longrightarrow> IsExpiredInDB db i k' now"
    using expired_keys_sub [OF inv i] by blast
  note E = erase_list_ok [OF inv i e, of ?ks]
  show "db_inv db'" "current_db db' = current_db db"
    "now \<le> now' \<Longrightarrow> db_view db' j now' k' = db_view db j now' k'"
    using E(1-3) by (simp_all add: h(2))
  have "length ?ks \<le> n" by (simp add: expired_keys_def le_trans [OF length_filter_le])
  then show "c' \<le> c + n" using h(1,3) by simp
  have "total_size db = DashTable_Size (tables db ! i) + (\<Sum>j\<in>{..<kNumDBs} - {i}. DashTable_Size (tables db ! j))"
    unfolding total_size_def using i by (subst sum.remove [of _ i]) auto
  moreover have "total_size db' = DashTable_Size (tables db' ! i) + (\<Sum>j\<in>{..<kNumDBs} - {i}. DashTable_Size (tables db' ! j))"
    unfolding total_size_def using i by (subst sum.remove [of _ i]) auto
  moreover have "(\<Sum>j\<in>{..<kNumDBs} - {i}. DashTable_Size (tables db' ! j)) =
      (\<Sum>j\<in>{..<kNumDBs} - {i}. DashTable_Size (tables db ! j))"
    using E(7) by (intro sum.cong) (auto simp: h(2))
  ultimately show "total_size db + c = total_size db' + c'" using h(2-4) by simp
qed

lemma active_cycle_fold:
  assumes "db_inv db" "set is \<subseteq> {..<kNumDBs}"
    and "fold (active_expire_db now n) is (db, c) = (db', c')"
  shows "db_inv db' \<and> current_db db' = current_db db \<and>
    (\<forall>now' j k'. now \<le> now' \<longrightarrow> db_view db' j now' k' = db_view db j now' k') \<and>
    total_size db + c = total_size db' + c' \<and> c' \<le> c + length is * n"
  using assms
proof (induction "is" arbitrary: db c)
  case Nil
  then show ?case by simp
next
  case (Cons i "is")
  obtain db1 c1 where s: "active_expire_db now n i (db, c) = (db1, c1)" by fastforce
  have i: "i < kNumDBs" using Cons.prems(2) by simp
  note A = active_expire_db_ok [OF Cons.prems(1) i s]
  have "db_inv db' \<and> current_db db' = current_db db1 \<and>
    (\<forall>now' j k'. now \<le> now' \<longrightarrow> db_view db' j now' k' = db_view db1 j now' k') \<and>
    total_size db1 + c1 = total_size db' + c' \<and> c' \<le> c1 + length is * n"
    using Cons.prems(2,3) s by (intro Cons.IH [OF A(1)]) simp_all
  then show ?case using A by auto
qed

lemma ForEachInDB_live:
  assumes "i < kNumDBs"
  shows "map (\<lambda>(k, v, x). (k, v)) (ForEachInDB now i db) = live db i now"
proof -
  have "map (\<lambda>(k, v, x). (k, v)) (List.map_filter (\<lambda>(key, value).
             case nt_Find (expire_tables db ! i) key of
               None \<Rightarrow> Some (key, value, 0)
             | Some at \<Rightarrow> if at \<le> now then None else Some (key, value, at)) es) =
      filter (\<lambda>e. \<not> IsExpiredInDB db i (fst e) now) es" for es :: "(nano_obj \<times> nano_obj) list"
    by (induction es) (auto simp: map_filter_simps IsExpiredInDB_def split: option.splits if_splits)
  with assms show ?thesis by (simp add: ForEachInDB_def live_def)
qed

lemma nt_Clear:
  fixes t :: "(nano_obj, 'v) dashtable"
  assumes "nt_inv t"
  shows "nt_inv (DashTable_Clear t)" "nt_Find (DashTable_Clear t) k = None"
    "max_segment_size (DashTable_Clear t) = max_segment_size t"
proof -
  note C = Clear_ok [OF nt_inv_dir_inv [OF assms]]
  show n: "nt_inv (DashTable_Clear t)" "max_segment_size (DashTable_Clear t) = max_segment_size t"
    by (rule C)+
  have "DashTable_ForEach (DashTable_Clear t) = []"
    using mset_ForEach [OF nt_inv_dir_inv [OF n(1)]] C(2) by simp
  then show "nt_Find (DashTable_Clear t) k = None" using nano_dt.Find_ForEach [OF n(1)] by simp
qed

lemma clear_db_ok:
  assumes inv: "db_inv db" and i: "i < kNumDBs"
  shows "db_inv (clear_db i db)" "current_db (clear_db i db) = current_db db"
    "db_get (clear_db i db) j k = (if j = i then None else db_get db j k)"
    "db_expiry (clear_db i db) j k = (if j = i then None else db_expiry db j k)"
proof -
  note D = db_invD [OF inv]
  let ?t = "DashTable_Clear (tables db ! i)" and ?e = "DashTable_Clear (expire_tables db ! i)"
  have e: "nt_inv ?e" "\<And>k. nt_Find ?e k = None" "max_segment_size ?e = 16"
    using D(7) [OF i] nt_Clear [OF D(5) [OF i]] by auto
  have t: "nt_inv ?t" "\<And>k. nt_Find ?t k = None" "max_segment_size ?t = 16"
    using D(6) [OF i] nt_Clear [OF D(4) [OF i]] by auto
  have eq: "clear_db i db = set_table i ?t (set_expire i ?e db)"
    by (simp add: clear_db_def Let_def set_table_def set_expire_def)
  note E = db_inv_set_expire [OF inv i e(1,3) e(2)]
  have none: "db_expiry (set_expire i ?e db) i k = None" for k using E(2) e(2) by simp
  note T = db_inv_set_table [OF E(1) i t(1,3) none]
  show "db_inv (clear_db i db)" unfolding eq by (rule T(1))
  show "current_db (clear_db i db) = current_db db" by (simp add: eq)
  show "db_get (clear_db i db) j k = (if j = i then None else db_get db j k)"
    using T(2) t(2) by (simp add: eq db_get_def)
  show "db_expiry (clear_db i db) j k = (if j = i then None else db_expiry db j k)"
    using E(2) e(2) by (simp add: eq db_expiry_def)
qed

lemma ClearAll_ok:
  assumes "db_inv db"
  shows "db_inv (ClearAll db)" "current_db (ClearAll db) = current_db db"
    "i < kNumDBs \<Longrightarrow> db_get (ClearAll db) i k = None"
proof -
  have F: "db_inv (fold clear_db is db) \<and> current_db (fold clear_db is db) = current_db db \<and>
      (\<forall>i k. db_get (fold clear_db is db) i k = (if i \<in> set is then None else db_get db i k))"
    if "set is \<subseteq> {..<kNumDBs}" for "is" using that assms
  proof (induction "is" arbitrary: db)
    case Nil
    then show ?case by simp
  next
    case (Cons i "is")
    then have i: "i < kNumDBs" by simp
    note C = clear_db_ok [OF Cons.prems(2) i]
    show ?case using Cons.IH [OF _ C(1)] Cons.prems(1) C(2,3) by auto
  qed
  have G: "db_inv (ClearAll db) \<and> current_db (ClearAll db) = current_db db \<and>
      (\<forall>i k. db_get (ClearAll db) i k = (if i \<in> set [0..<kNumDBs] then None else db_get db i k))"
    unfolding ClearAll_def by (rule F) auto
  then show "db_inv (ClearAll db)" "current_db (ClearAll db) = current_db db"
    "i < kNumDBs \<Longrightarrow> db_get (ClearAll db) i k = None" by auto
qed

lemma Poke_db_ok:
  assumes inv: "db_inv db"
  shows "db_inv (Database_Poke k v db)" "current_db (Database_Poke k v db) = current_db db"
    "db_expiry (Database_Poke k v db) = db_expiry db"
    "db_get (Database_Poke k v db) j k' =
       (if j = current_db db \<and> NanoObj_eq k k' \<and> db_get db j k \<noteq> None then Some v else db_get db j k')"
proof -
  note D = db_invD [OF inv]
  let ?i = "current_db db"
  let ?t = "nt_Poke (tables db ! ?i) k v"
  note T = nano_dt.Poke_ok [OF D(4) [OF D(3)], where k = k and v = v]
  have m: "max_segment_size ?t = 16"
    using D(6) [OF D(3)] by (simp add: Poke_eq dt_put_def Let_def)
  have c: "db_expiry db ?i k' = None" if "nt_Find ?t k' = None" for k'
    using that T(2) [of k'] D(8) [OF D(3), of k'] by (auto simp: db_get_def split: if_splits)
  note S = db_inv_set_table [OF inv D(3) T(1) m c]
  show "db_inv (Database_Poke k v db)" unfolding Database_Poke_def by (rule S(1))
  show "current_db (Database_Poke k v db) = current_db db" "db_expiry (Database_Poke k v db) = db_expiry db"
    by (simp_all add: Database_Poke_def)
  show "db_get (Database_Poke k v db) j k' =
       (if j = ?i \<and> NanoObj_eq k k' \<and> db_get db j k \<noteq> None then Some v else db_get db j k')"
    unfolding Database_Poke_def using S(2) [of j k'] T(2) [of k'] by (auto simp: db_get_def)
qed

lemma Select_ok:
  assumes "db_inv db"
  shows "db_inv (fst (Database_Select i db))"
    "current_db (fst (Database_Select i db)) = (if i < kNumDBs then i else current_db db)"
    "db_get (fst (Database_Select i db)) = db_get db"
    "db_expiry (fst (Database_Select i db)) = db_expiry db"
    "db_view (fst (Database_Select i db)) = db_view db"
    "snd (Database_Select i db) \<longleftrightarrow> i < kNumDBs"
  using assms
  by (auto simp: Database_Select_def db_inv_def db_get_def db_expiry_def db_view_def IsExpiredInDB_def
      fun_eq_iff)

section \<open>Properties\<close>

text \<open>The databases that the public operations can produce, at any clock readings.\<close>

inductive db_reachable :: "database \<Rightarrow> bool" where
  new: "lim \<le> 31 \<Longrightarrow> db_reachable (Database_new lim)"
| set: "db_reachable db \<Longrightarrow> Database_Set k v db = Inr db' \<Longrightarrow> db_reachable db'"
| find: "db_reachable db \<Longrightarrow> db_reachable (fst (Database_Find now k db))"
| del: "db_reachable db \<Longrightarrow> Database_Del now k db = (db', b) \<Longrightarrow> db_reachable db'"
| poke: "db_reachable db \<Longrightarrow> db_reachable (Database_Poke k v db)"
| expire: "db_reachable db \<Longrightarrow> Database_Expire now k ttl db = Inr (db', b) \<Longrightarrow> db_reachable db'"
| persist: "db_reachable db \<Longrightarrow> Database_Persist now k db = (db', b) \<Longrightarrow> db_reachable db'"
| ttl: "db_reachable db \<Longrightarrow> Database_TTL now k db = Inr (db', n) \<Longrightarrow> db_reachable db'"
| key_count: "db_reachable db \<Longrightarrow> db_reachable (fst (Database_KeyCount now db))"
| select: "db_reachable db \<Longrightarrow> db_reachable (fst (Database_Select i db))"
| clear: "db_reachable db \<Longrightarrow> db_reachable (ClearCurrentDB db)"
| clear_all: "db_reachable db \<Longrightarrow> db_reachable (ClearAll db)"
| active: "db_reachable db \<Longrightarrow> db_reachable (fst (ActiveExpireCycle now n db))"

lemma ActiveExpireCycle_ok:
  assumes inv: "db_inv db" and r: "ActiveExpireCycle now n db = (db', c)"
  shows "db_inv db'" "current_db db' = current_db db"
    "now \<le> now' \<Longrightarrow> db_view db' j now' k' = db_view db j now' k'"
    "total_size db = total_size db' + c" "c \<le> kNumDBs * n"
proof -
  have "db_inv db' \<and> current_db db' = current_db db \<and>
    (\<forall>now' j k'. now \<le> now' \<longrightarrow> db_view db' j now' k' = db_view db j now' k') \<and>
    total_size db + 0 = total_size db' + c \<and> c \<le> 0 + kNumDBs * n"
  proof (cases "n = 0")
    case True
    with r inv show ?thesis by (simp add: ActiveExpireCycle_def)
  next
    case False
    then have "fold (active_expire_db now n) [0..<kNumDBs] (db, 0) = (db', c)"
      using r by (simp add: ActiveExpireCycle_def)
    from active_cycle_fold [OF inv _ this] show ?thesis by (simp add: lessThan_atLeast0)
  qed
  then show "db_inv db'" "current_db db' = current_db db"
    "now \<le> now' \<Longrightarrow> db_view db' j now' k' = db_view db j now' k'"
    "total_size db = total_size db' + c" "c \<le> kNumDBs * n" by auto
qed

lemma db_reachable_inv: "db_reachable db \<Longrightarrow> db_inv db"
proof (induction rule: db_reachable.induct)
  case (new lim)
  then show ?case by (rule Database_new_inv)
next
  case (set db k v db')
  then show ?case by (blast intro: Set_ok(1))
next
  case (find db now k)
  then show ?case using Find_ok(2) Prune_ok(1) db_invD(3) by metis
next
  case (del db now k db' b)
  then show ?case by (blast intro: Del_ok(1))
next
  case (poke db k v)
  then show ?case by (blast intro: Poke_db_ok(1))
next
  case (expire db now k ttl db' b)
  then show ?case by (blast intro: Expire_ok(1))
next
  case (persist db now k db' b)
  then show ?case by (blast intro: Persist_ok(1))
next
  case (ttl db now k db' n)
  then show ?case using TTL_ok(1) Prune_ok(1) db_invD(3) by metis
next
  case (key_count db now)
  then show ?case using remove_expired_ok(1) by (simp add: Database_KeyCount_def Let_def)
next
  case (select db i)
  then show ?case by (blast intro: Select_ok(1))
next
  case (clear db)
  then show ?case using clear_db_ok(1) db_invD(3) by (simp add: ClearCurrentDB_def)
next
  case (clear_all db)
  then show ?case by (blast intro: ClearAll_ok(1))
next
  case (active db now n)
  then show ?case using ActiveExpireCycle_ok(1) by (metis prod.collapse)
qed

lemma new_db_Set: "\<exists>db'. Database_Set k v (Database_new 31) = Inr db'"
proof -
  obtain t where "nt_Insert (DashTable_new 31 1 16) k v = Inr t" by (rule exE [OF new_16_Insert])
  then show ?thesis
    by (simp add: Database_Set_def Database_new_def kNumDBs_def kInitialSegmentCount_def
        kDefaultFixedBucketCount_def)
qed

lemma new_db:
  "db_inv (Database_new 31)" "current_db (Database_new 31) = 0"
  "db_expiry (Database_new 31) 0 k = None" "db_get (Database_new 31) 0 k = None"
proof -
  show i: "db_inv (Database_new 31)" using Database_new_inv(1) [of 31] by simp
  show "current_db (Database_new 31) = 0" by (simp add: Database_new_def)
  show g: "db_get (Database_new 31) 0 k = None"
    using Database_new_inv(2) [of 31 0 k] by (simp add: kNumDBs_def)
  show "db_expiry (Database_new 31) 0 k = None"
    using db_invD(8) [OF i _ g] by (simp add: kNumDBs_def)
qed

text \<open>
  C10: reading a database never shows the lazy removal of expired keys.  \<open>Find\<close> (and with it
  \<open>Get\<close> and \<open>Exists\<close>) returns the stored value unless its expiry time has been reached, and
  whatever it prunes changes no answer at this or any later time, in this or any other database.
\<close>

theorem Database_Find_view:
  assumes "db_inv db" "now \<le> now'"
  shows "snd (Database_Find now k db) = db_view db (current_db db) now k \<and>
    snd (Database_Get now k db) = map_option ToString (db_view db (current_db db) now k) \<and>
    snd (Database_Exists now k db) = (db_view db (current_db db) now k \<noteq> None) \<and>
    db_inv (fst (Database_Find now k db)) \<and>
    db_view (fst (Database_Find now k db)) i now' k' = db_view db i now' k'"
  using Find_ok [OF assms(1)] Prune_ok(1,5) [OF assms(1) db_invD(3) [OF assms(1)]] assms(2)
  by (simp add: Get_Find Exists_Find)

theorem Database_Find_view_witness:
  "\<exists>db. Database_Set (FromKey ''a'') (IntObj 7) (Database_new 31) = Inr db \<and>
     snd (Database_Get 5 (FromKey ''a'') db) = Some ''7''"
proof -
  obtain db where s: "Database_Set (FromKey ''a'') (IntObj 7) (Database_new 31) = Inr db"
    by (rule exE [OF new_db_Set])
  note S = Set_ok [OF new_db(1) s]
  have "db_view db (current_db db) 5 (FromKey ''a'') = Some (IntObj 7)"
    using S(2-4) FromKey_a_eq by (simp add: db_view_eq new_db)
  moreover have "to_string 7 = ''7''" by code_simp
  ultimately show ?thesis
    using s Database_Find_view [OF S(1), of 5 5 "FromKey ''a''" 0 "FromKey ''a''"] by simp
qed

text \<open>
  C11: \<open>Expire\<close> with a positive time keeps the key visible exactly until the deadline, which
  saturates at the largest 64-bit time; with a time that is not positive the key is gone at once.
  Other keys and databases are not touched, and the result says whether the key was there.
\<close>

theorem Database_Expire_deadline:
  assumes "db_inv db" "Database_Expire now k ttl db = Inr (db', found)" "now \<le> now'"
  shows "db_inv db' \<and> (found \<longleftrightarrow> db_view db (current_db db) now k \<noteq> None) \<and>
    db_view db' i now' k' =
      (if i = current_db db \<and> NanoObj_eq k k'
       then (if expiry_deadline now ttl \<le> now' then None else db_view db i now k')
       else db_view db i now' k')"
  using Expire_ok [OF assms(1,2)] assms(3) by blast

theorem Database_Expire_deadline_witness:
  "\<exists>db'. Database_Expire 3 (FromKey ''a'') 10 (Database_new 31) = Inr (db', False) \<and>
     db_view db' 0 20 (FromKey ''a'') = None"
proof -
  let ?p = "PruneExpiredInDB 0 (FromKey ''a'') 3 (Database_new 31)"
  have "db_get ?p 0 (FromKey ''a'') = None"
    using Prune_get(1) [OF new_db(1), of 0] new_db by (simp add: db_view_eq kNumDBs_def)
  then have e: "Database_Expire 3 (FromKey ''a'') 10 (Database_new 31) = Inr (?p, False)"
    by (simp add: Database_Expire_def Let_def new_db(2) db_get_def)
  show ?thesis
    using Database_Expire_deadline [OF new_db(1) e, of 20 0 "FromKey ''a''"] e FromKey_a_eq
    by (auto simp: new_db(2) expiry_deadline_def INT64_MAX_def)
qed

text \<open>
  C12: \<open>TTL\<close> returns -2 for a key that is absent or expired, -1 for a key without an expiry
  time, and otherwise the remaining whole seconds, which are never negative; and it changes
  nothing that can be observed.
\<close>

theorem Database_TTL_result:
  assumes "db_inv db" "Database_TTL now k db = Inr (db', n)"
  shows "n = (case db_view db (current_db db) now k of
        None \<Rightarrow> - 2
      | Some v \<Rightarrow> (case db_expiry db (current_db db) k of
            None \<Rightarrow> - 1
          | Some at \<Rightarrow> (at - now) div 1000)) \<and>
    (n = - 2 \<or> n = - 1 \<or> 0 \<le> n) \<and>
    (now \<le> now' \<longrightarrow> db_view db' i now' k' = db_view db i now' k')"
proof -
  note T = TTL_ok [OF assms]
  have "0 \<le> (at - now) div 1000"
    if "db_view db (current_db db) now k \<noteq> None" "db_expiry db (current_db db) k = Some at" for at
    using that by (auto simp: db_view_eq split: if_splits)
  then have "n = - 2 \<or> n = - 1 \<or> 0 \<le> n"
    using T(2) by (auto split: option.splits if_splits)
  moreover have "now \<le> now' \<longrightarrow> db_view db' i now' k' = db_view db i now' k'"
    using Prune_ok(5) [OF assms(1) db_invD(3) [OF assms(1)]] T(1) by blast
  ultimately show ?thesis using T(2) by (auto split: option.splits)
qed

theorem Database_TTL_result_witness:
  "\<exists>db db'. Database_Set (FromKey ''a'') (IntObj 7) (Database_new 31) = Inr db \<and>
     Database_TTL 5 (FromKey ''a'') db = Inr (db', - 1)"
proof -
  obtain db where s: "Database_Set (FromKey ''a'') (IntObj 7) (Database_new 31) = Inr db"
    by (rule exE [OF new_db_Set])
  note S = Set_ok [OF new_db(1) s]
  have v: "db_view db (current_db db) 5 (FromKey ''a'') = Some (IntObj 7)"
    and e: "db_expiry db (current_db db) (FromKey ''a'') = None"
    using S(2-4) FromKey_a_eq by (simp_all add: db_view_eq new_db)
  let ?p = "PruneExpiredInDB (current_db db) (FromKey ''a'') 5 db"
  have "db_get ?p (current_db db) (FromKey ''a'') = Some (IntObj 7)"
    "db_expiry ?p (current_db db) (FromKey ''a'') = None"
    using Prune_get(1) [OF S(1) db_invD(3) [OF S(1)]] v e
      Prune_ok(4) [OF S(1) db_invD(3) [OF S(1)], where k = "FromKey ''a''" and k' = "FromKey ''a''"
        and now = 5 and j = "current_db db"]
    by (auto split: if_splits)
  then obtain n where t: "Database_TTL 5 (FromKey ''a'') db = Inr (?p, n)"
    by (simp add: Database_TTL_def Let_def db_get_def db_expiry_def)
  with Database_TTL_result [OF S(1) t] v e s show ?thesis by auto
qed

text \<open>
  C13: the active expiry cycle removes only keys whose expiry time has been reached: no answer
  changes, in any database, at this or any later time.  Its result is the number of values it
  removed, at most \<open>max_keys_per_db\<close> for each of the sixteen databases.
\<close>

theorem ActiveExpireCycle_safe:
  assumes "db_inv db" "ActiveExpireCycle now n db = (db', deleted)"
  shows "db_inv db' \<and> (now \<le> now' \<longrightarrow> db_view db' i now' k = db_view db i now' k) \<and>
    total_size db = total_size db' + deleted \<and> deleted \<le> kNumDBs * n"
  using ActiveExpireCycle_ok [OF assms] by blast

theorem ActiveExpireCycle_safe_witness:
  "snd (ActiveExpireCycle 9 0 (Database_new 31)) = 0 \<and>
   db_view (fst (ActiveExpireCycle 9 0 (Database_new 31))) 0 9 (FromKey ''a'') = None"
  using ActiveExpireCycle_safe [OF new_db(1), of 9 0 "Database_new 31" 0 9 0 "FromKey ''a''"]
  by (simp add: ActiveExpireCycle_def db_view_eq new_db)

text \<open>
  C14: \<open>KeyCount\<close> counts and \<open>Keys\<close> lists exactly the live entries of the current database,
  the same entries that \<open>ForEachInDB\<close> enumerates, and the clean-up they do is not observable.
\<close>

theorem Database_KeyCount_live:
  assumes "db_inv db"
  shows "snd (Database_KeyCount now db) = length (ForEachInDB now (current_db db) db) \<and>
    mset (snd (Database_Keys now db)) =
      mset (map (\<lambda>(k, v, x). ToString k) (ForEachInDB now (current_db db) db)) \<and>
    (now \<le> now' \<longrightarrow> db_view (fst (Database_KeyCount now db)) i now' k = db_view db i now' k)"
proof -
  note R = remove_expired_ok [OF assms, where now = now]
  let ?i = "current_db db" and ?d = "remove_expired now db"
  let ?E = "DashTable_ForEach (tables ?d ! ?i)" and ?F = "ForEachInDB now ?i db"
  have L: "live db ?i now = map (\<lambda>(k, v, x). (k, v)) ?F"
    using ForEachInDB_live [OF db_invD(3) [OF assms]] by simp
  have "length ?E = length ?F"
    using arg_cong [OF R(4), of size] unfolding L by (simp only: size_mset length_map)
  moreover have "mset (map (\<lambda>e. ToString (fst e)) ?E) = image_mset (\<lambda>e. ToString (fst e)) (mset ?E)"
    by simp
  moreover have "image_mset (\<lambda>e. ToString (fst e)) (mset ?E) = mset (map (\<lambda>(k, v, x). ToString k) ?F)"
    unfolding R(4) L by (auto simp: case_prod_beta comp_def multiset.map_comp intro!: image_mset_cong)
  ultimately show ?thesis
    using R(2,3) by (simp add: Database_KeyCount_def Database_Keys_def Let_def Size_ForEach)
qed

theorem Database_KeyCount_live_witness:
  "\<exists>db. Database_Set (FromKey ''a'') (IntObj 7) (Database_new 31) = Inr db \<and>
     snd (Database_KeyCount 5 db) = length (ForEachInDB 5 0 db)"
proof -
  obtain db where s: "Database_Set (FromKey ''a'') (IntObj 7) (Database_new 31) = Inr db"
    by (rule exE [OF new_db_Set])
  note S = Set_ok [OF new_db(1) s]
  show ?thesis
    using s S(2) new_db(2) Database_KeyCount_live [OF S(1), of 5 5 0 "FromKey ''a''"] by auto
qed

text \<open>
  C15: in every reachable database the two tables of each index satisfy the table invariant, and
  no key has an expiry time without a value.
\<close>

theorem Database_no_orphan_expiry:
  assumes "db_reachable db"
  shows "db_inv db \<and>
    (i < kNumDBs \<longrightarrow> nt_Find (expire_tables db ! i) k \<noteq> None \<longrightarrow> nt_Find (tables db ! i) k \<noteq> None)"
  using db_reachable_inv [OF assms] db_invD(8) [OF db_reachable_inv [OF assms], of i k]
  unfolding db_get_def db_expiry_def by metis

theorem Database_no_orphan_expiry_witness: "db_inv (ClearAll (Database_new 31))"
proof -
  have "db_reachable (ClearAll (Database_new 31))"
    by (intro db_reachable.clear_all db_reachable.new) simp
  then show ?thesis using Database_no_orphan_expiry by blast
qed

end
