(* ===== verification/Resp_Protocol.thy ===== *)
theory Resp_Protocol
  imports Nano_Obj
begin

text \<open>
  \<open>include/protocol/resp_parser.h\<close> and \<open>src/protocol/resp_parser.cc\<close>: the reply builders and
  the request parser.

  The parser's state is its receive buffer with the two indices, the two flags and the socket.
  The socket is the list of byte blocks that successive \<open>recv\<close> calls find; \<open>recv\<close> takes at
  most 8192 bytes of the first block and writes them at the front of the buffer, whose remaining
  bytes keep their old contents.  A \<open>string_view\<close> into the buffer is a position and a length
  (\<open>BufView\<close>) and is read when the code reads it, so that a view taken before a refill sees the
  new bytes, as in the program.  \<open>mem_limit\<close> is the largest allocation that succeeds.
\<close>

section \<open>Reply builders\<close>

definition CR :: char where "CR = CHR 0x0D"
definition LF :: char where "LF = CHR 0x0A"
definition CRLF :: string where "CRLF = [CR, LF]"

definition OkResponse :: string where "OkResponse = ''+OK'' @ CRLF"
definition PongResponse :: string where "PongResponse = ''+PONG'' @ CRLF"
definition NullBulkResponse :: string where "NullBulkResponse = ''$-1'' @ CRLF"
definition EmptyArrayResponse :: string where "EmptyArrayResponse = ''*0'' @ CRLF"

text \<open>\<open>ToChars\<close> into a buffer of 24 bytes.\<close>

definition ToChars :: "int \<Rightarrow> string option" where
  "ToChars value = (let s = to_string value in if length s \<le> 24 then Some s else None)"

definition MakeSimpleString :: "string \<Rightarrow> string" where
  "MakeSimpleString s = ''+'' @ s @ CRLF"

definition MakeError :: "string \<Rightarrow> string" where
  "MakeError msg = ''-ERR '' @ msg @ CRLF"

definition MakeBulkString :: "string \<Rightarrow> string" where
  "MakeBulkString s =
     (case ToChars (int (length s)) of
        None \<Rightarrow> ''$-1'' @ CRLF
      | Some n \<Rightarrow> ''$'' @ n @ CRLF @ s @ CRLF)"

definition MakeNullBulkString :: string where
  "MakeNullBulkString = ''$-1'' @ CRLF"

definition MakeInteger :: "int \<Rightarrow> string" where
  "MakeInteger value =
     (case ToChars value of None \<Rightarrow> '':0'' @ CRLF | Some n \<Rightarrow> '':'' @ n @ CRLF)"

definition MakeArray :: "int \<Rightarrow> string" where
  "MakeArray cnt =
     (case ToChars cnt of None \<Rightarrow> ''*0'' @ CRLF | Some n \<Rightarrow> ''*'' @ n @ CRLF)"

section \<open>Parser state\<close>

record resp_parser =
  buf :: string
  buffer_pos :: nat
  buffer_size :: nat
  allow_socket_read :: bool
  no_read_need_more :: bool
  stream :: "string list"
  mem_limit :: nat

definition RESPParser_new :: "nat \<Rightarrow> string list \<Rightarrow> resp_parser" where
  "RESPParser_new lim blocks =
     \<lparr>buf = [], buffer_pos = 0, buffer_size = 0, allow_socket_read = True,
      no_read_need_more = False, stream = blocks, mem_limit = lim\<rparr>"

datatype sview = BufView nat nat | Owned string

fun view_str :: "resp_parser \<Rightarrow> sview \<Rightarrow> string" where
  "view_str p (BufView off len) = take len (drop off (buf p))"
| "view_str p (Owned s) = s"

definition HasBufferedData :: "resp_parser \<Rightarrow> bool" where
  "HasBufferedData p \<longleftrightarrow> buffer_pos p < buffer_size p"

text \<open>The unread bytes of the buffer.\<close>

definition unread :: "resp_parser \<Rightarrow> string" where
  "unread p = take (buffer_size p - buffer_pos p) (drop (buffer_pos p) (buf p))"

section \<open>Reading\<close>

definition FillBuffer :: "resp_parser \<Rightarrow> resp_parser \<times> bool" where
  "FillBuffer p =
     (if buffer_pos p \<ge> buffer_size p then
        (if \<not> allow_socket_read p then (p\<lparr>no_read_need_more := True\<rparr>, False)
         else case stream p of
             [] \<Rightarrow> (p, False)
           | block # blocks \<Rightarrow>
               let n = min (length block) 8192 in
               if n = 0 then (p\<lparr>stream := blocks\<rparr>, False)
               else (p\<lparr>buf := take n block @ drop n (buf p), buffer_size := n, buffer_pos := 0,
                       stream := (if n < length block then drop n block # blocks else blocks)\<rparr>, True))
      else (p, True))"

definition ReadChar :: "resp_parser \<Rightarrow> resp_parser \<times> char" where
  "ReadChar p =
     (case FillBuffer p of
        (p, ok) \<Rightarrow>
          if \<not> ok then (p, CHR 0x00)
          else (p\<lparr>buffer_pos := buffer_pos p + 1\<rparr>, buf p ! buffer_pos p))"

definition ConsumeCRLF :: "bool \<Rightarrow> resp_parser \<Rightarrow> resp_parser" where
  "ConsumeCRLF term_is_cr p =
     (if \<not> term_is_cr then p
      else let p = (if buffer_pos p \<ge> buffer_size p then fst (FillBuffer p) else p)
           in if buffer_pos p < buffer_size p \<and> buf p ! buffer_pos p = LF
              then p\<lparr>buffer_pos := buffer_pos p + 1\<rparr> else p)"

text \<open>\<open>memchr\<close>: the index of the first occurrence.\<close>

fun memchr :: "char \<Rightarrow> string \<Rightarrow> nat option" where
  "memchr c [] = None"
| "memchr c (x # xs) = (if x = c then Some 0 else map_option Suc (memchr c xs))"

definition FindTerminator :: "string \<Rightarrow> (nat \<times> bool) option" where
  "FindTerminator s =
     (case (memchr LF s, memchr CR s) of
        (Some lf, Some cr) \<Rightarrow> if lf < cr then Some (lf, False) else Some (cr, True)
      | (Some lf, None) \<Rightarrow> Some (lf, False)
      | (None, Some cr) \<Rightarrow> Some (cr, True)
      | (None, None) \<Rightarrow> None)"

text \<open>The number of bytes that can still be read: it bounds the reading loops.\<close>

definition remaining :: "resp_parser \<Rightarrow> nat" where
  "remaining p = (buffer_size p - buffer_pos p) + length (concat (stream p))"

lemma FillBuffer_remaining:
  assumes "FillBuffer p = (p', True)"
  shows "remaining p' = remaining p" "buffer_pos p' < buffer_size p'"
  using assms
  by (auto simp: FillBuffer_def remaining_def Let_def min_def split: if_splits list.splits)

lemma FillBuffer_step:
  "(p', True) = FillBuffer p \<Longrightarrow> remaining (p'\<lparr>buffer_pos := buffer_size p'\<rparr>) < remaining p"
  using FillBuffer_remaining [of p p'] by (auto simp: remaining_def)

lemma FillBuffer_pos: "(p', True) = FillBuffer p \<Longrightarrow> buffer_pos p' < buffer_size p'"
  using FillBuffer_remaining(2) [of p p'] by simp

function ReadLineView_loop :: "resp_parser \<Rightarrow> string \<Rightarrow> bool \<Rightarrow> resp_parser \<times> sview option" where
  "ReadLineView_loop p scratch used_scratch =
     (case FillBuffer p of
        (p, ok) \<Rightarrow>
          if \<not> ok then (p, None)
          else (case FindTerminator (unread p) of
             None \<Rightarrow> ReadLineView_loop (p\<lparr>buffer_pos := buffer_size p\<rparr>) (scratch @ unread p) True
           | Some (seg_len, is_cr) \<Rightarrow>
               let out = (if used_scratch then Owned (scratch @ take seg_len (unread p))
                          else BufView (buffer_pos p) seg_len)
               in (ConsumeCRLF is_cr (p\<lparr>buffer_pos := buffer_pos p + seg_len + 1\<rparr>), Some out)))"
  by pat_completeness auto
termination
  by (relation "measure (\<lambda>(p, _, _). remaining p)")
    (auto intro: FillBuffer_step)

definition ReadLineView :: "resp_parser \<Rightarrow> resp_parser \<times> sview option" where
  "ReadLineView p = ReadLineView_loop p [] False"

text \<open>
  \<open>first_ptr\<close> points at the byte before the read position.  The view it starts ends at the
  terminator; when the buffer was refilled in between, the terminator can lie before it.
\<close>

function ReadInlineLineView_loop ::
    "resp_parser \<Rightarrow> char \<Rightarrow> nat option \<Rightarrow> string \<Rightarrow> bool \<Rightarrow> (resp_parser \<times> sview option) result" where
  "ReadInlineLineView_loop p first_char first_ptr scratch used_scratch =
     (case FillBuffer p of
        (p, ok) \<Rightarrow>
          if \<not> ok then Inr (p, None)
          else (case FindTerminator (unread p) of
             None \<Rightarrow>
               ReadInlineLineView_loop (p\<lparr>buffer_pos := buffer_size p\<rparr>) first_char first_ptr
                 ((if used_scratch then scratch else scratch @ [first_char]) @ unread p) True
           | Some (seg_len, is_cr) \<Rightarrow>
               let start = buffer_pos p;
                   done = (\<lambda>out. Inr (ConsumeCRLF is_cr (p\<lparr>buffer_pos := start + seg_len + 1\<rparr>), Some out))
               in if used_scratch then done (Owned (scratch @ take seg_len (unread p)))
                  else case first_ptr of
                      Some first \<Rightarrow>
                        if start + seg_len < first then Inl InvalidView
                        else done (BufView first (start + seg_len - first))
                    | None \<Rightarrow> done (Owned (scratch @ [first_char] @ take seg_len (unread p)))))"
  by pat_completeness auto
termination
  by (relation "measure (\<lambda>(p, _). remaining p)") (auto intro: FillBuffer_step)

definition ReadInlineLineView :: "resp_parser \<Rightarrow> char \<Rightarrow> (resp_parser \<times> sview option) result" where
  "ReadInlineLineView p first_char =
     ReadInlineLineView_loop p first_char
       (if buffer_pos p > 0 then Some (buffer_pos p - 1) else None) [] False"

definition ReadLine :: "resp_parser \<Rightarrow> resp_parser \<times> string" where
  "ReadLine p =
     (case ReadLineView p of
        (p, None) \<Rightarrow> (p, [])
      | (p, Some sv) \<Rightarrow> (p, view_str p sv))"

text \<open>The copying loop of \<open>ReadBulkString\<close> and \<open>ReadBulkStringInto\<close>: \<open>n\<close> bytes are still missing.\<close>

function read_bytes :: "resp_parser \<Rightarrow> nat \<Rightarrow> string \<Rightarrow> resp_parser \<times> string option" where
  "read_bytes p n acc =
     (if n = 0 then (p, Some acc)
      else case FillBuffer p of
          (p, ok) \<Rightarrow>
            if \<not> ok then (p, None)
            else let chunk = min (buffer_size p - buffer_pos p) n
            in read_bytes (p\<lparr>buffer_pos := buffer_pos p + chunk\<rparr>) (n - chunk)
                 (acc @ take chunk (unread p)))"
  by pat_completeness auto
termination
  by (relation "measure (\<lambda>(p, n, acc). n)")
    (auto dest: FillBuffer_pos)

declare ReadLineView_loop.simps [simp del] ReadInlineLineView_loop.simps [simp del]
  read_bytes.simps [simp del]

definition ReadBulkString :: "int \<Rightarrow> resp_parser \<Rightarrow> (resp_parser \<times> string) result" where
  "ReadBulkString len p =
     (if len < 0 then Inr (p, [])
      else if nat len > mem_limit p then Inl BadAlloc
      else case read_bytes p (nat len) [] of
          (p, None) \<Rightarrow> Inr (p, [])
        | (p, Some payload) \<Rightarrow>
            let p = fst (ReadChar p); p = fst (ReadChar p) in Inr (p, payload))"

definition ReadBulkStringInto :: "int \<Rightarrow> resp_parser \<Rightarrow> (resp_parser \<times> nano_obj option) result" where
  "ReadBulkStringInto len p =
     (if len < 0 then Inr (p, Some NullObj)
      else if nat len > kInlineLen \<and> nat len > mem_limit p then Inl BadAlloc
      else case read_bytes p (nat len) [] of
          (p, None) \<Rightarrow> Inr (p, None)
        | (p, Some payload) \<Rightarrow>
            let p = fst (ReadChar p); p = fst (ReadChar p)
            in Inr (p, Some (MaybeConvertToInt (FinalizePreparedString (PrepareStringBuffer payload)))))"

section \<open>Commands\<close>

definition is_blank :: "char \<Rightarrow> bool" where
  "is_blank c \<longleftrightarrow> c = CHR '' '' \<or> c = CHR 0x09"

function inline_tokens :: "string \<Rightarrow> string list" where
  "inline_tokens line =
     (case dropWhile is_blank line of
        [] \<Rightarrow> []
      | c # cs \<Rightarrow>
          takeWhile (\<lambda>x. \<not> is_blank x) (c # cs) # inline_tokens (dropWhile (\<lambda>x. \<not> is_blank x) (c # cs)))"
  by pat_completeness auto
termination
proof (relation "measure length")
  fix line c cs
  assume d: "dropWhile is_blank line = c # cs"
  then have "\<not> is_blank c" using hd_dropWhile [of is_blank line] by (simp add: d)
  then have "length (dropWhile (\<lambda>x. \<not> is_blank x) (c # cs)) < length (c # cs)"
    using length_dropWhile_le [of "\<lambda>x. \<not> is_blank x" cs] by simp
  also have "\<dots> \<le> length line" unfolding d [symmetric] by (rule length_dropWhile_le)
  finally show "(dropWhile (\<lambda>x. \<not> is_blank x) (c # cs), line) \<in> measure length" by simp
qed simp

declare inline_tokens.simps [simp del]

definition ParseInlineCommand :: "string \<Rightarrow> nano_obj list \<Rightarrow> nano_obj list \<times> int" where
  "ParseInlineCommand line args =
     (let args = args @ map FromKey (inline_tokens line) in (args, if args = [] then - 1 else 0))"

text \<open>One element of a command array; \<open>None\<close> is the error return.\<close>

definition ParseArray_element :: "resp_parser \<Rightarrow> (resp_parser \<times> nano_obj option) result" where
  "ParseArray_element p =
     (let (p, c) = ReadChar p;
          (p, c) = (if c = CR \<or> c = LF then ReadChar p else (p, c))
      in if c = CHR ''$'' then
           (case ReadLineView p of
              (p, None) \<Rightarrow> Inr (p, None)
            | (p, Some len_str) \<Rightarrow>
                (case String2ll (view_str p len_str) of
                   None \<Rightarrow> Inr (p, None)
                 | Some len \<Rightarrow> ReadBulkStringInto len p))
         else if c = CHR ''+'' \<or> c = CHR '':'' \<or> c = CHR ''-'' then
           (case ReadLineView p of
              (p, None) \<Rightarrow> Inr (p, None)
            | (p, Some sv) \<Rightarrow> Inr (p, Some (FromKey (view_str p sv))))
         else Inr (p, None))"

primrec ParseArray_loop ::
    "nat \<Rightarrow> resp_parser \<Rightarrow> nano_obj list \<Rightarrow> (resp_parser \<times> nano_obj list \<times> bool) result" where
  "ParseArray_loop 0 p args = Inr (p, args, True)"
| "ParseArray_loop (Suc n) p args =
     bind_r (ParseArray_element p) (\<lambda>(p, elem).
       case elem of
         None \<Rightarrow> Inr (p, args, False)
       | Some obj \<Rightarrow> ParseArray_loop n p (args @ [obj]))"

text \<open>\<open>std::vector<NanoObj>::max_size()\<close>, with 16-byte elements.\<close>

definition vector_max_size :: nat where "vector_max_size = (2 ^ 63 - 1) div 16"

definition ParseArray :: "resp_parser \<Rightarrow> nano_obj list \<Rightarrow> (resp_parser \<times> nano_obj list \<times> int) result" where
  "ParseArray p args =
     (case ReadLineView p of
        (p, None) \<Rightarrow> Inr (p, args, - 1)
      | (p, Some line) \<Rightarrow>
          if view_str p line = [] then Inr (p, args, - 1)
          else case String2ll (view_str p line) of
              None \<Rightarrow> Inr (p, args, - 1)
            | Some cnt \<Rightarrow>
                if cnt < 0 then Inr (p, args, 0)
                else if nat cnt > vector_max_size then Inl LengthError
                else if nat cnt * 16 > mem_limit p then Inl BadAlloc
                else bind_r (ParseArray_loop (nat cnt) p args) (\<lambda>(p, args, ok).
                       if ok then Inr (p, args, sint (of_nat (length args) :: 32 word))
                       else Inr (p, args, - 1)))"

definition ParseCommand :: "resp_parser \<Rightarrow> (resp_parser \<times> nano_obj list \<times> int) result" where
  "ParseCommand p =
     (let p = p\<lparr>no_read_need_more := False\<rparr>;
          (p, c) = ReadChar p
      in if c = CHR 0x00 then Inr (p, [], - 1)
         else if c = CHR ''*'' then ParseArray p []
         else bind_r (ReadInlineLineView p c) (\<lambda>(p, out).
                case out of
                  None \<Rightarrow> Inr (p, [], - 1)
                | Some line \<Rightarrow>
                    let (args, ret) = ParseInlineCommand (view_str p line) [] in Inr (p, args, ret)))"

datatype TryParseResult = OK | NEED_MORE | ERROR

definition TryParseCommandNoRead ::
    "resp_parser \<Rightarrow> (resp_parser \<times> nano_obj list \<times> TryParseResult) result" where
  "TryParseCommandNoRead p =
     bind_r (ParseCommand (p\<lparr>allow_socket_read := False\<rparr>)) (\<lambda>(p', args, ret).
       let need_more_data = no_read_need_more p';
           p' = p'\<lparr>allow_socket_read := allow_socket_read p\<rparr>
       in if ret \<ge> 0 then Inr (p', args, OK)
          else Inr (p'\<lparr>buffer_pos := buffer_pos p, buffer_size := buffer_size p\<rparr>, [],
                    if need_more_data then NEED_MORE else ERROR))"

datatype DataType = SIMPLE_STRING | ERROR_TYPE | INTEGER | BULK_STRING | ARRAY | INLINE_COMMAND

definition ParseValue :: "resp_parser \<Rightarrow> (resp_parser \<times> (DataType \<times> nano_obj) option) result" where
  "ParseValue p =
     (let (p, c) = ReadChar p;
          (p, c) = (if c = CR \<or> c = LF then ReadChar p else (p, c))
      in if c = CHR ''+'' \<or> c = CHR ''-'' \<or> c = CHR '':'' then
           (case ReadLineView p of
              (p, None) \<Rightarrow> Inr (p, None)
            | (p, Some sv) \<Rightarrow>
                if c = CHR ''+'' then Inr (p, Some (SIMPLE_STRING, FromKey (view_str p sv)))
                else if c = CHR ''-'' then Inr (p, Some (ERROR_TYPE, FromKey (view_str p sv)))
                else (case String2ll (view_str p sv) of
                        None \<Rightarrow> Inr (p, None)
                      | Some v \<Rightarrow> Inr (p, Some (INTEGER, FromInt v))))
         else if c = CHR ''$'' then
           (case ReadLineView p of
              (p, None) \<Rightarrow> Inr (p, None)
            | (p, Some sv) \<Rightarrow>
                (case String2ll (view_str p sv) of
                   None \<Rightarrow> Inr (p, None)
                 | Some len \<Rightarrow>
                     if len \<ge> 0 then
                       bind_r (ReadBulkStringInto len p) (\<lambda>(p, obj).
                         Inr (p, map_option (\<lambda>x. (BULK_STRING, x)) obj))
                     else Inr (p, Some (BULK_STRING, NullObj))))
         else Inr (p, None))"

section \<open>The byte stream the parser reads\<close>

text \<open>
  \<open>pending\<close> is what reading functions still have before them: the unread part of the buffer and,
  when they may read the socket, what it will deliver.  \<open>parser_ok\<close> says that the indices are
  within the buffer, that no \<open>recv\<close> is empty (end of file) and that no block ends in CR.
\<close>

definition pending :: "resp_parser \<Rightarrow> string" where
  "pending p = unread p @ (if allow_socket_read p then concat (stream p) else [])"

definition block_ok :: "string \<Rightarrow> bool" where
  "block_ok b \<longleftrightarrow> b \<noteq> [] \<and> length b \<le> 8192 \<and> last b \<noteq> CR"

definition parser_ok :: "resp_parser \<Rightarrow> bool" where
  "parser_ok p \<longleftrightarrow> buffer_pos p \<le> buffer_size p \<and> buffer_size p \<le> length (buf p) \<and>
     list_all block_ok (stream p) \<and>
     (allow_socket_read p \<longrightarrow> buffer_pos p < buffer_size p \<longrightarrow> buf p ! (buffer_size p - 1) \<noteq> CR)"

lemma length_unread: "parser_ok p \<Longrightarrow> length (unread p) = buffer_size p - buffer_pos p"
  by (auto simp: parser_ok_def unread_def)

lemma unread_nth: "parser_ok p \<Longrightarrow> i < buffer_size p - buffer_pos p \<Longrightarrow> unread p ! i = buf p ! (buffer_pos p + i)"
  by (auto simp: parser_ok_def unread_def)

lemma unread_advance:
  "parser_ok p \<Longrightarrow> k \<le> buffer_size p - buffer_pos p \<Longrightarrow>
   unread (p\<lparr>buffer_pos := buffer_pos p + k\<rparr>) = drop k (unread p)"
  by (auto simp: unread_def drop_take add.commute)

lemma parser_ok_advance:
  "parser_ok p \<Longrightarrow> k \<le> buffer_size p - buffer_pos p \<Longrightarrow> parser_ok (p\<lparr>buffer_pos := buffer_pos p + k\<rparr>)"
  by (auto simp: parser_ok_def)

lemma pending_advance:
  "parser_ok p \<Longrightarrow> k \<le> buffer_size p - buffer_pos p \<Longrightarrow>
   pending (p\<lparr>buffer_pos := buffer_pos p + k\<rparr>) = drop k (pending p)"
  by (simp add: pending_def unread_advance length_unread)

text \<open>What a reading step leaves alone.\<close>

definition same_mode :: "resp_parser \<Rightarrow> resp_parser \<Rightarrow> bool" where
  "same_mode p p' \<longleftrightarrow> mem_limit p' = mem_limit p \<and> allow_socket_read p' = allow_socket_read p"

lemma same_mode_refl [simp]: "same_mode p p"
  by (simp add: same_mode_def)

lemma same_mode_trans: "same_mode p q \<Longrightarrow> same_mode q r \<Longrightarrow> same_mode p r"
  by (simp add: same_mode_def)

lemma same_mode_pos [simp]: "same_mode p (q\<lparr>buffer_pos := k\<rparr>) = same_mode p q"
  by (simp add: same_mode_def)

lemma FillBuffer_buffered: "buffer_pos p < buffer_size p \<Longrightarrow> FillBuffer p = (p, True)"
  by (simp add: FillBuffer_def)

lemma FillBuffer_ok:
  assumes "parser_ok p" and "pending p \<noteq> []"
  obtains p' where "FillBuffer p = (p', True)" "parser_ok p'" "pending p' = pending p"
    "buffer_pos p' < buffer_size p'" "same_mode p p'"
proof (cases "buffer_pos p < buffer_size p")
  case True
  with assms show ?thesis by (intro that [of p]) (simp_all add: FillBuffer_buffered)
next
  case False
  then have u: "unread p = []" by (simp add: unread_def)
  with assms(2) have a: "allow_socket_read p" and "concat (stream p) \<noteq> []"
    by (auto simp: pending_def split: if_splits)
  then obtain b bs where s: "stream p = b # bs" by (cases "stream p") auto
  with assms(1) have b: "block_ok b" and bs: "list_all block_ok bs" by (auto simp: parser_ok_def)
  let ?p = "p\<lparr>buf := b @ drop (length b) (buf p), buffer_size := length b, buffer_pos := 0, stream := bs\<rparr>"
  have "FillBuffer p = (?p, True)"
    using False a s b by (auto simp: FillBuffer_def block_ok_def Let_def min_def)
  moreover have "parser_ok ?p"
    using b bs by (auto simp: parser_ok_def block_ok_def nth_append last_conv_nth)
  moreover have "pending ?p = pending p"
    using a s u by (simp add: pending_def unread_def)
  moreover have "0 < length b" using b by (auto simp: block_ok_def)
  ultimately show ?thesis by (intro that [of ?p]) (simp_all add: same_mode_def)
qed

lemma hd_pending: "parser_ok p \<Longrightarrow> buffer_pos p < buffer_size p \<Longrightarrow> pending p = c # cs \<Longrightarrow> buf p ! buffer_pos p = c"
  using unread_nth [of p 0] length_unread [of p]
  by (cases "unread p") (auto simp: pending_def)

lemma ReadChar_ok:
  assumes "parser_ok p" and "pending p = c # cs"
  obtains p' where "ReadChar p = (p', c)" "parser_ok p'" "pending p' = cs" "same_mode p p'"
proof -
  from assms obtain q where q: "FillBuffer p = (q, True)" "parser_ok q" "pending q = c # cs"
      "buffer_pos q < buffer_size q" "same_mode p q"
    by (metis FillBuffer_ok list.distinct(1))
  let ?q = "q\<lparr>buffer_pos := buffer_pos q + 1\<rparr>"
  have "parser_ok ?q" "pending ?q = cs"
    using parser_ok_advance [of q 1] pending_advance [of q 1] q by simp_all
  moreover have "ReadChar p = (?q, c)" using hd_pending [OF q(2,4,3)] q(1) by (simp add: ReadChar_def)
  ultimately show ?thesis using q(5) by (intro that [of ?q]) simp_all
qed

subsection \<open>Lines\<close>

lemma memchr_append: "c \<notin> set s \<Longrightarrow> memchr c (s @ t) = map_option (\<lambda>i. length s + i) (memchr c t)"
  by (induction s; cases "memchr c t") auto

lemma memchr_None [simp]: "memchr c s = None \<longleftrightarrow> c \<notin> set s"
  by (induction s) auto

lemma FindTerminator_None: "FindTerminator s = None \<longleftrightarrow> CR \<notin> set s \<and> LF \<notin> set s"
proof -
  have "FindTerminator s = None \<longleftrightarrow> memchr CR s = None \<and> memchr LF s = None"
    by (auto simp: FindTerminator_def simp del: memchr_None split: option.splits)
  then show ?thesis by simp
qed

lemma CR_LF [simp]: "CR \<noteq> LF" "LF \<noteq> CR"
  by (simp_all add: CR_def LF_def)

lemma FindTerminator_line:
  "CR \<notin> set line \<Longrightarrow> LF \<notin> set line \<Longrightarrow> FindTerminator (line @ CR # t) = Some (length line, True)"
  by (auto simp: FindTerminator_def memchr_append split: option.splits)

definition line_ok :: "string \<Rightarrow> bool" where
  "line_ok line \<longleftrightarrow> CR \<notin> set line \<and> LF \<notin> set line"

lemma line_in_buffer:
  assumes "parser_ok p" and "pending p = line @ CR # LF # rest" and "line_ok line"
    and "FindTerminator (unread p) \<noteq> None"
  obtains t where "unread p = line @ CR # LF # t"
proof -
  let ?s = "if allow_socket_read p then concat (stream p) else []"
  have e: "unread p @ ?s = line @ CR # LF # rest" using assms(2) by (simp add: pending_def)
  have "\<not> length (unread p) \<le> length line"
  proof
    assume "length (unread p) \<le> length line"
    then have "unread p = take (length (unread p)) line"
      using arg_cong [OF e, of "take (length (unread p))"] by simp
    then have "set (unread p) \<subseteq> set line" by (metis set_take_subset)
    with assms(3,4) show False by (auto simp: FindTerminator_None line_ok_def)
  qed
  then have l: "length line < length (unread p)" by simp
  have "Suc (length line) < length (unread p)"
  proof (rule ccontr)
    assume "\<not> Suc (length line) < length (unread p)"
    with l have n: "length (unread p) = Suc (length line)" by simp
    then have "unread p = line @ [CR]" using arg_cong [OF e, of "take (Suc (length line))"] by simp
    then have "unread p ! length line = CR" by simp
    moreover have "unread p ! length line = buf p ! (buffer_size p - 1)"
      using n length_unread [OF assms(1)] unread_nth [OF assms(1), of "length line"]
      by (auto intro: arg_cong [where f = "(!) (buf p)"])
    moreover have "buffer_pos p < buffer_size p" using n length_unread [OF assms(1)] by simp
    moreover have "allow_socket_read p"
      using e \<open>unread p = line @ [CR]\<close> by (auto split: if_splits)
    ultimately show False using assms(1) by (simp add: parser_ok_def)
  qed
  then have "unread p = line @ CR # LF # take (length (unread p) - Suc (Suc (length line))) rest"
    using arg_cong [OF e, of "take (length (unread p))"] l by (simp add: take_Cons')
  then show ?thesis by (rule that)
qed

lemma ConsumeCRLF_ok:
  assumes "parser_ok p" and "unread p = line @ CR # LF # t"
  shows "ConsumeCRLF True (p\<lparr>buffer_pos := buffer_pos p + length line + 1\<rparr>) =
    p\<lparr>buffer_pos := buffer_pos p + (length line + 2)\<rparr>"
proof -
  have l: "buffer_size p - buffer_pos p = length line + 2 + length t"
    using length_unread [OF assms(1)] assms(2) by simp
  then have "buf p ! (buffer_pos p + (length line + 1)) = LF"
    using unread_nth [OF assms(1), of "length line + 1"] assms(2) by (simp add: nth_append)
  with l show ?thesis by (simp add: ConsumeCRLF_def)
qed

lemma view_unread:
  "parser_ok p \<Longrightarrow> unread p = line @ t \<Longrightarrow> view_str (p\<lparr>buffer_pos := k\<rparr>) (BufView (buffer_pos p) (length line)) = line"
proof -
  assume "parser_ok p" and u: "unread p = line @ t"
  then have "length line \<le> buffer_size p - buffer_pos p" using length_unread [of p] by simp
  then have "take (length line) (drop (buffer_pos p) (buf p)) = take (length line) (unread p)"
    by (simp add: unread_def)
  then show ?thesis by (simp add: u)
qed

lemma unterminated_part:
  assumes "pending p = line @ CR # LF # rest" and "FindTerminator (unread p) = None"
  obtains line' where "line = unread p @ line'"
proof -
  have "CR \<notin> set (unread p)" using assms(2) by (simp add: FindTerminator_None)
  moreover have "unread p @ (if allow_socket_read p then concat (stream p) else []) = line @ CR # LF # rest"
    using assms(1) by (simp add: pending_def)
  ultimately have "\<exists>line'. line = unread p @ line'"
    unfolding append_eq_append_conv2 append_eq_Cons_conv by auto
  then show ?thesis using that by blast
qed

lemma ReadLineView_loop_ok:
  assumes "parser_ok p" and "pending p = line @ CR # LF # rest" and "line_ok line"
    and "\<not> used \<longrightarrow> scratch = []"
  shows "\<exists>p' v. ReadLineView_loop p scratch used = (p', Some v) \<and> view_str p' v = scratch @ line \<and>
    parser_ok p' \<and> pending p' = rest \<and> same_mode p p'"
  using assms
proof (induction p scratch used arbitrary: line rule: ReadLineView_loop.induct)
  case (1 p scratch used)
  obtain q where q: "FillBuffer p = (q, True)" "parser_ok q" "pending q = line @ CR # LF # rest"
      "buffer_pos q < buffer_size q" "same_mode p q"
    using 1(2,3) by (metis FillBuffer_ok append_is_Nil_conv list.distinct(1))
  show ?case
  proof (cases "FindTerminator (unread q)")
    case None
    from unterminated_part [OF q(3) None] obtain line' where l: "line = unread q @ line'" .
    let ?q = "q\<lparr>buffer_pos := buffer_size q\<rparr>"
    have a: "buffer_pos q + (buffer_size q - buffer_pos q) = buffer_size q" using q(4) by simp
    have "parser_ok ?q"
      using parser_ok_advance [OF q(2), of "buffer_size q - buffer_pos q"] unfolding a by simp
    moreover have "pending ?q = line' @ CR # LF # rest"
      using pending_advance [OF q(2), of "buffer_size q - buffer_pos q"] q(3) length_unread [OF q(2)]
      unfolding a by (simp add: l)
    moreover have "line_ok line'" using 1(4) by (simp add: l line_ok_def)
    ultimately obtain p' v where "ReadLineView_loop ?q (scratch @ unread q) True = (p', Some v)"
        "view_str p' v = (scratch @ unread q) @ line'" "parser_ok p'" "pending p' = rest" "same_mode ?q p'"
      using 1(1) [OF q(1) [symmetric] _ None] by blast
    moreover have "same_mode p p'" using \<open>same_mode ?q p'\<close> q(5) by (simp add: same_mode_def)
    ultimately show ?thesis using q(1) None by (simp add: ReadLineView_loop.simps [of p] l)
  next
    case (Some st)
    then obtain t where t: "unread q = line @ CR # LF # t"
      using line_in_buffer [OF q(2,3) 1(4)] by auto
    have le: "length line + 2 \<le> buffer_size q - buffer_pos q"
      using length_unread [OF q(2)] t by simp
    let ?q = "q\<lparr>buffer_pos := buffer_pos q + (length line + 2)\<rparr>"
    have "FindTerminator (unread q) = Some (length line, True)"
      using 1(4) by (simp add: t FindTerminator_line line_ok_def)
    then have "ReadLineView_loop p scratch used =
        (?q, Some (if used then Owned (scratch @ line) else BufView (buffer_pos q) (length line)))"
      using q(1) ConsumeCRLF_ok [OF q(2) t] t by (simp add: ReadLineView_loop.simps [of p])
    moreover have "parser_ok ?q" "pending ?q = rest"
      using parser_ok_advance [OF q(2) le] pending_advance [OF q(2) le] q(3) by simp_all
    ultimately show ?thesis using q(5) 1(5) view_unread [OF q(2) t] by auto
  qed
qed

lemma ReadLineView_ok:
  assumes "parser_ok p" and "pending p = line @ CRLF @ rest" and "line_ok line"
  obtains p' v where "ReadLineView p = (p', Some v)" "view_str p' v = line" "parser_ok p'"
    "pending p' = rest" "same_mode p p'"
  using ReadLineView_loop_ok [of p line rest False "[]"] assms
  by (auto simp: ReadLineView_def CRLF_def)

subsection \<open>Bulk strings\<close>

lemma read_bytes_ok:
  assumes "parser_ok p" and "pending p = payload @ rest" and "length payload = n"
  shows "\<exists>p'. read_bytes p n acc = (p', Some (acc @ payload)) \<and> parser_ok p' \<and> pending p' = rest \<and>
    same_mode p p'"
  using assms
proof (induction p n acc arbitrary: payload rule: read_bytes.induct)
  case (1 p n acc)
  show ?case
  proof (cases "n = 0")
    case True
    with 1 show ?thesis by (simp add: read_bytes.simps [of p])
  next
    case False
    with 1(3,4) have "pending p \<noteq> []" by auto
    with 1(2,3) obtain q where q: "FillBuffer p = (q, True)" "parser_ok q" "pending q = payload @ rest"
        "buffer_pos q < buffer_size q" "same_mode p q"
      by (metis FillBuffer_ok)
    let ?c = "min (buffer_size q - buffer_pos q) n"
    let ?q = "q\<lparr>buffer_pos := buffer_pos q + ?c\<rparr>"
    have k: "parser_ok ?q" "pending ?q = drop ?c payload @ rest"
      using parser_ok_advance [OF q(2), of ?c] pending_advance [OF q(2), of ?c] q(3) 1(4) by simp_all
    have "take ?c (unread q) = take ?c (pending q)" using length_unread [OF q(2)] by (simp add: pending_def)
    then have tk: "take ?c (unread q) = take ?c payload" using q(3) 1(4) by simp
    obtain p' where "read_bytes ?q (n - ?c) (acc @ take ?c (unread q)) =
        (p', Some ((acc @ take ?c (unread q)) @ drop ?c payload))" "parser_ok p'" "pending p' = rest" "same_mode ?q p'"
      using 1(1) [OF False q(1) [symmetric] _ refl k] 1(4) by auto
    then show ?thesis using False q(1,5) tk
      by (simp add: read_bytes.simps [of p] Let_def same_mode_def)
  qed
qed

lemma ReadBulkStringInto_ok:
  assumes "parser_ok p" and "pending p = payload @ CRLF @ rest"
    and "length payload \<le> mem_limit p" and "length payload < 65536"
  obtains p' where "ReadBulkStringInto (int (length payload)) p = Inr (p', Some (FromKey payload))"
    "parser_ok p'" "pending p' = rest" "same_mode p p'"
proof -
  from read_bytes_ok [OF assms(1,2) refl, of "[]"] obtain q where
    q: "read_bytes p (length payload) [] = (q, Some payload)" "parser_ok q" "pending q = CR # LF # rest" "same_mode p q"
    by (auto simp: CRLF_def)
  obtain r where r: "ReadChar q = (r, CR)" "parser_ok r" "pending r = LF # rest" "same_mode q r"
    by (rule ReadChar_ok [OF q(2,3)])
  obtain s where s: "ReadChar r = (s, LF)" "parser_ok s" "pending s = rest" "same_mode r s"
    by (rule ReadChar_ok [OF r(2,3)])
  have "ReadBulkStringInto (int (length payload)) p = Inr (s, Some (FromKey payload))"
    using q(1) r(1) s(1) assms(3) bulk_object_eq_FromKey [OF assms(4)]
    by (simp add: ReadBulkStringInto_def)
  then show ?thesis using s q(4) r(4) by (intro that [of s]) (auto simp: same_mode_def)
qed

section \<open>Requests\<close>

text \<open>A request as a client sends it: an array of bulk strings.\<close>

definition encode_command :: "string list \<Rightarrow> string" where
  "encode_command args = MakeArray (int (length args)) @ concat (map MakeBulkString args)"

lemma to_string_line_ok: "line_ok (to_string v)"
proof -
  have "c \<noteq> CR \<and> c \<noteq> LF" if "c \<in> set (to_string v)" for c
    using that set_to_digits [of c] digit_not_special [of c]
    by (auto simp: to_string_def CR_def LF_def is_digit_def split: if_splits)
  then show ?thesis by (auto simp: line_ok_def)
qed

lemma ToChars_int: "in_int64 v \<Longrightarrow> ToChars v = Some (to_string v)"
  using length_to_string [of v] by (simp add: ToChars_def Let_def)

lemma in_int64_nat: "n < 2 ^ 63 \<Longrightarrow> in_int64 (int n)"
  by (simp add: in_int64_def INT64_MAX_def INT64_MIN_def)

lemma MakeBulkString_short:
  "length s < 65536 \<Longrightarrow> MakeBulkString s = CHR ''$'' # to_string (int (length s)) @ CRLF @ s @ CRLF"
  using ToChars_int [OF in_int64_nat [of "length s"]] by (simp add: MakeBulkString_def)

lemma ParseArray_element_ok:
  assumes "parser_ok p" and "pending p = MakeBulkString s @ rest"
    and "length s \<le> mem_limit p" and "length s < 65536"
  obtains p' where "ParseArray_element p = Inr (p', Some (FromKey s))" "parser_ok p'" "pending p' = rest" "same_mode p p'"
proof -
  from assms(2) have e: "pending p = CHR ''$'' # to_string (int (length s)) @ CRLF @ s @ CRLF @ rest"
    by (simp add: MakeBulkString_short [OF assms(4)])
  obtain q where q: "ReadChar p = (q, CHR ''$'')" "parser_ok q"
      "pending q = to_string (int (length s)) @ CRLF @ s @ CRLF @ rest" "same_mode p q"
    by (rule ReadChar_ok [OF assms(1) e])
  obtain r v where r: "ReadLineView q = (r, Some v)" "view_str r v = to_string (int (length s))" "parser_ok r"
      "pending r = s @ CRLF @ rest" "same_mode q r"
    by (rule ReadLineView_ok [OF q(2,3) to_string_line_ok])
  have "length s \<le> mem_limit r" using assms(3) q(4) r(5) by (simp add: same_mode_def)
  then obtain t where t: "ReadBulkStringInto (int (length s)) r = Inr (t, Some (FromKey s))" "parser_ok t"
      "pending t = rest" "same_mode r t"
    using ReadBulkStringInto_ok [OF r(3,4) _ assms(4)] by blast
  have "ParseArray_element p = Inr (t, Some (FromKey s))"
    using q(1) r(1,2) t(1) String2ll_to_string [OF in_int64_nat [of "length s"]] assms(4)
    by (simp add: ParseArray_element_def CR_def LF_def)
  then show ?thesis using t q(4) r(5) by (intro that [of t]) (auto simp: same_mode_def)
qed

lemma ParseArray_loop_ok:
  assumes "parser_ok p" and "pending p = concat (map MakeBulkString args) @ rest"
    and "list_all (\<lambda>s. length s \<le> mem_limit p \<and> length s < 65536) args"
  shows "\<exists>p'. ParseArray_loop (length args) p acc = Inr (p', acc @ map FromKey args, True) \<and>
    parser_ok p' \<and> pending p' = rest \<and> same_mode p p'"
  using assms
proof (induction args arbitrary: p acc)
  case Nil
  then show ?case by simp
next
  case (Cons s args)
  from Cons.prems obtain q where q: "ParseArray_element p = Inr (q, Some (FromKey s))" "parser_ok q"
      "pending q = concat (map MakeBulkString args) @ rest" "same_mode p q"
    using ParseArray_element_ok [of p s "concat (map MakeBulkString args) @ rest"] by auto
  have "list_all (\<lambda>s. length s \<le> mem_limit q \<and> length s < 65536) args"
    using Cons.prems(3) q(4) by (simp add: same_mode_def)
  from Cons.IH [OF q(2,3) this, of "acc @ [FromKey s]"] q(1,4) show ?case
    by (auto simp: same_mode_def)
qed

lemma ParseArray_ok:
  assumes "parser_ok p" and "pending p = to_string (int (length args)) @ CRLF @ concat (map MakeBulkString args) @ rest"
    and "list_all (\<lambda>s. length s \<le> mem_limit p \<and> length s < 65536) args"
    and "length args < 2 ^ 31" and "16 * length args \<le> mem_limit p"
  obtains p' where "ParseArray p [] = Inr (p', map FromKey args, int (length args))" "parser_ok p'"
    "pending p' = rest" "same_mode p p'"
proof -
  obtain q v where q: "ReadLineView p = (q, Some v)" "view_str q v = to_string (int (length args))" "parser_ok q"
      "pending q = concat (map MakeBulkString args) @ rest" "same_mode p q"
    by (rule ReadLineView_ok [OF assms(1,2) to_string_line_ok])
  have m: "mem_limit q = mem_limit p" using q(5) by (simp add: same_mode_def)
  obtain r where r: "ParseArray_loop (length args) q [] = Inr (r, map FromKey args, True)" "parser_ok r"
      "pending r = rest" "same_mode q r"
    using ParseArray_loop_ok [OF q(3,4), of "[]"] assms(3) by (auto simp: m)
  have i: "String2ll (to_string (int (length args))) = Some (int (length args))"
    using assms(4) by (intro String2ll_to_string in_int64_nat) simp
  have w: "sint (of_nat (length args) :: 32 word) = int (length args)"
    using assms(4) by (simp add: signed_of_nat signed_take_bit_int_eq_self)
  have "ParseArray p [] = Inr (r, map FromKey args, int (length args))"
    using q(1,2) r(1) i w assms(4,5) m
    by (simp add: ParseArray_def vector_max_size_def)
  then show ?thesis using r q(5) by (intro that [of r]) (auto simp: same_mode_def)
qed

lemma no_read_need_more_update [simp]:
  "parser_ok (p\<lparr>no_read_need_more := b\<rparr>) = parser_ok p"
  "pending (p\<lparr>no_read_need_more := b\<rparr>) = pending p"
  "same_mode (p\<lparr>no_read_need_more := b\<rparr>) q = same_mode p q"
  by (simp_all add: parser_ok_def pending_def unread_def same_mode_def)

lemma encode_command_eq:
  "length args < 2 ^ 31 \<Longrightarrow> encode_command args =
     CHR ''*'' # to_string (int (length args)) @ CRLF @ concat (map MakeBulkString args)"
  using ToChars_int [OF in_int64_nat [of "length args"]] by (simp add: encode_command_def MakeArray_def)

text \<open>The requests that fit: what the program can hold of the arguments.\<close>

definition request_ok :: "nat \<Rightarrow> string list \<Rightarrow> bool" where
  "request_ok lim args \<longleftrightarrow> list_all (\<lambda>s. length s \<le> lim \<and> length s < 65536) args \<and>
     length args < 2 ^ 31 \<and> 16 * length args \<le> lim"

lemma ParseCommand_ok:
  assumes "parser_ok p" and "pending p = encode_command args @ rest" and "request_ok (mem_limit p) args"
  obtains p' where "ParseCommand p = Inr (p', map FromKey args, int (length args))" "parser_ok p'"
    "pending p' = rest" "same_mode p p'"
proof -
  let ?p = "p\<lparr>no_read_need_more := False\<rparr>"
  have e: "pending ?p = CHR ''*'' # to_string (int (length args)) @ CRLF @ concat (map MakeBulkString args) @ rest"
    using assms(2,3) encode_command_eq by (simp add: request_ok_def)
  obtain q where q: "ReadChar ?p = (q, CHR ''*'')" "parser_ok q"
      "pending q = to_string (int (length args)) @ CRLF @ concat (map MakeBulkString args) @ rest" "same_mode ?p q"
    using assms(1) by (auto intro: ReadChar_ok [OF _ e])
  have "mem_limit q = mem_limit p" using q(4) by (simp add: same_mode_def)
  with assms(3) obtain r where r: "ParseArray q [] = Inr (r, map FromKey args, int (length args))" "parser_ok r"
      "pending r = rest" "same_mode q r"
    by (auto simp: request_ok_def intro: ParseArray_ok [OF q(2,3)])
  have "ParseCommand p = Inr (r, map FromKey args, int (length args))"
    using q(1) r(1) by (simp add: ParseCommand_def)
  then show ?thesis using r q(4) by (intro that [of r]) (auto simp: same_mode_def)
qed

lemma map_ToString_FromKey: "list_all (\<lambda>s. length s < 65536) args \<Longrightarrow> map ToString (map FromKey args) = args"
  by (induction args) (simp_all add: ToString_FromKey_short)

lemma RESPParser_new_pending [simp]: "pending (RESPParser_new lim blocks) = concat blocks"
  by (simp add: pending_def RESPParser_new_def unread_def)

lemma RESPParser_new_ok [simp]: "parser_ok (RESPParser_new lim blocks) \<longleftrightarrow> list_all block_ok blocks"
  by (simp add: parser_ok_def RESPParser_new_def)

lemma RESPParser_new_fields [simp]: "mem_limit (RESPParser_new lim blocks) = lim"
  by (simp add: RESPParser_new_def)

section \<open>What the reading functions do to the parser\<close>

text \<open>
  A relation between a parser and a later one that holds for the elementary steps (a refill, an
  advance of the position, a change of the flag) holds for every reading function.
\<close>

locale parser_relation =
  fixes R :: "resp_parser \<Rightarrow> resp_parser \<Rightarrow> bool"
  assumes R_refl: "R p p"
    and R_trans: "R p q \<Longrightarrow> R q r \<Longrightarrow> R p r"
    and R_advance: "buffer_pos p \<le> k \<Longrightarrow> R p (p\<lparr>buffer_pos := k\<rparr>)"
    and R_flag: "R p (p\<lparr>no_read_need_more := b\<rparr>)"
    and R_FillBuffer: "FillBuffer p = (q, b) \<Longrightarrow> R p q"
begin

lemma R_pos: "R p q \<Longrightarrow> buffer_pos q \<le> k \<Longrightarrow> R p (q\<lparr>buffer_pos := k\<rparr>)"
  by (rule R_trans [OF _ R_advance])

lemma R_ReadChar: "ReadChar p = (q, c) \<Longrightarrow> R p q"
  by (auto simp: ReadChar_def split: prod.splits if_splits dest: R_FillBuffer intro: R_pos)

lemma R_ConsumeCRLF: "R p q \<Longrightarrow> R p (ConsumeCRLF b q)"
proof -
  assume q: "R p q"
  moreover have "R q (fst (FillBuffer q))" by (rule R_FillBuffer [of q _ "snd (FillBuffer q)"]) simp
  ultimately have "R p (fst (FillBuffer q))" by (rule R_trans)
  with q show ?thesis by (auto simp: ConsumeCRLF_def Let_def intro: R_pos)
qed

lemma R_ReadLineView_loop: "ReadLineView_loop p scratch used = (q, out) \<Longrightarrow> R p q"
proof (induction p scratch used rule: ReadLineView_loop.induct)
  case (1 p scratch used)
  obtain r b where r: "FillBuffer p = (r, b)" by (cases "FillBuffer p")
  note f = R_FillBuffer [OF r]
  show ?case
  proof (cases "b \<and> FindTerminator (unread r) = None")
    case True
    then have "R (r\<lparr>buffer_pos := buffer_size r\<rparr>) q"
      using 1 r by (simp add: ReadLineView_loop.simps [of p])
    moreover have "buffer_pos r \<le> buffer_size r" using FillBuffer_remaining(2) [of p r] r True by simp
    ultimately show ?thesis using R_trans [OF R_pos [OF f]] by blast
  next
    case False
    with 1(2) r f show ?thesis
      by (auto simp: ReadLineView_loop.simps [of p] Let_def intro!: R_ConsumeCRLF R_pos
          split: if_splits option.splits prod.splits)
  qed
qed

lemma R_ReadLineView: "ReadLineView p = (q, out) \<Longrightarrow> R p q"
  by (auto simp: ReadLineView_def dest: R_ReadLineView_loop)

lemma R_ReadInlineLineView_loop: "ReadInlineLineView_loop p c first scratch used = Inr (q, out) \<Longrightarrow> R p q"
proof (induction p c first scratch used rule: ReadInlineLineView_loop.induct)
  case (1 p c first scratch used)
  obtain r b where r: "FillBuffer p = (r, b)" by (cases "FillBuffer p")
  note f = R_FillBuffer [OF r]
  show ?case
  proof (cases "b \<and> FindTerminator (unread r) = None")
    case True
    then have "R (r\<lparr>buffer_pos := buffer_size r\<rparr>) q"
      using 1 r by (simp add: ReadInlineLineView_loop.simps [of p])
    moreover have "buffer_pos r \<le> buffer_size r" using FillBuffer_remaining(2) [of p r] r True by simp
    ultimately show ?thesis using R_trans [OF R_pos [OF f]] by blast
  next
    case False
    with 1(2) r f show ?thesis
      by (auto simp: ReadInlineLineView_loop.simps [of p] Let_def intro!: R_ConsumeCRLF R_pos
          split: if_splits option.splits prod.splits if_splits)
  qed
qed

lemma R_read_bytes: "read_bytes p n acc = (q, out) \<Longrightarrow> R p q"
proof (induction p n acc rule: read_bytes.induct)
  case (1 p n acc)
  obtain r b where r: "FillBuffer p = (r, b)" by (cases "FillBuffer p")
  note f = R_FillBuffer [OF r]
  show ?case
  proof (cases "n \<noteq> 0 \<and> b")
    case True
    then have "R (r\<lparr>buffer_pos := buffer_pos r + min (buffer_size r - buffer_pos r) n\<rparr>) q"
      using 1 r by (simp add: read_bytes.simps [of p] Let_def)
    then show ?thesis by (rule R_trans [OF R_pos [OF f], rotated]) simp
  next
    case False
    with 1(2) r f R_refl show ?thesis by (auto simp: read_bytes.simps [of p] split: if_splits)
  qed
qed

lemma R_ReadChar_fst: "R p q \<Longrightarrow> R p (fst (ReadChar q))"
  by (rule R_trans [OF _ R_ReadChar [of q _ "snd (ReadChar q)"]]) simp_all

lemma R_ReadBulkStringInto: "ReadBulkStringInto len p = Inr (q, out) \<Longrightarrow> R p q"
  using R_refl by (auto simp: ReadBulkStringInto_def Let_def split: if_splits prod.splits option.splits
      dest!: R_read_bytes intro!: R_ReadChar_fst)

lemma R_ParseArray_element:
  assumes "ParseArray_element p = Inr (q, out)"
  shows "R p q"
proof -
  obtain r c where r: "ReadChar p = (r, c)" by (cases "ReadChar p")
  obtain s d where s: "(if c = CR \<or> c = LF then ReadChar r else (r, c)) = (s, d)"
    by (cases "if c = CR \<or> c = LF then ReadChar r else (r, c)")
  have "R p s"
    using R_ReadChar [OF r] R_ReadChar [of r s d] s by (auto intro: R_trans split: if_splits)
  moreover have "R s q"
  proof (cases "d = CHR ''$''")
    case True
    with assms r s show ?thesis
      by (auto simp: ParseArray_element_def split: prod.splits option.splits
          intro: R_trans dest!: R_ReadLineView R_ReadBulkStringInto)
  next
    case False
    with assms r s R_refl show ?thesis
      by (auto simp: ParseArray_element_def split: prod.splits option.splits if_splits
          dest!: R_ReadLineView)
  qed
  ultimately show ?thesis by (rule R_trans)
qed

lemma R_ParseArray_loop: "ParseArray_loop n p args = Inr (q, out) \<Longrightarrow> R p q"
proof (induction n arbitrary: p args)
  case (Suc n)
  then obtain r elem where r: "ParseArray_element p = Inr (r, elem)"
    by (auto simp: bind_r_Inr_iff)
  from R_ParseArray_element [OF r] Suc.prems r show ?case
    by (auto split: option.splits dest!: Suc.IH intro: R_trans)
qed (simp add: R_refl)

lemma R_ParseArray: "ParseArray p args = Inr (q, out) \<Longrightarrow> R p q"
  by (auto simp: ParseArray_def bind_r_Inr_iff split: prod.splits option.splits if_splits
      dest!: R_ReadLineView R_ParseArray_loop intro: R_trans)

lemma R_ParseCommand:
  assumes "ParseCommand p = Inr (q, out)"
  shows "R p q"
proof -
  obtain r c where r: "ReadChar (p\<lparr>no_read_need_more := False\<rparr>) = (r, c)"
    by (cases "ReadChar (p\<lparr>no_read_need_more := False\<rparr>)")
  have "R p r" using R_trans [OF R_flag R_ReadChar [OF r]] .
  moreover have "R r q"
    using assms r R_refl by (auto simp: ParseCommand_def bind_r_Inr_iff ReadInlineLineView_def Let_def
        split: prod.splits option.splits if_splits dest: R_ParseArray R_ReadInlineLineView_loop)
  ultimately show ?thesis by (rule R_trans)
qed

end

text \<open>With reads disabled only the position and the \<open>no_read_need_more\<close> flag change.\<close>

definition frozen :: "resp_parser \<Rightarrow> resp_parser \<Rightarrow> bool" where
  "frozen p p' \<longleftrightarrow> \<not> allow_socket_read p \<longrightarrow>
     p' = p\<lparr>buffer_pos := buffer_pos p', no_read_need_more := no_read_need_more p'\<rparr>"

interpretation still: parser_relation frozen
proof unfold_locales
  show "frozen p r" if "frozen p q" "frozen q r" for p q r
    using that by (auto simp: frozen_def dest: arg_cong [of _ _ allow_socket_read])
      (metis (no_types, lifting) resp_parser.surjective resp_parser.update_convs(2,5) resp_parser.select_convs)
qed (auto simp: frozen_def FillBuffer_def split: if_splits)

text \<open>
  Blocks are taken from the socket whole and in order, and what is unread is part of the last one
  taken.
\<close>

definition consumes :: "resp_parser \<Rightarrow> resp_parser \<Rightarrow> bool" where
  "consumes p q \<longleftrightarrow> (list_all block_ok (stream p) \<longrightarrow> (\<exists>k \<le> length (stream p). stream q = drop k (stream p) \<and>
     buffer_size q - buffer_pos q \<le> (if k = 0 then buffer_size p - buffer_pos p else length (stream p ! (k - 1)))))"

lemma consumes_trans:
  assumes "consumes p q" "consumes q r"
  shows "consumes p r"
  unfolding consumes_def
proof
  assume b: "list_all block_ok (stream p)"
  then obtain k where k: "k \<le> length (stream p)" "stream q = drop k (stream p)"
    "buffer_size q - buffer_pos q \<le> (if k = 0 then buffer_size p - buffer_pos p else length (stream p ! (k - 1)))"
    using assms(1) by (auto simp: consumes_def)
  have "list_all block_ok (stream q)" using b k(2) by (auto simp: list_all_iff dest: in_set_dropD)
  then obtain m where m: "m \<le> length (stream q)" "stream r = drop m (stream q)"
    "buffer_size r - buffer_pos r \<le> (if m = 0 then buffer_size q - buffer_pos q else length (stream q ! (m - 1)))"
    using assms(2) by (auto simp: consumes_def)
  have "m \<noteq> 0 \<Longrightarrow> stream q ! (m - 1) = stream p ! (k + m - 1)" using k m(1) by (auto simp: nth_drop)
  then have "buffer_size r - buffer_pos r \<le> (if k + m = 0 then buffer_size p - buffer_pos p else length (stream p ! (k + m - 1)))"
    using k(3) m(3) by (cases m) auto
  then show "\<exists>k \<le> length (stream p). stream r = drop k (stream p) \<and>
      buffer_size r - buffer_pos r \<le> (if k = 0 then buffer_size p - buffer_pos p else length (stream p ! (k - 1)))"
    using k(1,2) m(1,2) by (intro exI [of _ "k + m"]) (auto simp: add.commute)
qed

interpretation reading: parser_relation consumes
proof unfold_locales
  show "consumes p q" if f: "FillBuffer p = (q, b)" for p q b
  proof (cases "buffer_pos p \<ge> buffer_size p \<and> allow_socket_read p \<and> stream p \<noteq> []")
    case True
    then obtain bl bls where s: "stream p = bl # bls" by (cases "stream p") auto
    with True f show ?thesis
      unfolding consumes_def by (auto simp: FillBuffer_def Let_def block_ok_def min_def split: if_splits intro!: exI [of _ "Suc 0"])
  next
    case False
    then have "stream q = stream p" "buffer_size q - buffer_pos q = buffer_size p - buffer_pos p"
      using f by (auto simp: FillBuffer_def split: if_splits list.splits)
    then show ?thesis unfolding consumes_def by (intro impI exI [of _ 0]) simp
  qed
  show "consumes p r" if "consumes p q" "consumes q r" for p q r using that by (rule consumes_trans)
  show "consumes p (p\<lparr>buffer_pos := k\<rparr>)" if "buffer_pos p \<le> k" for p k
    unfolding consumes_def using that by (intro impI exI [of _ 0]) simp
  show "consumes p p" "consumes p (p\<lparr>no_read_need_more := b\<rparr>)" for p b
    unfolding consumes_def by (intro impI exI [of _ 0], simp)+
qed

section \<open>Parsing without reading the socket\<close>

lemma TryParse_frozen:
  assumes "TryParseCommandNoRead p = Inr (q, args, r)"
  shows "q = p\<lparr>buffer_pos := buffer_pos q, no_read_need_more := no_read_need_more q\<rparr>"
    and "r \<noteq> OK \<Longrightarrow> buffer_pos q = buffer_pos p \<and> args = []"
proof -
  from assms obtain p' args' ret where c: "ParseCommand (p\<lparr>allow_socket_read := False\<rparr>) = Inr (p', args', ret)"
    by (auto simp: TryParseCommandNoRead_def bind_r_Inr_iff)
  have "p' = (p\<lparr>allow_socket_read := False\<rparr>)\<lparr>buffer_pos := buffer_pos p', no_read_need_more := no_read_need_more p'\<rparr>"
    using still.R_ParseCommand [OF c] by (simp add: frozen_def)
  then have s: "p'\<lparr>allow_socket_read := allow_socket_read p\<rparr> =
      p\<lparr>buffer_pos := buffer_pos p', no_read_need_more := no_read_need_more p'\<rparr>"
    by (cases p, cases p') simp
  show "q = p\<lparr>buffer_pos := buffer_pos q, no_read_need_more := no_read_need_more q\<rparr>"
    using assms by (auto simp: TryParseCommandNoRead_def c Let_def s split: if_splits)
  show "r \<noteq> OK \<Longrightarrow> buffer_pos q = buffer_pos p \<and> args = []"
    using assms by (auto simp: TryParseCommandNoRead_def c Let_def s split: if_splits)
qed

lemma parser_ok_no_read: "parser_ok p \<Longrightarrow> parser_ok (p\<lparr>allow_socket_read := False\<rparr>)"
  by (simp add: parser_ok_def)

lemma pending_no_read [simp]: "pending (p\<lparr>allow_socket_read := False\<rparr>) = unread p"
  by (simp add: pending_def unread_def)

section \<open>Properties\<close>

lemmas resp_eval = ParseCommand_def ReadChar_def FillBuffer_def RESPParser_new_def ParseArray_def
  ReadLineView_def ReadLineView_loop.simps unread_def FindTerminator_def CR_def LF_def CRLF_def
  ConsumeCRLF_def ParseArray_element_def ReadBulkStringInto_def read_bytes.simps vector_max_size_def
  kInlineLen_def Let_def TryParseCommandNoRead_def ReadInlineLineView_def
  ReadInlineLineView_loop.simps ParseInlineCommand_def inline_tokens.simps is_blank_def
  parser_ok_def block_ok_def request_ok_def

lemma one_digit_strings:
  "to_string 1 = ''1''" "to_string 2 = ''2''" "to_string 3 = ''3''" "to_string 4 = ''4''"
  by code_simp+

lemma String2ll_one_digit:
  "String2ll ''1'' = Some 1" "String2ll ''2'' = Some 2" "String2ll ''3'' = Some 3" "String2ll ''4'' = Some 4"
  using String2ll_to_string [of 1] String2ll_to_string [of 2] String2ll_to_string [of 3] String2ll_to_string [of 4]
  by (simp_all add: in_int64_def INT64_MAX_def INT64_MIN_def one_digit_strings)

lemma encode_examples:
  "encode_command [''GET'', ''7''] = ''*2'' @ CRLF @ ''$3'' @ CRLF @ ''GET'' @ CRLF @ ''$1'' @ CRLF @ ''7'' @ CRLF"
  "encode_command [''PING''] = ''*1'' @ CRLF @ ''$4'' @ CRLF @ ''PING'' @ CRLF"
  by (simp_all add: encode_command_def MakeArray_def MakeBulkString_def ToChars_def one_digit_strings Let_def)



text \<open>
  C17. \<open>TryParseCommandNoRead\<close> never touches the socket or the buffer's bytes.  Unless it
  answers \<open>OK\<close> it leaves the parser where it was, so that a request that is not complete yet is
  parsed again from its first byte, and hands out no arguments.
\<close>

theorem TryParseCommandNoRead_restores:
  assumes "TryParseCommandNoRead p = Inr (q, args, r)"
  shows "stream q = stream p \<and> buf q = buf p \<and> buffer_size q = buffer_size p \<and>
    allow_socket_read q = allow_socket_read p \<and>
    (r = OK \<or> args = [] \<and> q = p\<lparr>no_read_need_more := no_read_need_more q\<rparr>)"
proof -
  note f = TryParse_frozen [OF assms]
  have "stream q = stream p \<and> buf q = buf p \<and> buffer_size q = buffer_size p \<and>
      allow_socket_read q = allow_socket_read p"
    by (subst (1 2 3 4) f(1)) simp
  moreover have "args = [] \<and> q = p\<lparr>no_read_need_more := no_read_need_more q\<rparr>" if "r \<noteq> OK"
  proof -
    from f(2) [OF that] have "p\<lparr>buffer_pos := buffer_pos q\<rparr> = p" "args = []" by simp_all
    with f(1) show ?thesis by metis
  qed
  ultimately show ?thesis by blast
qed

theorem TryParseCommandNoRead_restores_witness:
  "\<exists>q. TryParseCommandNoRead (fst (FillBuffer (RESPParser_new 1000 [''*1'' @ CRLF @ ''$4'' @ CRLF @ ''PI'']))) =
       Inr (q, [], NEED_MORE) \<and>
     q = (fst (FillBuffer (RESPParser_new 1000 [''*1'' @ CRLF @ ''$4'' @ CRLF @ ''PI''])))
           \<lparr>no_read_need_more := no_read_need_more q\<rparr>"
  (is "\<exists>q. TryParseCommandNoRead ?p = _ \<and> _")
proof -
  have "TryParseCommandNoRead ?p = Inr (?p\<lparr>no_read_need_more := True\<rparr>, [], NEED_MORE)"
    by (simp add: resp_eval String2ll_one_digit cong: bool.case_cong_weak)
  with TryParseCommandNoRead_restores [OF this] show ?thesis by blast
qed

text \<open>
  C18. A request that is complete in the buffer is parsed without reading the socket: the answer
  is \<open>OK\<close>, with its arguments, and the unread bytes are those after it.
\<close>

theorem TryParseCommandNoRead_complete:
  assumes "parser_ok p" and "unread p = encode_command args @ rest" and "request_ok (mem_limit p) args"
  shows "\<exists>q. TryParseCommandNoRead p = Inr (q, map FromKey args, OK) \<and> unread q = rest \<and> stream q = stream p"
proof -
  let ?p = "p\<lparr>allow_socket_read := False\<rparr>"
  obtain p' where p': "ParseCommand ?p = Inr (p', map FromKey args, int (length args))" "parser_ok p'"
    "pending p' = rest" "same_mode ?p p'"
    using assms by (auto intro: ParseCommand_ok [OF parser_ok_no_read, of p args rest])
  let ?q = "p'\<lparr>allow_socket_read := allow_socket_read p\<rparr>"
  have t: "TryParseCommandNoRead p = Inr (?q, map FromKey args, OK)"
    by (simp add: TryParseCommandNoRead_def p'(1))
  have "stream ?q = stream p" using TryParse_frozen(1) [OF t] by (metis resp_parser.select_convs(6) resp_parser.surjective resp_parser.update_convs(2,5))
  moreover have "unread ?q = rest" using p'(3,4) by (simp add: pending_def unread_def same_mode_def)
  ultimately show ?thesis using t by blast
qed

theorem TryParseCommandNoRead_complete_witness:
  "\<exists>q. TryParseCommandNoRead (fst (FillBuffer (RESPParser_new 1000 [''*1'' @ CRLF @ ''$4'' @ CRLF @ ''PING'' @ CRLF @ ''*2'']))) =
       Inr (q, map FromKey [''PING''], OK) \<and> unread q = ''*2'' \<and> stream q = []"
  (is "\<exists>q. TryParseCommandNoRead ?p = _ \<and> _")
proof -
  have "parser_ok ?p" "unread ?p = encode_command [''PING''] @ ''*2''"
    "request_ok (mem_limit ?p) [''PING'']" "stream ?p = []"
    by (simp_all add: encode_examples, simp_all add: resp_eval)
  from TryParseCommandNoRead_complete [OF this(1-3)] this(4) show ?thesis by simp
qed

section \<open>Where requests are misread\<close>

text \<open>
  The line that \<open>ReadLineView\<close> returns is a view into the buffer.  When a block ends between
  CR and LF, \<open>ConsumeCRLF\<close> refills the buffer under the view: the same request, cut there, is
  rejected.
\<close>

lemma String2ll_dollar: "String2ll ''$'' = None"
  by (simp add: String2ll_def is_digit_def)

lemma split_after_CR_rejected:
  "map_sum id (snd \<circ> snd) (ParseCommand (RESPParser_new 1000 [''*1'' @ CRLF @ ''$4'' @ CRLF @ ''PING'' @ CRLF])) = Inr 1 \<and>
   map_sum id (snd \<circ> snd) (ParseCommand (RESPParser_new 1000 [''*1'' @ [CR], [LF] @ ''$4'' @ CRLF @ ''PING'' @ CRLF])) = Inr (- 1)"
  by (simp add: resp_eval String2ll_one_digit String2ll_dollar)

text \<open>
  The two bytes after a bulk string are skipped with \<open>ReadChar\<close>, whose failure is ignored.  When
  they have not arrived yet \<open>TryParseCommandNoRead\<close> still answers \<open>OK\<close>, and the next
  \<open>ParseCommand\<close> takes them for an inline command consisting of a CR.
\<close>

definition parse_after :: "string \<Rightarrow> resp_parser \<Rightarrow> (resp_parser \<times> nano_obj list \<times> int) result" where
  "parse_after block p = ParseCommand (p\<lparr>stream := [block]\<rparr>)"

lemma late_CRLF_is_a_command:
  "(case TryParseCommandNoRead (fst (FillBuffer (RESPParser_new 1000 [''*1'' @ CRLF @ ''$4'' @ CRLF @ ''PING'']))) of
      Inr (q, args, r) \<Rightarrow> r = OK \<and> args = [FromKey ''PING''] \<and>
        map_sum id snd (parse_after CRLF q) = Inr ([FromKey [CR]], 0)
    | Inl _ \<Rightarrow> False)"
  by (simp add: resp_eval String2ll_one_digit parse_after_def bulk_object_eq_FromKey)

text \<open>A count that no vector can hold: \<open>reserve\<close> throws and nothing catches it.\<close>

lemma digit_chars:
  "digit_char 0 = CHR ''0''" "digit_char 2 = CHR ''2''" "digit_char 3 = CHR ''3''" "digit_char 4 = CHR ''4''"
  "digit_char 5 = CHR ''5''" "digit_char 6 = CHR ''6''" "digit_char 7 = CHR ''7''" "digit_char 8 = CHR ''8''"
  "digit_char 9 = CHR ''9''"
  by code_simp+

lemma String2ll_max: "String2ll ''9223372036854775807'' = Some 9223372036854775807"
proof -
  have "to_string 9223372036854775807 = ''9223372036854775807''"
    by (simp add: to_string_def to_digits.simps digit_chars)
  with String2ll_to_string [of 9223372036854775807] show ?thesis
    by (simp add: in_int64_def INT64_MAX_def INT64_MIN_def)
qed

lemma huge_count_throws:
  "ParseCommand (RESPParser_new 1000 [''*9223372036854775807'' @ CRLF]) = Inl LengthError"
  by (simp add: resp_eval String2ll_one_digit parse_after_def bulk_object_eq_FromKey String2ll_max)

end
