(* ===== verification/Command_Context.thy ===== *)
theory Command_Context
  imports Nano_Database Resp_Protocol
begin

text \<open>
  The state that command handlers work on: \<open>include/core/command_context.h\<close>,
  \<open>src/core/command_context.cc\<close>, \<open>include/server/sharding.h\<close>, and of
  \<open>include/server/engine_shard_set.h\<close> and \<open>include/server/connection.h\<close> what handlers use.

  \<open>world\<close> holds the databases of the shards, the database of a context without shards, the
  connections and the context of the command being executed.  A handler is a function from the
  arguments and the world to the reply and the new world, or a fault.  \<open>env\<close> collects what a
  command obtains from outside: the clock (\<open>clk env i\<close> is its \<open>i\<close>-th reading), the hash
  function of \<open>absl\<close>, the iteration order of \<open>std::unordered_map\<close>, random numbers and the
  largest allocation that succeeds.

  \<open>Await\<close> runs a task on the thread that owns a shard and waits for it.  Between two tasks of a
  command other commands may run; a handler here is the execution in which none does.
\<close>

section \<open>State\<close>

record env =
  clk :: clock
  absl_hash :: "string \<Rightarrow> 64 word"
  map_order :: "nat list \<Rightarrow> nat list"
  rand :: "nat \<Rightarrow> nat"
  alloc_limit :: nat

record connection =
  client_id :: nat
  connected_at_ms :: int
  last_active_at_ms :: int
  conn_db_index :: nat
  client_name :: string
  last_command :: string
  write_buffer :: string
  close_requested :: bool

record command_context =
  local_shard :: "nat option"
  shard_set :: bool
  shard_count :: nat
  db_index :: nat
  connection_id :: "nat option"
  has_legacy_db :: bool

record world =
  ctx :: command_context
  shards :: "database list"
  tlocal :: "nat \<Rightarrow> bool"
  legacy_db :: database
  conns :: "nat \<Rightarrow> connection option"

type_synonym reply = "(string \<times> world) result"

type_synonym handler = "env \<Rightarrow> nano_obj list \<Rightarrow> world \<Rightarrow> reply"

section \<open>The command context\<close>

definition IsSingleShard :: "command_context \<Rightarrow> bool" where
  "IsSingleShard c \<longleftrightarrow> shard_count c \<le> 1"

text \<open>The database \<open>GetDB\<close> points to, before it selects the logical database.\<close>

definition context_db :: "world \<Rightarrow> database option" where
  "context_db w =
     (case local_shard (ctx w) of
        Some i \<Rightarrow> Some (shards w ! i)
      | None \<Rightarrow> if has_legacy_db (ctx w) then Some (legacy_db w) else None)"

definition select_db :: "nat \<Rightarrow> database \<Rightarrow> database" where
  "select_db i db = (if current_db db \<noteq> i then fst (Database_Select i db) else db)"

definition GetDB :: "world \<Rightarrow> database option" where
  "GetDB w = map_option (select_db (db_index (ctx w))) (context_db w)"

definition put_db :: "database \<Rightarrow> world \<Rightarrow> world" where
  "put_db db w =
     (case local_shard (ctx w) of
        Some i \<Rightarrow> w\<lparr>shards := (shards w)[i := db]\<rparr>
      | None \<Rightarrow> w\<lparr>legacy_db := db\<rparr>)"

text \<open>
  A call of \<open>GetDB\<close> whose pointer is not used on this path, and one followed by operations on
  the database.
\<close>

definition touch_db :: "world \<Rightarrow> world" where
  "touch_db w = (case GetDB w of None \<Rightarrow> w | Some db \<Rightarrow> put_db db w)"

definition with_db :: "(database \<Rightarrow> ('a \<times> database) result) \<Rightarrow> world \<Rightarrow> ('a \<times> world) result" where
  "with_db f w =
     (case GetDB w of
        None \<Rightarrow> Inl NullDeref
      | Some db \<Rightarrow> bind_r (f db) (\<lambda>(r, db). Inr (r, put_db db w)))"

section \<open>Shards\<close>

definition Shard :: "env \<Rightarrow> string \<Rightarrow> nat \<Rightarrow> nat" where
  "Shard e key num_shards =
     (if num_shards \<le> 1 then 0 else unat (absl_hash e key) mod num_shards)"

text \<open>
  \<open>shard_set->Await(shard_id, f)\<close> where \<open>f\<close> first takes \<open>EngineShard::Tlocal()\<close> and returns
  \<open>absent\<close> if it is null.
\<close>

definition Await :: "nat \<Rightarrow> 'a \<Rightarrow> (database \<Rightarrow> ('a \<times> database) result) \<Rightarrow> world \<Rightarrow> ('a \<times> world) result" where
  "Await shard_id absent f w =
     (if shard_id \<ge> length (shards w) then Inl NullDeref
      else if \<not> tlocal w shard_id then Inr (absent, w)
      else bind_r (f (shards w ! shard_id)) (\<lambda>(r, db). Inr (r, w\<lparr>shards := (shards w)[shard_id := db]\<rparr>)))"

text \<open>\<open>std::unordered_map<size_t, std::vector<T>>\<close> filled by \<open>m[id].push_back(x)\<close>.\<close>

definition group_items :: "(nat \<times> 'a) list \<Rightarrow> nat \<Rightarrow> 'a list" where
  "group_items ps i = map snd (filter (\<lambda>p. fst p = i) ps)"

definition group_ids :: "env \<Rightarrow> (nat \<times> 'a) list \<Rightarrow> nat list" where
  "group_ids e ps = map_order e (remdups (map fst ps))"

text \<open>A loop over steps that may fail.\<close>

primrec fold_r :: "('a \<Rightarrow> 's \<Rightarrow> 's result) \<Rightarrow> 'a list \<Rightarrow> 's \<Rightarrow> 's result" where
  "fold_r f [] s = Inr s"
| "fold_r f (x # xs) s = bind_r (f x s) (fold_r f xs)"

text \<open>
  The loops over the groups of such a map and over all shards: one task per shard, which selects
  the logical database first, and whose result is added to an accumulator.
\<close>

definition for_shards ::
    "env \<Rightarrow> (nat \<times> 'a) list \<Rightarrow> 'r \<Rightarrow> ('a list \<Rightarrow> database \<Rightarrow> ('r \<times> database) result) \<Rightarrow> ('r \<Rightarrow> 's \<Rightarrow> 's) \<Rightarrow>
     's \<Rightarrow> world \<Rightarrow> ('s \<times> world) result" where
  "for_shards e ps absent task upd s w =
     fold_r (\<lambda>shard_id (s, w).
         bind_r (Await shard_id absent (\<lambda>db. task (group_items ps shard_id) (fst (Database_Select (db_index (ctx w)) db))) w)
           (\<lambda>(r, w). Inr (upd r s, w)))
       (group_ids e ps) (s, w)"

definition for_all_shards ::
    "'r \<Rightarrow> (nat \<Rightarrow> database \<Rightarrow> ('r \<times> database) result) \<Rightarrow> ('r \<Rightarrow> 's \<Rightarrow> 's) \<Rightarrow> 's \<Rightarrow> world \<Rightarrow> ('s \<times> world) result" where
  "for_all_shards absent task upd s w =
     fold_r (\<lambda>shard_id (s, w).
         bind_r (Await shard_id absent (\<lambda>db. task shard_id (fst (Database_Select (db_index (ctx w)) db))) w)
           (\<lambda>(r, w). Inr (upd r s, w)))
       [0..<length (shards w)] (s, w)"

text \<open>\<open>ctx->IsSingleShard() || ctx->shard_set == nullptr\<close>.\<close>

definition local_only :: "world \<Rightarrow> bool" where
  "local_only w \<longleftrightarrow> IsSingleShard (ctx w) \<or> \<not> shard_set (ctx w)"

section \<open>Connections\<close>

definition SetDBIndex :: "nat \<Rightarrow> connection \<Rightarrow> connection \<times> bool" where
  "SetDBIndex index c = (if index \<ge> kNumDBs then (c, False) else (c\<lparr>conn_db_index := index\<rparr>, True))"

definition SetLastCommand :: "int \<Rightarrow> string \<Rightarrow> connection \<Rightarrow> connection" where
  "SetLastCommand now command c = c\<lparr>last_active_at_ms := now, last_command := command\<rparr>"

definition SetClientName :: "string \<Rightarrow> connection \<Rightarrow> connection" where
  "SetClientName name c = c\<lparr>client_name := name\<rparr>"

definition RequestClose :: "connection \<Rightarrow> connection" where
  "RequestClose c = c\<lparr>close_requested := True\<rparr>"

definition AppendResponse :: "string \<Rightarrow> connection \<Rightarrow> connection" where
  "AppendResponse response c = c\<lparr>write_buffer := write_buffer c @ response\<rparr>"

definition Connection_new :: "nat \<Rightarrow> int \<Rightarrow> connection" where
  "Connection_new cid now_ms =
     \<lparr>client_id = cid, connected_at_ms = now_ms, last_active_at_ms = now_ms, conn_db_index = 0,
      client_name = [], last_command = ''unknown'', write_buffer = [], close_requested = False\<rparr>"

section \<open>Well-formed worlds\<close>

definition world_inv :: "world \<Rightarrow> bool" where
  "world_inv w \<longleftrightarrow> list_all db_inv (shards w) \<and> db_inv (legacy_db w) \<and> db_index (ctx w) < kNumDBs \<and>
     (\<forall>i. local_shard (ctx w) = Some i \<longrightarrow> i < length (shards w))"

lemma select_db_ok:
  assumes "db_inv db"
  shows "db_inv (select_db i db)" "i < kNumDBs \<Longrightarrow> current_db (select_db i db) = i"
    "db_get (select_db i db) = db_get db" "db_expiry (select_db i db) = db_expiry db"
    "db_view (select_db i db) = db_view db"
  using Select_ok [OF assms, of i] assms by (auto simp: select_db_def)

lemma GetDB_inv:
  assumes "world_inv w" "GetDB w = Some db"
  shows "db_inv db" "current_db db = db_index (ctx w)"
  using assms by (auto simp: world_inv_def GetDB_def context_db_def list_all_length
      intro!: select_db_ok split: option.splits if_splits)

lemma put_db_inv: "world_inv w \<Longrightarrow> db_inv db \<Longrightarrow> world_inv (put_db db w)"
  by (auto simp: world_inv_def put_db_def list_all_length nth_list_update split: option.splits)

lemma put_db_ctx [simp]: "ctx (put_db db w) = ctx w"
  by (simp add: put_db_def split: option.splits)

lemma context_db_put [simp]:
  "world_inv w \<Longrightarrow> GetDB w = Some d \<Longrightarrow> context_db (put_db db w) = Some db"
  by (auto simp: context_db_def put_db_def world_inv_def GetDB_def split: option.splits if_splits)

lemma GetDB_put:
  assumes "world_inv w" "GetDB w = Some d" "current_db db = db_index (ctx w)"
  shows "GetDB (put_db db w) = Some db"
  using assms(3) by (simp add: GetDB_def context_db_put [OF assms(1,2)] select_db_def)

lemma with_db_Inr:
  assumes "with_db f w = Inr (r, w')"
  obtains db db' where "GetDB w = Some db" "f db = Inr (r, db')" "w' = put_db db' w"
  using assms by (auto simp: with_db_def bind_r_Inr_iff split: option.splits)

lemma with_db_eq: "GetDB w = Some db \<Longrightarrow> f db = Inr (r, db') \<Longrightarrow> with_db f w = Inr (r, put_db db' w)"
  by (simp add: with_db_def)

lemma Await_ctx: "Await i a f w = Inr (r, w') \<Longrightarrow> ctx w' = ctx w"
  by (auto simp: Await_def bind_r_Inr_iff split: if_splits)

lemma fold_r_inv:
  assumes "fold_r f xs s = Inr s'" "P s" "\<And>x s s'. x \<in> set xs \<Longrightarrow> P s \<Longrightarrow> f x s = Inr s' \<Longrightarrow> P s'"
  shows "P s'"
  using assms by (induction xs arbitrary: s) (auto simp: bind_r_Inr_iff)

lemma fold_r_append: "fold_r f (xs @ ys) s = bind_r (fold_r f xs s) (fold_r f ys)"
proof (induction xs arbitrary: s)
  case (Cons x xs)
  then have "fold_r f (xs @ ys) = (\<lambda>s. bind_r (fold_r f xs s) (fold_r f ys))" by (simp add: fun_eq_iff)
  then show ?case by (simp add: bind_r_assoc)
qed simp

end
