(* ===== verification/Db_Contract.thy ===== *)
theory Db_Contract
  imports Command_Context
begin

text \<open>
  What commands may rely on when they work on a database.

  \<open>db_values V\<close> strengthens the invariant of the tables: every stored value satisfies \<open>V\<close>.  With
  well-formed objects for \<open>V\<close> (\<open>db_ok\<close>) the type field of a container says what its pointer points
  at.  The locale \<open>db_contract\<close> states the laws of the database operations for a predicate on
  databases; the command families prove once, in the locale, that every handler keeps the predicate
  on all databases of the server.  The instances are the invariant of the tables alone, for
  arbitrary arguments, and, for the arguments the parser delivers, \<open>db_values\<close> of every set of values
  that is closed under what commands store: the well-formed objects, and these together with the
  containers that a restart leaves without contents (\<open>loaded_ok\<close>).
\<close>

section \<open>Stored entries\<close>

definition entries :: "database \<Rightarrow> nat \<Rightarrow> (nano_obj \<times> nano_obj) set" where
  "entries db i = set (DashTable_ForEach (tables db ! i))"

definition db_values :: "(nano_obj \<Rightarrow> bool) \<Rightarrow> database \<Rightarrow> bool" where
  "db_values V db \<longleftrightarrow> db_inv db \<and> (\<forall>i < kNumDBs. \<forall>p \<in> entries db i. scalar_ok (fst p) \<and> V (snd p))"

abbreviation db_ok :: "database \<Rightarrow> bool" where
  "db_ok \<equiv> db_values obj_ok"

lemma db_okD:
  assumes "db_values V db"
  shows "db_inv db" "i < kNumDBs \<Longrightarrow> (k, v) \<in> entries db i \<Longrightarrow> scalar_ok k \<and> V v"
  using assms by (force simp: db_values_def)+

text \<open>A database with fewer entries.\<close>

definition shrinks :: "database \<Rightarrow> database \<Rightarrow> bool" where
  "shrinks db db' \<longleftrightarrow> db_inv db' \<and> (\<forall>i < kNumDBs. entries db' i \<subseteq> entries db i)"

lemma shrinks_ok: "db_values V db \<Longrightarrow> shrinks db db' \<Longrightarrow> db_values V db'"
  unfolding db_values_def shrinks_def by blast

lemma shrinks_refl: "db_inv db \<Longrightarrow> shrinks db db"
  by (simp add: shrinks_def)

lemma shrinks_trans: "shrinks a b \<Longrightarrow> shrinks b c \<Longrightarrow> shrinks a c"
  by (auto simp: shrinks_def)

lemma nt_Erase_entries:
  assumes "nt_inv t"
  shows "set (DashTable_ForEach (fst (nt_Erase t k))) \<subseteq> set (DashTable_ForEach t)"
proof -
  obtain t' b where e: "nt_Erase t k = (t', b)" by fastforce
  note E = nano_dt.Erase_ok [OF assms e]
  have "mset (DashTable_ForEach t') \<subseteq># mset (DashTable_ForEach t)"
    using E(7) mset_ForEach [OF nt_inv_dir_inv [OF assms]] mset_ForEach [OF nt_inv_dir_inv [OF E(1)]] by simp
  then show ?thesis using e by (auto dest: mset_subset_eqD)
qed

lemma entries_set_table:
  assumes "db_inv db" "i < kNumDBs"
  shows "entries (set_table i t db) j = (if j = i then set (DashTable_ForEach t) else entries db j)"
  using db_invD(1) [OF assms(1)] assms(2) by (simp add: entries_def)

lemma entries_set_expire [simp]: "entries (set_expire i t db) j = entries db j"
  by (simp add: entries_def)

lemma shrinks_erase_both:
  assumes "db_inv db" "i < kNumDBs"
  shows "shrinks db (erase_both i k db)"
  using assms erase_both_ok(1) [OF assms] nt_Erase_entries [OF db_invD(4) [OF assms]]
  by (auto simp: shrinks_def erase_both_def Let_def entries_set_table [OF assms] entries_def [of db])

lemma shrinks_Prune: "db_inv db \<Longrightarrow> i < kNumDBs \<Longrightarrow> shrinks db (PruneExpiredInDB i k now db)"
  by (simp add: PruneExpiredInDB_def shrinks_erase_both shrinks_refl)

lemma shrinks_current:
  assumes "db_inv db"
  shows "shrinks db (PruneExpiredInDB (current_db db) k now db)"
  using shrinks_Prune [OF assms db_invD(3) [OF assms]] .

lemma shrinks_Find: "db_inv db \<Longrightarrow> shrinks db (fst (Database_Find now k db))"
  by (simp add: Find_ok shrinks_current)

lemma shrinks_Del:
  assumes "db_inv db"
  shows "shrinks db (fst (Database_Del now k db))"
proof -
  let ?i = "current_db db" and ?p = "PruneExpiredInDB (current_db db) k now db"
  note P = shrinks_current [OF assms, of k now]
  have i: "?i < kNumDBs" by (rule db_invD(3) [OF assms])
  have p: "db_inv ?p" using P by (simp add: shrinks_def)
  have "db_inv (fst (Database_Del now k db))"
    using Del_ok(1) [OF assms prod.collapse [symmetric], of now k] .
  moreover have "entries (fst (Database_Del now k db)) j \<subseteq> entries ?p j" if "j < kNumDBs" for j
    using nt_Erase_entries [OF db_invD(4) [OF p i]] entries_set_table [OF p i]
    by (auto simp: Database_Del_def Let_def case_prod_unfold entries_def)
  ultimately have "shrinks ?p (fst (Database_Del now k db))" by (simp add: shrinks_def)
  with P show ?thesis by (rule shrinks_trans)
qed

lemma shrinks_Persist:
  assumes "db_inv db"
  shows "shrinks db (fst (Database_Persist now k db))"
proof -
  let ?p = "PruneExpiredInDB (current_db db) k now db"
  have "entries (fst (Database_Persist now k db)) = entries ?p"
    by (simp add: Database_Persist_def Let_def case_prod_unfold fun_eq_iff)
  moreover have "db_inv (fst (Database_Persist now k db))"
    using Persist_ok(1) [OF assms prod.collapse [symmetric], of now k] .
  ultimately show ?thesis using shrinks_current [OF assms, of k now] by (simp add: shrinks_def)
qed

lemma shrinks_fold_erase:
  assumes "db_inv db" "i < kNumDBs"
  shows "shrinks db (fold (erase_both i) ks db)"
  using assms(1)
proof (induction ks arbitrary: db)
  case (Cons k ks)
  note E = shrinks_erase_both [OF Cons.prems assms(2), of k]
  then have "shrinks (erase_both i k db) (fold (erase_both i) ks (erase_both i k db))"
    by (intro Cons.IH) (simp add: shrinks_def)
  with E show ?case by (auto intro: shrinks_trans)
qed (simp add: shrinks_refl)

lemma shrinks_remove_expired: "db_inv db \<Longrightarrow> shrinks db (remove_expired now db)"
  by (simp add: remove_expired_def Let_def shrinks_fold_erase db_invD(3))

lemma shrinks_clear_db:
  assumes "db_inv db" "i < kNumDBs"
  shows "shrinks db (clear_db i db)"
proof -
  have "DashTable_ForEach (DashTable_Clear (tables db ! i)) = []"
    using mset_ForEach [OF nt_inv_dir_inv [OF nt_Clear(1) [OF db_invD(4) [OF assms]]]]
      Clear_ok(2) [OF nt_inv_dir_inv [OF db_invD(4) [OF assms]]] by simp
  then show ?thesis
    using clear_db_ok(1) [OF assms] assms
    by (auto simp: shrinks_def clear_db_def Let_def entries_set_table)
qed

lemma shrinks_ClearAll:
  assumes "db_inv db"
  shows "shrinks db (ClearAll db)"
proof -
  have "shrinks db (fold clear_db is db)" if "\<forall>i\<in>set is. i < kNumDBs" for "is"
    using that assms
  proof (induction "is" arbitrary: db)
    case (Cons i "is")
    note E = shrinks_clear_db [OF Cons.prems(2), of i]
    then have "shrinks (clear_db i db) (fold clear_db is (clear_db i db))"
      using Cons.prems by (intro Cons.IH) (auto simp: shrinks_def)
    with E Cons.prems(1) show ?case by (auto intro: shrinks_trans)
  qed (simp add: shrinks_refl)
  then show ?thesis by (simp add: ClearAll_def)
qed

lemma shrinks_Expire:
  assumes "db_inv db" "Database_Expire now k ttl db = Inr (db', b)"
  shows "shrinks db db'"
proof -
  let ?p = "PruneExpiredInDB (current_db db) k now db"
  note P = shrinks_current [OF assms(1), of k now]
  have "db_inv ?p" using P by (simp add: shrinks_def)
  moreover have "db_inv db'" by (rule Expire_ok(1) [OF assms])
  ultimately have "shrinks ?p db'"
    using assms(2) shrinks_erase_both [OF _ db_invD(3) [OF assms(1)], of ?p k] shrinks_refl
    by (auto simp: Database_Expire_def Let_def bind_r_Inr_iff shrinks_def split: if_splits)
  with P show ?thesis by (rule shrinks_trans)
qed

lemma shrinks_TTL:
  assumes "db_inv db" "Database_TTL now k db = Inr (db', n)"
  shows "shrinks db db'"
proof -
  let ?p = "PruneExpiredInDB (current_db db) k now db"
  note P = shrinks_current [OF assms(1), of k now]
  have "db_inv ?p" using P by (simp add: shrinks_def)
  then have "shrinks ?p db'"
    using assms(2) shrinks_erase_both [OF _ db_invD(3) [OF assms(1)], of ?p k] shrinks_refl
    by (auto simp: Database_TTL_def Let_def bind_r_Inr_iff split: if_splits option.splits)
  with P show ?thesis by (rule shrinks_trans)
qed

lemma shrinks_Active:
  assumes "db_inv db"
  shows "shrinks db (fst (ActiveExpireCycle now n db))"
proof -
  have step: "shrinks db (fst (active_expire_db now n i (db, c)))" if "db_inv db" "i < kNumDBs" for db c i
    using shrinks_fold_erase [OF that] active_fold [OF that, of "expired_keys now (take n (DashTable_ForEach (expire_tables db ! i)))" c]
    by (auto simp: active_expire_db_def)
  have "shrinks db (fst (fold (active_expire_db now n) is (db, c)))" if "\<forall>i\<in>set is. i < kNumDBs" for "is" c
    using that assms
  proof (induction "is" arbitrary: db c)
    case (Cons i "is")
    obtain db1 c1 where a: "active_expire_db now n i (db, c) = (db1, c1)" by fastforce
    have s: "shrinks db db1" using step [OF Cons.prems(2), of i c] Cons.prems(1) a by simp
    then have "shrinks db1 (fst (fold (active_expire_db now n) is (db1, c1)))"
      using Cons.prems by (intro Cons.IH) (auto simp: shrinks_def)
    with s a show ?case by (auto intro: shrinks_trans)
  qed (simp add: shrinks_refl)
  then show ?thesis using assms by (simp add: ActiveExpireCycle_def shrinks_refl)
qed

section \<open>Entries after a store\<close>

lemma map_insert_entries:
  "p \<in> set (map_insert_or_assign eq k v vs) \<Longrightarrow>
     p \<in> set vs \<or> snd p = v \<and> (fst p = k \<or> (\<exists>v0. (fst p, v0) \<in> set vs))"
  by (auto simp: map_insert_or_assign_def split: option.splits
      dest!: table_pos_SomeD [THEN conjunct1] set_update_subset_insert [THEN subsetD])
    (metis nth_mem prod.collapse)+

lemma db_ok_set_table:
  assumes ok: "db_values V db" and inv: "db_inv (set_table i t db)" and i: "i < kNumDBs"
    and t: "set (DashTable_ForEach t) \<subseteq> set (map_insert_or_assign NanoObj_eq k v (DashTable_ForEach (tables db ! i)))"
    and k: "scalar_ok k" and v: "V v"
  shows "db_values V (set_table i t db)"
  unfolding db_values_def
proof (intro conjI allI impI ballI inv)
  fix j p
  assume j: "j < kNumDBs" and p: "p \<in> entries (set_table i t db) j"
  note D = db_okD [OF ok]
  have "scalar_ok (fst p) \<and> V (snd p)"
  proof (cases "j = i")
    case True
    with p have "p \<in> set (map_insert_or_assign NanoObj_eq k v (DashTable_ForEach (tables db ! i)))"
      using t by (auto simp: entries_set_table [OF D(1) i])
    from map_insert_entries [OF this] show ?thesis
      using D(2) [OF i, of "fst p"] k v by (cases p) (auto simp: entries_def)
  next
    case False
    with p D(2) [OF j, of "fst p" "snd p"] show ?thesis by (simp add: entries_set_table [OF D(1) i])
  qed
  then show "scalar_ok (fst p)" "V (snd p)" by simp_all
qed

lemma db_ok_Set:
  assumes "db_values V db" "Database_Set k v db = Inr db'" "scalar_ok k" "V v"
  shows "db_values V db'"
proof -
  note D = db_invD [OF db_okD(1) [OF assms(1)]]
  obtain t where t: "nt_Insert (tables db ! current_db db) k v = Inr t" "db' = set_table (current_db db) t db"
    using assms(2) by (auto simp: Database_Set_def bind_r_Inr_iff)
  have "set (DashTable_ForEach t) =
      set (map_insert_or_assign NanoObj_eq k v (DashTable_ForEach (tables db ! current_db db)))"
    using nano_dt.Insert_ForEach [OF D(4) [OF D(3)] t(1)] by (rule mset_eq_setD)
  then show ?thesis
    using db_ok_set_table [OF assms(1) _ D(3), of t k v] Set_ok(1) [OF db_okD(1) [OF assms(1)] assms(2)] assms(3,4) t(2)
    by simp
qed

context hashed_keys
begin

lemma put_ForEach:
  fixes t :: "('k, 'v) dashtable"
  assumes inv: "dt_inv h eq t"
  shows "mset (DashTable_ForEach (dt_put h eq t k v)) = mset (map_insert_or_assign eq k v (DashTable_ForEach t))"
proof -
  obtain R where R: "mset (DashTable_ForEach t) = mset (seg_table (seg_at t (GetSegmentIndex h t k))) + R"
    "\<And>e. e \<in># R \<Longrightarrow> \<not> eq k (fst e)"
    "table_inv eq fst (seg_table (seg_at t (GetSegmentIndex h t k)))"
    using key_split_ForEach [OF inv, of k] by blast
  have I: "dir_inv t" "dir_inv (dt_put h eq t k v)" using inv put_ok(1) [OF inv] by (auto simp: dt_inv_def)
  have "contents (dt_put h eq t k v) = contents t - mset (seg_table (seg_at t (GetSegmentIndex h t k))) +
      mset (map_insert_or_assign eq k v (seg_table (seg_at t (GetSegmentIndex h t k))))"
    unfolding dt_put_def Let_def seg_at_def
    by (rule contents_seg_update [OF I(1) GetSegmentIndex_bound [OF I(1)]])
  then show ?thesis
    using insert_or_assign_part [OF table_inv_ForEach [OF inv] R(3,1,2)] R(1)
    by (simp add: mset_ForEach [OF I(1)] mset_ForEach [OF I(2)])
qed

end

lemma table_pos_cong: "NanoObj_eq k k' \<Longrightarrow> table_pos NanoObj_eq gk k vs = table_pos NanoObj_eq gk k' vs"
proof (induction vs)
  case (Cons a vs)
  have "NanoObj_eq k (gk a) = NanoObj_eq k' (gk a)" using Cons.prems by (auto simp: NanoObj_eq_iff)
  with Cons show ?case by simp
qed simp

lemma db_ok_Poke:
  assumes "db_values V db" "V v"
  shows "db_values V (Database_Poke k v db)"
proof -
  note D = db_invD [OF db_okD(1) [OF assms(1)]]
  let ?t = "tables db ! current_db db"
  note N = D(4) [OF D(3)]
  show ?thesis
  proof (cases "nt_Find ?t k")
    case None
    then have "Database_Poke k v db = db" by (simp add: Database_Poke_def Poke_eq set_table_def)
    with assms show ?thesis by simp
  next
    case (Some v0)
    then obtain k0 where k0: "(k0, v0) \<in> set (DashTable_ForEach ?t)" "NanoObj_eq k k0"
      using nano_dt.Find_ForEach [OF N, of k] by (auto dest!: table_find_SomeD)
    have p: "nt_Poke ?t k v = dt_put NanoObj_hash NanoObj_eq ?t k v" using Some by (simp add: Poke_eq)
    have "set (DashTable_ForEach (nt_Poke ?t k v)) = set (map_insert_or_assign NanoObj_eq k v (DashTable_ForEach ?t))"
      unfolding p by (rule mset_eq_setD [OF nano_dt.put_ForEach [OF N]])
    moreover have "map_insert_or_assign NanoObj_eq k v (DashTable_ForEach ?t) =
        map_insert_or_assign NanoObj_eq k0 v (DashTable_ForEach ?t)"
      using k0 Some nano_dt.Find_ForEach [OF N, of k]
      by (auto simp: map_insert_or_assign_def table_find_def table_pos_cong [OF k0(2)] split: option.splits)
    ultimately show ?thesis
      using db_ok_set_table [OF assms(1) _ D(3), of "nt_Poke ?t k v" k0 v] Poke_db_ok(1) [OF db_okD(1) [OF assms(1)], of k v]
        db_okD(2) [OF assms(1) D(3), of k0 v0] k0(1) assms(2)
      by (simp add: Database_Poke_def entries_def)
  qed
qed

section \<open>The contract\<close>

text \<open>
  All databases of the server satisfy \<open>P\<close>, and what is outside them satisfies \<open>W\<close>; a handler keeps
  this when its arguments satisfy \<open>K\<close>.
\<close>

type_synonym outside_state = "command_context \<times> nat \<times> (nat \<Rightarrow> bool) \<times> (nat \<Rightarrow> connection option)"

definition outside :: "world \<Rightarrow> outside_state" where
  "outside w = (ctx w, length (shards w), tlocal w, conns w)"

definition world_in :: "(outside_state \<Rightarrow> bool) \<Rightarrow> (database \<Rightarrow> bool) \<Rightarrow> world \<Rightarrow> bool" where
  "world_in W P w \<longleftrightarrow> world_inv w \<and> list_all P (shards w) \<and> P (legacy_db w) \<and> W (outside w)"

abbreviation world_all :: "(database \<Rightarrow> bool) \<Rightarrow> world \<Rightarrow> bool" where
  "world_all \<equiv> world_in (\<lambda>_. True)"

definition keeps :: "(outside_state \<Rightarrow> bool) \<Rightarrow> (database \<Rightarrow> bool) \<Rightarrow> (nano_obj \<Rightarrow> bool) \<Rightarrow> handler \<Rightarrow> bool" where
  "keeps W P K h \<longleftrightarrow> (\<forall>e args w r w'. list_all K args \<longrightarrow> world_in W P w \<longrightarrow> h e args w = Inr (r, w') \<longrightarrow> world_in W P w')"

lemma keepsI:
  "(\<And>e args w r w'. list_all K args \<Longrightarrow> world_in W P w \<Longrightarrow> h e args w = Inr (r, w') \<Longrightarrow> world_in W P w') \<Longrightarrow> keeps W P K h"
  by (simp add: keeps_def)

lemma outside_simps [simp]:
  "outside (put_db db w) = outside w" "outside (w\<lparr>shards := (shards w)[i := db]\<rparr>) = outside w"
  "outside (w\<lparr>legacy_db := db\<rparr>) = outside w"
  by (simp_all add: outside_def put_db_def split: option.splits)

text \<open>The only data command that changes anything outside the databases is \<open>SELECT\<close>.\<close>

locale outside_contract =
  fixes W :: "outside_state \<Rightarrow> bool"
  assumes W_context: "W (c, n, ts, cs) \<Longrightarrow> i < kNumDBs \<Longrightarrow> W (c\<lparr>db_index := i\<rparr>, n, ts, cs)"
    and W_connection: "W (c, n, ts, cs) \<Longrightarrow> cs cid = Some x \<Longrightarrow> i < kNumDBs \<Longrightarrow> W (c, n, ts, cs(cid \<mapsto> x\<lparr>conn_db_index := i\<rparr>))"

interpretation anywhere: outside_contract "\<lambda>_. True"
  by unfold_locales simp_all

lemma list_all_update: "list_all P xs \<Longrightarrow> P x \<Longrightarrow> list_all P (xs[i := x])"
  using set_update_subset_insert [of xs i x] by (auto simp: list_all_iff)

lemma fold_inv:
  assumes "P s" "\<And>x s. P s \<Longrightarrow> P (f x s)"
  shows "P (fold f xs s)"
  using assms by (induction xs arbitrary: s) auto

locale db_contract = outside_contract W for W +
  fixes P :: "database \<Rightarrow> bool" and K V :: "nano_obj \<Rightarrow> bool"
  assumes P_inv: "P db \<Longrightarrow> db_inv db"
    and P_Find: "P db \<Longrightarrow> P (fst (Database_Find now k db))"
    and P_Del: "P db \<Longrightarrow> P (fst (Database_Del now k db))"
    and P_Persist: "P db \<Longrightarrow> P (fst (Database_Persist now k db))"
    and P_remove_expired: "P db \<Longrightarrow> P (remove_expired now db)"
    and P_Select: "P db \<Longrightarrow> P (fst (Database_Select i db))"
    and P_Clear: "P db \<Longrightarrow> P (ClearCurrentDB db)"
    and P_ClearAll: "P db \<Longrightarrow> P (ClearAll db)"
    and P_Active: "P db \<Longrightarrow> P (fst (ActiveExpireCycle now n db))"
    and P_Set: "P db \<Longrightarrow> Database_Set k v db = Inr db' \<Longrightarrow> K k \<Longrightarrow> V v \<Longrightarrow> P db'"
    and P_Poke: "P db \<Longrightarrow> V v \<Longrightarrow> P (Database_Poke k v db)"
    and P_Expire: "P db \<Longrightarrow> Database_Expire now k ttl db = Inr (db', b) \<Longrightarrow> P db'"
    and P_TTL: "P db \<Longrightarrow> Database_TTL now k db = Inr (db', secs) \<Longrightarrow> P db'"
    and V_Find: "P db \<Longrightarrow> snd (Database_Find now k db) = Some v \<Longrightarrow> V v"
    and K_FromKey: "K (FromKey s)"
    and V_FromKey: "V (FromKey s)"
    and V_FromInt: "in_int64 m \<Longrightarrow> V (FromInt m)"
    and V_copy: "K a \<Longrightarrow> V (NanoObj_copy a)"
    and V_hash: "V (SetObj (HashTable []) FromHash)"
    and V_set: "V (SetObj (SetTable []) FromSet)"
    and V_list: "V (SetObj (ListDeque []) FromList)"
    and V_put_hash: "V obj \<Longrightarrow> GetHashObj obj = Some h \<Longrightarrow>
      (table_inv (=) fst h \<Longrightarrow> table_inv (=) fst h') \<Longrightarrow> V (SetObj (HashTable h') obj)"
    and V_put_set: "V obj \<Longrightarrow> GetSetObj obj = Some ms \<Longrightarrow>
      (table_inv (=) id ms \<Longrightarrow> table_inv (=) id ms') \<Longrightarrow> V (SetObj (SetTable ms') obj)"
    and V_put_list: "V obj \<Longrightarrow> GetListObj obj = Some l \<Longrightarrow>
      (\<And>x. x \<in> set l' \<Longrightarrow> x \<in> set l \<or> (\<exists>a s. x = NanoObj_copy a \<and> (K a \<or> a \<in> set l) \<or> x = FromKey s)) \<Longrightarrow> V (SetObj (ListDeque l') obj)"
begin

lemma P_reads:
  assumes "P db"
  shows "P (fst (Database_Find now k db))" "P (fst (Database_Get now k db))" "P (fst (Database_Exists now k db))"
    "P (fst (Database_Del now k db))" "P (fst (Database_Persist now k db))" "P (fst (Database_KeyCount now db))"
    "P (fst (Database_Keys now db))" "P (fst (Database_Select i db))" "P (ClearCurrentDB db)" "P (ClearAll db)"
  using assms
  by (simp_all add: P_Find P_Del P_Persist P_remove_expired P_Select P_Clear P_ClearAll Get_Find Exists_Find
      Database_KeyCount_def Database_Keys_def Let_def)

lemmas keep_simps = bind_r_Inr_iff Let_def case_prod_unfold P_reads

lemma GetDB_P:
  assumes "world_in W P w" "GetDB w = Some db"
  shows "P db"
proof -
  obtain d where d: "context_db w = Some d" "db = select_db (db_index (ctx w)) d"
    using assms(2) by (auto simp: GetDB_def)
  then have "P d"
    using assms(1) by (auto simp: world_in_def world_inv_def context_db_def list_all_length split: option.splits if_splits)
  then show ?thesis using d(2) by (simp add: select_db_def P_Select)
qed

lemma put_db_all: "world_in W P w \<Longrightarrow> P db \<Longrightarrow> world_in W P (put_db db w)"
  using put_db_inv [of w db] P_inv [of db]
  by (auto simp: world_in_def put_db_def list_all_update split: option.splits)

lemma touch_db_all: "world_in W P w \<Longrightarrow> world_in W P (touch_db w)"
  by (auto simp: touch_db_def intro: put_db_all GetDB_P split: option.splits)

lemma with_db_all:
  assumes "world_in W P w" "with_db f w = Inr (r, w')"
    and "\<And>db r db'. P db \<Longrightarrow> f db = Inr (r, db') \<Longrightarrow> P db'"
  shows "world_in W P w'"
proof -
  obtain db db' where "GetDB w = Some db" "f db = Inr (r, db')" "w' = put_db db' w"
    by (rule with_db_Inr [OF assms(2)])
  then show ?thesis using assms(3) GetDB_P [OF assms(1)] put_db_all [OF assms(1)] by blast
qed

lemma Await_all:
  assumes "world_in W P w" "Await i a f w = Inr (r, w')"
    and "\<And>db r db'. P db \<Longrightarrow> f db = Inr (r, db') \<Longrightarrow> P db'"
  shows "world_in W P w'"
proof (cases "tlocal w i")
  case True
  with assms(2) obtain db' where i: "i < length (shards w)" "f (shards w ! i) = Inr (r, db')"
      and w': "w' = w\<lparr>shards := (shards w)[i := db']\<rparr>"
    by (auto simp: Await_def bind_r_Inr_iff split: if_splits)
  have "P (shards w ! i)" using assms(1) i(1) by (auto simp: world_in_def list_all_length)
  then have "P db'" using i(2) by (rule assms(3))
  then show ?thesis using assms(1) w' P_inv [of db']
    by (auto simp: world_in_def world_inv_def list_all_update)
next
  case False
  with assms show ?thesis by (auto simp: Await_def split: if_splits)
qed

lemma shard_loop_all:
  assumes "world_in W P w"
    and "fold_r (\<lambda>i (s, w). bind_r (Await i a (\<lambda>db. task i (fst (Database_Select (db_index (ctx w)) db))) w)
        (\<lambda>(r, w). Inr (upd r s, w))) ids (s, w) = Inr (r, w')"
    and "\<And>i db r db'. P db \<Longrightarrow> task i db = Inr (r, db') \<Longrightarrow> P db'"
  shows "world_in W P w'"
proof -
  have "world_in W P (snd (r, w'))"
    using assms(2)
  proof (rule fold_r_inv)
    fix i s s'
    assume "world_in W P (snd s)" and "(case s of (s, w) \<Rightarrow> bind_r (Await i a (\<lambda>db. task i
        (fst (Database_Select (db_index (ctx w)) db))) w) (\<lambda>(r, w). Inr (upd r s, w))) = Inr s'"
    then obtain r where "Await i a (\<lambda>db. task i
        (fst (Database_Select (db_index (ctx (snd s))) db))) (snd s) = Inr (r, snd s')"
      by (auto simp: bind_r_Inr_iff split: prod.splits)
    with \<open>world_in W P (snd s)\<close> show "world_in W P (snd s')"
      by (rule Await_all) (rule assms(3) [OF P_Select])
  qed (simp add: assms(1))
  then show ?thesis by simp
qed

lemma for_shards_all:
  assumes "world_in W P w" "for_shards e ps a task upd s w = Inr (r, w')"
    and "\<And>i db r db'. P db \<Longrightarrow> task (group_items ps i) db = Inr (r, db') \<Longrightarrow> P db'"
  shows "world_in W P w'"
  using assms(1) assms(2) [unfolded for_shards_def] assms(3) by (rule shard_loop_all)

lemma for_all_shards_all:
  assumes "world_in W P w" "for_all_shards a task upd s w = Inr (r, w')"
    and "\<And>i db r db'. P db \<Longrightarrow> task i db = Inr (r, db') \<Longrightarrow> P db'"
  shows "world_in W P w'"
  using assms(1) assms(2) [unfolded for_all_shards_def] assms(3) by (rule shard_loop_all)

lemmas keeps_elims = with_db_all [rotated] for_shards_all [rotated] for_all_shards_all [rotated]

lemma arg_K: "list_all K args \<Longrightarrow> i < length args \<Longrightarrow> K (args ! i)"
  by (simp add: list_all_length)

end

section \<open>The two instances\<close>

interpretation inv: db_contract "\<lambda>_. True" db_inv "\<lambda>_. True" "\<lambda>_. True"
proof unfold_locales
  fix db :: database and now k
  assume i: "db_inv db"
  show "db_inv (fst (Database_Find now k db))" using shrinks_Find [OF i] by (simp add: shrinks_def)
  show "db_inv (fst (Database_Del now k db))" using shrinks_Del [OF i] by (simp add: shrinks_def)
  show "db_inv (fst (Database_Persist now k db))" using shrinks_Persist [OF i] by (simp add: shrinks_def)
  show "db_inv (ClearCurrentDB db)"
    unfolding ClearCurrentDB_def by (rule clear_db_ok(1) [OF i db_invD(3) [OF i]])
  show "db_inv (fst (ActiveExpireCycle now n db))" for n using shrinks_Active [OF i] by (simp add: shrinks_def)
  show "db_inv (remove_expired now db)" using shrinks_remove_expired [OF i] by (simp add: shrinks_def)
  show "db_inv db'" if "Database_TTL now k db = Inr (db', n)" for db' n
    using shrinks_TTL [OF i that] by (simp add: shrinks_def)
  show "db_inv db'" if "Database_Expire now k ttl db = Inr (db', b)" for ttl db' b by (rule Expire_ok(1) [OF i that])
  show "db_inv db'" if "Database_Set k v db = Inr db'" for v db' by (rule Set_ok(1) [OF i that])
qed (simp_all add: Select_ok(1) ClearAll_ok(1) Poke_db_ok(1))

lemma db_ok_Select: "db_values V db \<Longrightarrow> db_values V (fst (Database_Select i db))"
  using Select_ok(1) [of db i] by (auto simp: db_values_def Database_Select_def entries_def)

lemma db_ok_Find_value:
  assumes "db_values V db" "snd (Database_Find now k db) = Some v"
  shows "V v"
proof -
  note D = db_okD [OF assms(1)]
  have "db_view db (current_db db) now k = Some v" using assms(2) Find_ok(1) [OF D(1)] by simp
  then have "nt_Find (tables db ! current_db db) k = Some v" by (simp add: db_view_def split: if_splits)
  then obtain k' where "(k', v) \<in> entries db (current_db db)"
    using nano_dt.Find_ForEach [OF db_invD(4) [OF D(1) db_invD(3) [OF D(1)]], of k]
    by (auto simp: entries_def dest!: table_find_SomeD)
  then show ?thesis using D(2) [OF db_invD(3) [OF D(1)]] by blast
qed

lemma obj_ok_put_hash: "obj_ok obj \<Longrightarrow> GetHashObj obj = Some h \<Longrightarrow>
    (table_inv (=) fst h \<Longrightarrow> table_inv (=) fst h') \<Longrightarrow> obj_ok (SetObj (HashTable h') obj)"
  by (cases obj rule: GetHashObj.cases) simp_all

lemma obj_ok_put_set: "obj_ok obj \<Longrightarrow> GetSetObj obj = Some ms \<Longrightarrow>
    (table_inv (=) id ms \<Longrightarrow> table_inv (=) id ms') \<Longrightarrow> obj_ok (SetObj (SetTable ms') obj)"
  by (cases obj rule: GetSetObj.cases) simp_all

lemma obj_ok_put_list: "obj_ok obj \<Longrightarrow> GetListObj obj = Some l \<Longrightarrow>
    (\<And>x. x \<in> set l' \<Longrightarrow> x \<in> set l \<or> scalar_ok x) \<Longrightarrow> obj_ok (SetObj (ListDeque l') obj)"
  by (cases obj rule: GetListObj.cases) (auto simp: list_all_iff)

lemma list_elems_ok: "obj_ok obj \<Longrightarrow> GetListObj obj = Some l \<Longrightarrow> x \<in> set l \<Longrightarrow> scalar_ok x"
  by (cases obj rule: GetListObj.cases) (auto simp: list_all_iff)

text \<open>Values closed under what commands store give a contract.\<close>

locale value_contract = outside_contract W for W +
  fixes V :: "nano_obj \<Rightarrow> bool"
  assumes V_scalar: "scalar_ok v \<Longrightarrow> V v"
    and V_new: "V (SetObj (HashTable []) FromHash)" "V (SetObj (SetTable []) FromSet)" "V (SetObj (ListDeque []) FromList)"
    and put_hash: "V obj \<Longrightarrow> GetHashObj obj = Some h \<Longrightarrow>
      (table_inv (=) fst h \<Longrightarrow> table_inv (=) fst h') \<Longrightarrow> V (SetObj (HashTable h') obj)"
    and put_set: "V obj \<Longrightarrow> GetSetObj obj = Some ms \<Longrightarrow>
      (table_inv (=) id ms \<Longrightarrow> table_inv (=) id ms') \<Longrightarrow> V (SetObj (SetTable ms') obj)"
    and put_list: "V obj \<Longrightarrow> GetListObj obj = Some l \<Longrightarrow>
      (\<And>x. x \<in> set l' \<Longrightarrow> x \<in> set l \<or> scalar_ok x) \<Longrightarrow> V (SetObj (ListDeque l') obj)"
    and list_elems: "V obj \<Longrightarrow> GetListObj obj = Some l \<Longrightarrow> x \<in> set l \<Longrightarrow> scalar_ok x"

sublocale value_contract \<subseteq> db_contract W "db_values V" scalar_ok V
proof unfold_locales
  fix db :: database and now k
  assume o: "db_values V db"
  note i = db_okD(1) [OF o] and s = shrinks_ok [OF o]
  show "db_inv db" by (rule i)
  show "db_values V (fst (Database_Find now k db))" by (rule s [OF shrinks_Find [OF i]])
  show "db_values V (fst (Database_Del now k db))" by (rule s [OF shrinks_Del [OF i]])
  show "db_values V (fst (Database_Persist now k db))" by (rule s [OF shrinks_Persist [OF i]])
  show "db_values V (remove_expired now db)" by (rule s [OF shrinks_remove_expired [OF i]])
  show "db_values V (ClearCurrentDB db)"
    unfolding ClearCurrentDB_def by (rule s [OF shrinks_clear_db [OF i db_invD(3) [OF i]]])
  show "db_values V (ClearAll db)" by (rule s [OF shrinks_ClearAll [OF i]])
  show "db_values V (fst (ActiveExpireCycle now n db))" for n by (rule s [OF shrinks_Active [OF i]])
  show "db_values V db'" if "Database_Expire now k ttl db = Inr (db', b)" for ttl db' b
    by (rule s [OF shrinks_Expire [OF i that]])
  show "db_values V db'" if "Database_TTL now k db = Inr (db', n)" for db' n
    by (rule s [OF shrinks_TTL [OF i that]])
  show "db_values V (fst (Database_Select j db))" for j by (rule db_ok_Select [OF o])
  show "db_values V db'" if "Database_Set k v db = Inr db'" "scalar_ok k" "V v" for v db'
    by (rule db_ok_Set [OF o that])
  show "db_values V (Database_Poke k v db)" if "V v" for v by (rule db_ok_Poke [OF o that])
  show "V v" if "snd (Database_Find now k db) = Some v" for v by (rule db_ok_Find_value [OF o that])
next
  fix obj l l'
  assume obj: "V obj" "GetListObj obj = Some l"
    and x: "\<And>x. x \<in> set l' \<Longrightarrow> x \<in> set l \<or> (\<exists>a s. x = NanoObj_copy a \<and> (scalar_ok a \<or> a \<in> set l) \<or> x = FromKey s)"
  show "V (SetObj (ListDeque l') obj)"
    using list_elems [OF obj] by (intro put_list [OF obj]) (auto dest!: x simp: FromKey_ok)
next
  show "V (NanoObj_copy a)" if "scalar_ok a" for a using that V_scalar by simp
  show "V (FromInt m)" if "in_int64 m" for m by (rule V_scalar [OF FromInt_ok [OF that]])
  show "V (FromKey s)" for s by (rule V_scalar [OF FromKey_ok])
  show "V (SetObj (HashTable h') obj)" if "V obj" "GetHashObj obj = Some h"
    "table_inv (=) fst h \<Longrightarrow> table_inv (=) fst h'" for obj h h' by (rule put_hash [OF that])
  show "V (SetObj (SetTable ms') obj)" if "V obj" "GetSetObj obj = Some ms"
    "table_inv (=) id ms \<Longrightarrow> table_inv (=) id ms'" for obj ms ms' by (rule put_set [OF that])
qed (simp_all add: FromKey_ok V_new)

lemmas new_container_defs = FromHash_def FromSet_def FromList_def InitRobj_def

interpretation ok: value_contract "\<lambda>_. True" obj_ok
proof unfold_locales
  show "obj_ok v" if "scalar_ok v" for v by (rule scalar_ok_obj_ok [OF that])
  show "obj_ok (SetObj (ListDeque l') obj)" if "obj_ok obj" "GetListObj obj = Some l"
    "\<And>x. x \<in> set l' \<Longrightarrow> x \<in> set l \<or> scalar_ok x" for obj l l' by (rule obj_ok_put_list [OF that])
qed (auto simp: new_container_defs intro: obj_ok_put_hash obj_ok_put_set list_elems_ok)

text \<open>
  A restart copies the loaded containers, which leaves the tag without a pointer and zeros in the
  other fields.
\<close>

definition loaded_ok :: "nano_obj \<Rightarrow> bool" where
  "loaded_ok v \<longleftrightarrow> obj_ok v \<or> v = RobjObj (Robj None 0 0 0)"

interpretation loaded: value_contract "\<lambda>_. True" loaded_ok
proof unfold_locales
  show "loaded_ok v" if "scalar_ok v" for v using that by (simp add: loaded_ok_def ok.V_scalar)
  show "loaded_ok (SetObj (HashTable h') obj)" if "loaded_ok obj" "GetHashObj obj = Some h"
    "table_inv (=) fst h \<Longrightarrow> table_inv (=) fst h'" for obj h h'
    using that by (auto simp: loaded_ok_def intro: obj_ok_put_hash)
  show "loaded_ok (SetObj (SetTable ms') obj)" if "loaded_ok obj" "GetSetObj obj = Some ms"
    "table_inv (=) id ms \<Longrightarrow> table_inv (=) id ms'" for obj ms ms'
    using that by (auto simp: loaded_ok_def intro: obj_ok_put_set)
  show "loaded_ok (SetObj (ListDeque l') obj)" if "loaded_ok obj" "GetListObj obj = Some l"
    "\<And>x. x \<in> set l' \<Longrightarrow> x \<in> set l \<or> scalar_ok x" for obj l l'
    using that by (auto simp: loaded_ok_def intro: obj_ok_put_list)
qed (auto simp: loaded_ok_def new_container_defs intro: list_elems_ok)

end
