(* ===== verification/String_Family.thy ===== *)
theory String_Family
  imports Db_Contract
begin

text \<open>
  \<open>src/command/string_family.cc\<close>: the string commands and the commands on keys and databases.
  Every handler is a definition over the world of \<open>Command_Context\<close>.  The single-shard part of
  a multi-key command works on the database of the context, the other part groups the keys by
  shard and sends one task to each.  \<open>clk e i\<close> is the reading of the clock that the command makes
  for its \<open>i\<close>-th argument.
\<close>

section \<open>Replies and numbers\<close>

definition quoted :: "string \<Rightarrow> string" where
  "quoted s = [CHR 0x27] @ s @ [CHR 0x27]"

definition wrong_args :: "string \<Rightarrow> string" where
  "wrong_args name = MakeError (''wrong number of arguments for '' @ quoted name)"

definition kInvalidIntegerError :: string where
  "kInvalidIntegerError = ''value is not an integer or out of range''"

definition kInvalidExpireTimeError :: string where
  "kInvalidExpireTimeError = ''invalid expire time in '' @ quoted ''set'' @ '' command''"

text \<open>Seconds to milliseconds, saturating.\<close>

definition seconds_to_ms :: "int \<Rightarrow> int" where
  "seconds_to_ms v = (if v > INT64_MAX div 1000 then INT64_MAX else v * 1000)"

definition AdjustIndex :: "int \<Rightarrow> int \<Rightarrow> int" where
  "AdjustIndex index len =
     (let index = (if index < 0 then index + len else index);
          index = (if index < 0 then 0 else index)
      in if index \<ge> len then len - 1 else index)"

text \<open>\<open>static_cast<size_t>\<close> and \<open>std::string::substr\<close>.\<close>

definition to_size_t :: "int \<Rightarrow> nat" where
  "to_size_t v = nat (v mod 2 ^ 64)"

definition substr :: "string \<Rightarrow> nat \<Rightarrow> nat \<Rightarrow> string result" where
  "substr s pos n = (if pos > length s then Inl OutOfRange else Inr (take n (drop pos s)))"

text \<open>\<open>std::string::resize(n, '\0')\<close> of a string that is not longer.\<close>

definition string_max_size :: nat where "string_max_size = 2 ^ 63 - 1"

definition resize :: "env \<Rightarrow> string \<Rightarrow> nat \<Rightarrow> string result" where
  "resize e s n =
     (if n > string_max_size then Inl LengthError
      else if n > alloc_limit e then Inl BadAlloc
      else Inr (take n s @ replicate (n - length s) (CHR 0x00)))"

definition bulk_or_null :: "string option \<Rightarrow> string" where
  "bulk_or_null val = (case val of Some s \<Rightarrow> MakeBulkString s | None \<Rightarrow> MakeNullBulkString)"

definition bulk_array :: "string list \<Rightarrow> string" where
  "bulk_array xs = MakeArray (int (length xs)) @ concat (map MakeBulkString xs)"

section \<open>Single keys\<close>

text \<open>Storing the value and its time to live, the tail of SET.\<close>

definition store_value :: "env \<Rightarrow> nano_obj \<Rightarrow> nano_obj \<Rightarrow> int \<Rightarrow> database \<Rightarrow> (string \<times> database) result" where
  "store_value e key value ttl_ms db =
     bind_r (Database_Set key (NanoObj_copy value) db) (\<lambda>db.
       if ttl_ms \<ge> 0 then
         bind_r (Database_Expire (clk e 0) key ttl_ms db) (\<lambda>(db, _). Inr (OkResponse, db))
       else Inr (OkResponse, fst (Database_Persist (clk e 0) key db)))"

definition Set :: handler where
  "Set e args w =
     (if length args \<noteq> 3 \<and> length args \<noteq> 5 then Inr (wrong_args ''SET'', touch_db w)
      else
        let store = (\<lambda>ttl_ms. with_db (store_value e (args ! 1) (args ! 2) ttl_ms) w)
        in if length args = 5 then
             (case ParseInt (ToString (args ! 4)) of
                None \<Rightarrow> Inr (MakeError kInvalidExpireTimeError, touch_db w)
              | Some ttl_value \<Rightarrow>
                  if ttl_value \<le> 0 then Inr (MakeError kInvalidExpireTimeError, touch_db w)
                  else if EqualsIgnoreCase (GetStringView (args ! 3)) ''EX'' then store (seconds_to_ms ttl_value)
                  else if EqualsIgnoreCase (GetStringView (args ! 3)) ''PX'' then store ttl_value
                  else Inr (MakeError ''syntax error'', touch_db w))
           else store (- 1))"

definition Get :: handler where
  "Get e args w =
     (if length args \<noteq> 2 then Inr (wrong_args ''GET'', touch_db w)
      else with_db (\<lambda>db. let (db, val) = Database_Get (clk e 0) (args ! 1) db in Inr (bulk_or_null val, db)) w)"

text \<open>The common shape of INCR, DECR, INCRBY and DECRBY: \<open>absent\<close> and \<open>present\<close> compute the new value.\<close>

definition update_counter ::
    "env \<Rightarrow> nano_obj \<Rightarrow> int result \<Rightarrow> (int \<Rightarrow> int result) \<Rightarrow> database \<Rightarrow> (string \<times> database) result" where
  "update_counter e key absent present db =
     (let store = (\<lambda>new_value db.
            bind_r (Database_Set key (FromInt new_value) db) (\<lambda>db. Inr (MakeInteger new_value, db)));
          (db, current) = Database_Get (clk e 0) key db
      in case current of
           Some cur \<Rightarrow>
             (case ParseInt cur of
                None \<Rightarrow> Inr (MakeError kInvalidIntegerError, db)
              | Some current_value \<Rightarrow> bind_r (present current_value) (\<lambda>v. store v db))
         | None \<Rightarrow> bind_r absent (\<lambda>v. store v db))"

definition Incr :: handler where
  "Incr e args w =
     (if length args \<noteq> 2 then Inr (wrong_args ''INCR'', w)
      else with_db (update_counter e (args ! 1) (Inr 1) (\<lambda>v. add_i64 v 1)) w)"

definition Decr :: handler where
  "Decr e args w =
     (if length args \<noteq> 2 then Inr (wrong_args ''DECR'', w)
      else with_db (update_counter e (args ! 1) (Inr (- 1)) (\<lambda>v. sub_i64 v 1)) w)"

definition IncrBy :: handler where
  "IncrBy e args w =
     (if length args \<noteq> 3 then Inr (wrong_args ''INCRBY'', touch_db w)
      else case ParseInt (ToString (args ! 2)) of
          None \<Rightarrow> Inr (MakeError kInvalidIntegerError, touch_db w)
        | Some increment \<Rightarrow>
            with_db (update_counter e (args ! 1) (Inr increment) (\<lambda>v. add_i64 v increment)) w)"

definition DecrBy :: handler where
  "DecrBy e args w =
     (if length args \<noteq> 3 then Inr (wrong_args ''DECRBY'', w)
      else case ParseInt (ToString (args ! 2)) of
          None \<Rightarrow> Inr (MakeError kInvalidIntegerError, touch_db w)
        | Some decrement \<Rightarrow>
            with_db (update_counter e (args ! 1) (sub_i64 0 decrement) (\<lambda>v. sub_i64 v decrement)) w)"

definition Append :: handler where
  "Append e args w =
     (if length args \<noteq> 3 then Inr (wrong_args ''APPEND'', touch_db w)
      else with_db (\<lambda>db.
        let key = args ! 1; value = args ! 2;
            (db, current) = Database_Get (clk e 0) key db;
            new_value = (case current of Some cur \<Rightarrow> cur @ ToString value | None \<Rightarrow> ToString value)
        in bind_r (Database_Set key (FromKey new_value) db)
             (\<lambda>db. Inr (MakeInteger (int (length new_value)), db))) w)"

definition StrLen :: handler where
  "StrLen e args w =
     (if length args \<noteq> 2 then Inr (wrong_args ''STRLEN'', touch_db w)
      else with_db (\<lambda>db.
        let (db, val) = Database_Get (clk e 0) (args ! 1) db
        in Inr (case val of Some s \<Rightarrow> MakeInteger (int (length s)) | None \<Rightarrow> MakeInteger 0, db)) w)"

definition type_name :: "nat \<Rightarrow> string" where
  "type_name t =
     (if t = OBJ_STRING then ''string'' else if t = OBJ_HASH then ''hash'' else if t = OBJ_SET then ''set''
      else if t = OBJ_LIST then ''list'' else if t = OBJ_ZSET then ''zset'' else ''none'')"

definition Type :: handler where
  "Type e args w =
     (if length args \<noteq> 2 then Inr (wrong_args ''TYPE'', w)
      else with_db (\<lambda>db.
        let (db, value) = Database_Find (clk e 0) (args ! 1) db
        in Inr (MakeSimpleString (case value of None \<Rightarrow> ''none'' | Some v \<Rightarrow> type_name (GetType v)), db)) w)"

definition GetRange :: handler where
  "GetRange e args w =
     (if length args \<noteq> 4 then Inr (wrong_args ''GETRANGE'', touch_db w)
      else case (ParseInt (ToString (args ! 2)), ParseInt (ToString (args ! 3))) of
          (Some start, Some end) \<Rightarrow>
            with_db (\<lambda>db.
              let (db, val) = Database_Get (clk e 0) (args ! 1) db
              in case val of
                   None \<Rightarrow> Inr (MakeBulkString [], db)
                 | Some s \<Rightarrow>
                     let len = int (length s);
                         adjusted_start = AdjustIndex start len;
                         adjusted_end = AdjustIndex end len
                     in if adjusted_start > adjusted_end then Inr (MakeBulkString [], db)
                        else bind_r (substr s (to_size_t adjusted_start)
                                       (to_size_t (adjusted_end - adjusted_start + 1)))
                               (\<lambda>result. Inr (MakeBulkString result, db))) w
        | _ \<Rightarrow> Inr (MakeError kInvalidIntegerError, touch_db w))"

definition SetRange :: handler where
  "SetRange e args w =
     (if length args \<noteq> 4 then Inr (wrong_args ''SETRANGE'', touch_db w)
      else case ParseInt (ToString (args ! 2)) of
          None \<Rightarrow> Inr (MakeError kInvalidIntegerError, touch_db w)
        | Some offset \<Rightarrow>
            with_db (\<lambda>db.
              let key = args ! 1;
                  (db, current) = Database_Get (clk e 0) key db;
                  new_value = (case current of Some cur \<Rightarrow> cur | None \<Rightarrow> []);
                  offset_sz = nat (if offset < 0 then 0 else offset);
                  value_str = ToString (args ! 3);
                  new_length = max (length new_value) (offset_sz + length value_str)
              in bind_r (resize e new_value new_length) (\<lambda>new_value.
                   let new_value = fold (\<lambda>i s. s[offset_sz + i := value_str ! i]) [0..<length value_str] new_value
                   in bind_r (Database_Set key (FromKey new_value) db)
                        (\<lambda>db. Inr (MakeInteger (int (length new_value)), db)))) w)"

definition Expire :: handler where
  "Expire e args w =
     (if length args \<noteq> 3 then Inr (wrong_args ''EXPIRE'', w)
      else case ParseInt (ToString (args ! 2)) of
          None \<Rightarrow> Inr (MakeError kInvalidIntegerError, touch_db w)
        | Some seconds \<Rightarrow>
            let ttl_ms = (if seconds > 0 then seconds_to_ms seconds else 0)
            in with_db (\<lambda>db.
                 bind_r (Database_Expire (clk e 0) (args ! 1) ttl_ms db)
                   (\<lambda>(db, ok). Inr (MakeInteger (if ok then 1 else 0), db))) w)"

definition TTL :: handler where
  "TTL e args w =
     (if length args \<noteq> 2 then Inr (wrong_args ''TTL'', w)
      else with_db (\<lambda>db.
        bind_r (Database_TTL (clk e 0) (args ! 1) db) (\<lambda>(db, n). Inr (MakeInteger n, db))) w)"

definition Persist :: handler where
  "Persist e args w =
     (if length args \<noteq> 2 then Inr (wrong_args ''PERSIST'', w)
      else with_db (\<lambda>db.
        let (db, ok) = Database_Persist (clk e 0) (args ! 1) db
        in Inr (MakeInteger (if ok then 1 else 0), db)) w)"

section \<open>Several keys\<close>

text \<open>Counting the keys of a list on which an operation succeeds.\<close>

definition count_hits :: "(int \<Rightarrow> nano_obj \<Rightarrow> database \<Rightarrow> database \<times> bool) \<Rightarrow> env \<Rightarrow> (nat \<times> nano_obj) list \<Rightarrow>
    database \<Rightarrow> (nat \<times> database) result" where
  "count_hits op e keys db =
     Inr (fold (\<lambda>(i, key) (c, db). let (db, hit) = op (clk e i) key db in (if hit then c + 1 else c, db))
            keys (0, db))"

definition keyed_args :: "env \<Rightarrow> nano_obj list \<Rightarrow> world \<Rightarrow> (nat \<times> nat \<times> string) list" where
  "keyed_args e args w =
     map (\<lambda>(i, a). let key = ToString a in (Shard e key (shard_count (ctx w)), i, key)) (enumerate 1 (tl args))"

definition Del :: handler where
  "Del e args w =
     (if length args < 2 then Inr (wrong_args ''DEL'', w)
      else if local_only w then
        bind_r (with_db (count_hits Database_Del e (enumerate 1 (tl args))) w)
          (\<lambda>(c, w). Inr (MakeInteger (int c), w))
      else
        bind_r (for_shards e (keyed_args e args w) 0
            (\<lambda>keys. count_hits Database_Del e (map (\<lambda>(i, key). (i, FromKey key)) keys)) (+) 0 w)
          (\<lambda>(c, w). Inr (MakeInteger (int c), w)))"

definition Exists :: handler where
  "Exists e args w =
     (if length args < 2 then Inr (wrong_args ''EXISTS'', w)
      else if local_only w then
        bind_r (with_db (count_hits Database_Exists e (enumerate 1 (tl args))) w)
          (\<lambda>(c, w). Inr (MakeInteger (int c), w))
      else
        bind_r (for_shards e (keyed_args e args w) 0
            (\<lambda>keys. count_hits Database_Exists e (map (\<lambda>(i, key). (i, FromKey key)) keys)) (+) 0 w)
          (\<lambda>(c, w). Inr (MakeInteger (int c), w)))"

fun pairs_of :: "nat \<Rightarrow> 'a list \<Rightarrow> (nat \<times> 'a \<times> 'a) list" where
  "pairs_of i (k # v # xs) = (i, k, v) # pairs_of (i + 2) xs"
| "pairs_of i _ = []"

definition set_pair :: "env \<Rightarrow> nat \<times> nano_obj \<times> nano_obj \<Rightarrow> database \<Rightarrow> database result" where
  "set_pair e p db =
     (let (i, key, value) = p
      in bind_r (Database_Set key value db) (\<lambda>db. Inr (fst (Database_Persist (clk e i) key db))))"

definition MSet :: handler where
  "MSet e args w =
     (if length args < 3 \<or> (length args - 1) mod 2 \<noteq> 0 then Inr (wrong_args ''MSET'', w)
      else if local_only w then
        with_db (\<lambda>db.
          bind_r (fold_r (set_pair e) (map (\<lambda>(i, k, v). (i, k, NanoObj_copy v)) (pairs_of 1 (tl args))) db)
            (\<lambda>db. Inr (OkResponse, db))) w
      else
        bind_r (for_shards e
            (map (\<lambda>(i, k, v). (Shard e (ToString k) (shard_count (ctx w)), i, ToString k, ToString v)) (pairs_of 1 (tl args)))
            ()
            (\<lambda>kvs db. bind_r (fold_r (set_pair e) (map (\<lambda>(i, k, v). (i, FromKey k, FromKey v)) kvs) db)
                         (\<lambda>db. Inr ((), db)))
            (\<lambda>_ s. s) () w)
          (\<lambda>(_, w). Inr (OkResponse, w)))"

definition get_all :: "env \<Rightarrow> (nat \<times> nano_obj) list \<Rightarrow> database \<Rightarrow> ((nat \<times> string option) list \<times> database) result" where
  "get_all e keys db =
     Inr (fold (\<lambda>(i, key) (out, db). let (db, val) = Database_Get (clk e i) key db in (out @ [(i, val)], db))
            keys ([], db))"

definition MGet :: handler where
  "MGet e args w =
     (if length args < 2 then Inr (wrong_args ''MGET'', w)
      else
        let num_keys = length args - 1;
            render = (\<lambda>vals. MakeArray (int num_keys) @ concat (map bulk_or_null vals))
        in if local_only w then
             bind_r (with_db (get_all e (enumerate 1 (tl args))) w)
               (\<lambda>(out, w). Inr (render (map snd out), w))
           else
             bind_r (for_shards e (keyed_args e args w) []
                 (\<lambda>reqs. get_all e (map (\<lambda>(i, key). (i, FromKey key)) reqs))
                 (\<lambda>out final_values. fold (\<lambda>(i, val) vs. vs[i - 1 := val]) out final_values)
                 (replicate num_keys None) w)
               (\<lambda>(final_values, w). Inr (render final_values, w)))"

section \<open>Databases and the server\<close>

fun select_shards :: "nat \<Rightarrow> nat list \<Rightarrow> world \<Rightarrow> (bool \<times> world) result" where
  "select_shards i [] w = Inr (True, w)"
| "select_shards i (shard_id # ids) w =
     bind_r (Await shard_id False (\<lambda>db. let (db, ok) = Database_Select i db in Inr (ok, db)) w)
       (\<lambda>(ok, w). if \<not> ok then Inr (False, w) else select_shards i ids w)"

definition set_ctx_db :: "nat \<Rightarrow> world \<Rightarrow> world" where
  "set_ctx_db i w = w\<lparr>ctx := (ctx w)\<lparr>db_index := i\<rparr>\<rparr>"

definition Select :: handler where
  "Select e args w =
     (let out_of_range = MakeError ''DB index out of range'' in
      if length args \<noteq> 2 then Inr (wrong_args ''SELECT'', w)
      else case ParseInt (ToString (args ! 1)) of
          None \<Rightarrow> Inr (MakeError kInvalidIntegerError, w)
        | Some i \<Rightarrow>
            if i < 0 \<or> nat i \<ge> kNumDBs then Inr (out_of_range, w)
            else case connection_id (ctx w) of
                Some cid \<Rightarrow>
                  (case conns w cid of
                     None \<Rightarrow> Inl NullDeref
                   | Some c \<Rightarrow>
                       let (c, ok) = SetDBIndex (nat i) c in
                       if \<not> ok then Inr (out_of_range, w)
                       else Inr (OkResponse, set_ctx_db (nat i) (w\<lparr>conns := (conns w)(cid \<mapsto> c)\<rparr>)))
              | None \<Rightarrow>
                  let w = touch_db w in
                  if shard_set (ctx w) \<and> \<not> IsSingleShard (ctx w) then
                    bind_r (select_shards (nat i) [0..<length (shards w)] w) (\<lambda>(ok, w).
                      if \<not> ok then Inr (out_of_range, w) else Inr (OkResponse, set_ctx_db (nat i) w))
                  else
                    bind_r (with_db (\<lambda>db. let (db, ok) = Database_Select (nat i) db in Inr (ok, db)) w) (\<lambda>(ok, w).
                      if \<not> ok then Inr (out_of_range, w) else Inr (OkResponse, set_ctx_db (nat i) w)))"

definition Keys :: handler where
  "Keys e args w =
     (if local_only w then
        with_db (\<lambda>db. let (db, keys) = Database_Keys (clk e 0) db in Inr (bulk_array keys, db)) w
      else
        bind_r (for_all_shards [] (\<lambda>i db. let (db, keys) = Database_Keys (clk e i) db in Inr (keys, db))
            (\<lambda>keys all_keys. all_keys @ keys) [] w)
          (\<lambda>(all_keys, w). Inr (bulk_array all_keys, w)))"

definition FlushDB :: handler where
  "FlushDB e args w =
     (if local_only w then with_db (\<lambda>db. Inr (OkResponse, ClearCurrentDB db)) w
      else
        bind_r (for_all_shards () (\<lambda>i db. Inr ((), ClearCurrentDB db)) (\<lambda>_ s. s) () w)
          (\<lambda>(_, w). Inr (OkResponse, w)))"

definition DBSize :: handler where
  "DBSize e args w =
     (if local_only w then
        with_db (\<lambda>db. let (db, n) = Database_KeyCount (clk e 0) db in Inr (MakeInteger (int n), db)) w
      else
        bind_r (for_all_shards 0 (\<lambda>i db. let (db, n) = Database_KeyCount (clk e i) db in Inr (n, db)) (+) 0 w)
          (\<lambda>(n, w). Inr (MakeInteger (int n), w)))"

definition ClearDatabase :: "world \<Rightarrow> world result" where
  "ClearDatabase w = bind_r (with_db (\<lambda>db. Inr ((), ClearAll db)) w) (\<lambda>(_, w). Inr w)"

definition Hello :: "nano_obj list \<Rightarrow> string" where
  "Hello args =
     (let unsupported = MakeError ''NOPROTO unsupported protocol version'';
          info = MakeArray 14 @ MakeBulkString ''server'' @ MakeBulkString ''nano_redis'' @
            MakeBulkString ''version'' @ MakeBulkString ''0.1.0'' @ MakeBulkString ''proto'' @ MakeInteger 2 @
            MakeBulkString ''id'' @ MakeInteger 1 @ MakeBulkString ''mode'' @ MakeBulkString ''standalone'' @
            MakeBulkString ''role'' @ MakeBulkString ''master'' @ MakeBulkString ''modules'' @ MakeArray 0
      in if length args > 1 then
           (case ParseInt (ToString (args ! 1)) of
              None \<Rightarrow> unsupported
            | Some proto_ver \<Rightarrow> if proto_ver < 2 \<or> proto_ver > 3 then unsupported else info)
         else info)"

section \<open>Every command keeps the contract of the databases\<close>

lemma add_i64_range: "add_i64 a b = Inr v \<Longrightarrow> in_int64 v" and sub_i64_range: "sub_i64 a b = Inr v \<Longrightarrow> in_int64 v"
  by (auto simp: add_i64_def sub_i64_def split: if_splits)

lemma pairs_of_set: "p \<in> set (pairs_of i xs) \<Longrightarrow> fst (snd p) \<in> set xs \<and> snd (snd p) \<in> set xs"
  by (induction i xs rule: pairs_of.induct) auto

context outside_contract
begin

lemma set_ctx_db_all: "world_in W P w \<Longrightarrow> i < kNumDBs \<Longrightarrow> world_in W P (set_ctx_db i w)"
  using W_context by (simp add: world_in_def world_inv_def set_ctx_db_def outside_def)

lemma set_conn_db_all:
  "world_in W P w \<Longrightarrow> conns w cid = Some c \<Longrightarrow> i < kNumDBs \<Longrightarrow>
     world_in W P (w\<lparr>conns := (conns w)(cid \<mapsto> c\<lparr>conn_db_index := i\<rparr>)\<rparr>)"
  using W_connection by (simp add: world_in_def world_inv_def outside_def)

end

context db_contract
begin

lemma update_counter_P:
  assumes "P db" "K key" "update_counter e key a p db = Inr (r, db')"
    and "\<And>v. a = Inr v \<Longrightarrow> in_int64 v" "\<And>m v. p m = Inr v \<Longrightarrow> in_int64 v"
  shows "P db'"
proof -
  have set: "P db2" if "P db1" "Database_Set key (FromInt v) db1 = Inr db2" "in_int64 v" for v db1 db2
    using P_Set [OF that(1,2) assms(2) V_FromInt [OF that(3)]] .
  show ?thesis
    using assms(1,3-) by (auto simp: update_counter_def keep_simps split: option.splits intro: set [OF P_reads(2) [OF assms(1)]])
qed

lemma count_hits_P:
  assumes "\<And>now k db. P db \<Longrightarrow> P (fst (op now k db))" "P db" "count_hits op e keys db = Inr (r, db')"
  shows "P db'"
proof -
  have "P (snd (fold (\<lambda>(i, key) (c, db). let (db, hit) = op (clk e i) key db in (if hit then c + 1 else c, db)) keys (0 :: nat, db)))"
    by (rule fold_inv [of "\<lambda>s. P (snd s)"]) (auto simp: Let_def case_prod_unfold assms(1,2))
  then show ?thesis using assms(3) by (simp add: count_hits_def)
qed

lemma get_all_P:
  assumes "P db" "get_all e keys db = Inr (r, db')"
  shows "P db'"
proof -
  have "P (snd (fold (\<lambda>(i, key) (out, db). let (db, val) = Database_Get (clk e i) key db in (out @ [(i, val)], db)) keys ([], db)))"
    by (rule fold_inv [of "\<lambda>s. P (snd s)"]) (auto simp: Let_def case_prod_unfold assms(1) P_reads)
  then show ?thesis using assms(2) by (simp add: get_all_def)
qed

lemma set_pairs_P:
  assumes "P db" "fold_r (set_pair e) ps db = Inr db'" "\<And>p. p \<in> set ps \<Longrightarrow> K (fst (snd p)) \<and> V (snd (snd p))"
  shows "P db'"
  using assms(2,1)
proof (rule fold_r_inv)
  fix x db1 db2
  assume x: "x \<in> set ps" "P db1" "set_pair e x db1 = Inr db2"
  then obtain db3 where "Database_Set (fst (snd x)) (snd (snd x)) db1 = Inr db3"
    "db2 = fst (Database_Persist (clk e (fst x)) (fst (snd x)) db3)"
    by (auto simp: set_pair_def keep_simps)
  then show "P db2" using P_Set [OF x(2)] assms(3) [OF x(1)] P_Persist by blast
qed

lemma store_value_P:
  assumes "P db" "store_value e key v t db = Inr (r, db')" "K key" "K v"
  shows "P db'"
proof -
  have set: "P db2" if "Database_Set key (NanoObj_copy v) db = Inr db2" for db2
    using P_Set [OF assms(1) that assms(3) V_copy [OF assms(4)]] .
  show ?thesis
    using assms(2) by (auto simp: store_value_def keep_simps split: if_splits dest!: set P_Expire [rotated] intro: P_Persist)
qed

lemma Set_keeps: "keeps W P K Set"
proof (rule keepsI)
  fix e args w r w'
  assume a: "list_all K args" and w: "world_in W P w" and r: "Set e args w = Inr (r, w')"
  have store: "world_in W P w'" if "with_db (store_value e (args ! 1) (args ! 2) t) w = Inr (r, w')" "2 < length args" for t
    using w that(1) by (rule with_db_all) (rule store_value_P, use a that(2) in \<open>auto intro: arg_K\<close>)
  show "world_in W P w'"
    using r w by (auto simp: Set_def Let_def intro: touch_db_all store split: if_splits option.splits)
qed

lemma Get_keeps: "keeps W P K Get"
  by (rule keepsI) (auto simp: Get_def touch_db_all keep_simps split: if_splits elim!: with_db_all)

lemma counter_keeps:
  assumes "world_in W P w" "with_db (update_counter e key a p) w = Inr (r, w')" "K key"
    and "\<And>v. a = Inr v \<Longrightarrow> in_int64 v" "\<And>m v. p m = Inr v \<Longrightarrow> in_int64 v"
  shows "world_in W P w'"
  using assms(1,2) by (rule with_db_all) (rule update_counter_P [OF _ assms(3) _ assms(4,5)])

lemmas counter_elim = counter_keeps [rotated]

lemma Incr_keeps: "keeps W P K Incr" and Decr_keeps: "keeps W P K Decr"
  by (rule keepsI; auto simp: Incr_def Decr_def in_int64_def INT64_MAX_def INT64_MIN_def arg_K
      dest!: add_i64_range sub_i64_range elim!: counter_elim split: if_splits)+

lemma IncrBy_keeps: "keeps W P K IncrBy" and DecrBy_keeps: "keeps W P K DecrBy"
  by (rule keepsI; auto simp: IncrBy_def DecrBy_def arg_K touch_db_all
      dest: add_i64_range sub_i64_range ParseInt_in_range elim!: counter_elim
      split: if_splits option.splits)+

lemma Append_keeps: "keeps W P K Append"
  by (rule keepsI) (auto simp: Append_def touch_db_all keep_simps V_FromKey arg_K split: if_splits elim!: with_db_all
      dest!: P_Set [rotated])

lemma StrLen_keeps: "keeps W P K StrLen"
  by (rule keepsI) (auto simp: StrLen_def touch_db_all keep_simps split: if_splits elim!: with_db_all)

lemma Type_keeps: "keeps W P K Type"
  by (rule keepsI) (auto simp: Type_def touch_db_all keep_simps split: if_splits elim!: with_db_all)

lemma GetRange_keeps: "keeps W P K GetRange"
  by (rule keepsI) (auto simp: GetRange_def touch_db_all keep_simps split: if_splits option.splits elim!: with_db_all)

lemma SetRange_keeps: "keeps W P K SetRange"
  by (rule keepsI) (auto simp: SetRange_def touch_db_all keep_simps V_FromKey arg_K split: if_splits option.splits
      elim!: with_db_all dest!: P_Set [rotated])

lemma Expire_keeps: "keeps W P K Expire"
  by (rule keepsI) (auto simp: Expire_def touch_db_all keep_simps split: if_splits option.splits elim!: with_db_all
      dest!: P_Expire [rotated])

lemma TTL_keeps: "keeps W P K TTL"
  by (rule keepsI) (auto simp: TTL_def touch_db_all keep_simps split: if_splits option.splits elim!: with_db_all
      dest!: P_TTL [rotated])

lemma Persist_keeps: "keeps W P K Persist"
  by (rule keepsI) (auto simp: Persist_def touch_db_all keep_simps split: if_splits option.splits elim!: with_db_all)

lemma count_keeps:
  assumes "\<And>now k db. P db \<Longrightarrow> P (fst (op now k db))" "world_in W P w"
  shows "with_db (count_hits op e ks) w = Inr (r, w') \<Longrightarrow> world_in W P w'"
    "for_shards e ps a (\<lambda>keys. count_hits op e (g keys)) upd s w = Inr (r', w') \<Longrightarrow> world_in W P w'"
proof -
  show "with_db (count_hits op e ks) w = Inr (r, w') \<Longrightarrow> world_in W P w'"
    by (erule with_db_all [OF assms(2)], rule count_hits_P, rule assms(1))
  show "for_shards e ps a (\<lambda>keys. count_hits op e (g keys)) upd s w = Inr (r', w') \<Longrightarrow> world_in W P w'"
    by (erule for_shards_all [OF assms(2)], rule count_hits_P, rule assms(1))
qed

lemma Del_keeps: "keeps W P K Del"
  using count_keeps [of Database_Del, OF P_reads(4)]
  by (intro keepsI) (auto simp: Del_def bind_r_Inr_iff split: if_splits)

lemma Exists_keeps: "keeps W P K Exists"
  using count_keeps [of Database_Exists, OF P_reads(3)]
  by (intro keepsI) (auto simp: Exists_def bind_r_Inr_iff split: if_splits)

lemma MSet_keeps: "keeps W P K MSet"
proof (rule keepsI)
  fix e args w r w'
  assume a: "list_all K args" and w: "world_in W P w" and r: "MSet e args w = Inr (r, w')"
  have pair: "K (fst (snd p)) \<and> K (snd (snd p))" if "p \<in> set (pairs_of 1 (tl args))" for p
    using pairs_of_set [OF that] a by (cases args) (auto simp: list_all_iff)
  show "world_in W P w'"
  proof (cases "length args < 3 \<or> (length args - 1) mod 2 \<noteq> 0 \<or> local_only w")
    case True
    with w r pair show ?thesis
      by (fastforce simp: MSet_def bind_r_Inr_iff split: if_splits elim!: with_db_all [rotated] intro: set_pairs_P V_copy)
  next
    case False
    with w r show ?thesis
      by (auto simp: MSet_def bind_r_Inr_iff K_FromKey V_FromKey split: if_splits elim!: for_shards_all [rotated] set_pairs_P [rotated])
  qed
qed

lemma MGet_keeps: "keeps W P K MGet"
  by (rule keepsI) (auto simp: MGet_def bind_r_Inr_iff Let_def split: if_splits
      elim!: keeps_elims dest: get_all_P)

lemma select_shards_all: "select_shards i ids w = Inr (ok, w') \<Longrightarrow> world_in W P w \<Longrightarrow> world_in W P w' \<and> ctx w' = ctx w"
proof (induction ids arbitrary: w)
  case (Cons s ids)
  then obtain ok1 w1 where a: "Await s False (\<lambda>db. let (db, ok) = Database_Select i db in Inr (ok, db)) w = Inr (ok1, w1)"
    by (auto simp: bind_r_Inr_iff)
  have "world_in W P w1"
    by (rule Await_all [OF Cons.prems(2) a]) (auto simp: Let_def case_prod_unfold P_reads)
  with Cons a show ?case by (auto dest: Await_ctx split: if_splits)
qed simp

lemma Select_keeps: "keeps W P K Select"
proof (rule keepsI)
  fix e args w r w'
  assume w: "world_in W P w" and r: "Select e args w = Inr (r, w')"
  have t: "world_in W P (touch_db w)" using w by (rule touch_db_all)
  have sel: "world_in W P w1" if "with_db (\<lambda>db. let (db, ok) = Database_Select i db in Inr (ok, db)) (touch_db w) = Inr (ok, w1)" for i ok w1
    using t that by (rule with_db_all) (auto simp: Let_def case_prod_unfold P_reads)
  show "world_in W P w'"
  proof (cases "connection_id (ctx w)")
    case None
    with r w t sel show ?thesis
      by (auto simp: Select_def Let_def bind_r_Inr_iff split: if_splits option.splits
          intro!: set_ctx_db_all dest: select_shards_all)
  next
    case (Some c)
    with r w show ?thesis
      by (auto simp: Select_def Let_def SetDBIndex_def split: if_splits option.splits intro!: set_ctx_db_all set_conn_db_all)
  qed
qed

lemma Keys_keeps: "keeps W P K Keys"
  by (rule keepsI) (auto simp: Keys_def keep_simps split: if_splits elim!: keeps_elims)

lemma FlushDB_keeps: "keeps W P K FlushDB"
  by (rule keepsI) (auto simp: FlushDB_def keep_simps split: if_splits elim!: keeps_elims)

lemma DBSize_keeps: "keeps W P K DBSize"
  by (rule keepsI) (auto simp: DBSize_def keep_simps split: if_splits elim!: keeps_elims)

end

section \<open>What a client sees\<close>

text \<open>The value of a key in the database of the context, and whether its expiry time has passed.\<close>

definition visible :: "world \<Rightarrow> int \<Rightarrow> nano_obj \<Rightarrow> nano_obj option" where
  "visible w now k = (case context_db w of None \<Rightarrow> None | Some db \<Rightarrow> db_view db (db_index (ctx w)) now k)"

definition expired :: "world \<Rightarrow> int \<Rightarrow> nano_obj \<Rightarrow> bool" where
  "expired w now k = (case context_db w of None \<Rightarrow> False | Some db \<Rightarrow> IsExpiredInDB db (db_index (ctx w)) k now)"

lemma GetDB_visible:
  assumes "world_inv w" "GetDB w = Some db"
  shows "visible w now k = db_view db (current_db db) now k"
    "expired w now k = IsExpiredInDB db (current_db db) k now"
proof -
  from assms(2) obtain d where d: "context_db w = Some d" "db = select_db (db_index (ctx w)) d"
    by (auto simp: GetDB_def)
  have "db_inv d"
    using assms(1) d(1) by (auto simp: context_db_def world_inv_def list_all_length split: option.splits if_splits)
  note S = select_db_ok [OF this, of "db_index (ctx w)"]
  show "visible w now k = db_view db (current_db db) now k"
    using d S(5) GetDB_inv(2) [OF assms] by (simp add: visible_def)
  show "expired w now k = IsExpiredInDB db (current_db db) k now"
    using d S(4) GetDB_inv(2) [OF assms] by (simp add: expired_def IsExpiredInDB_expiry)
qed

lemma put_db_visible:
  assumes "world_inv w" "GetDB w = Some db"
  shows "visible (put_db db' w) now k = db_view db' (current_db db) now k"
  using context_db_put [OF assms, of db'] GetDB_inv(2) [OF assms] by (simp add: visible_def)

lemma visible_cong: "NanoObj_eq k k' \<Longrightarrow> visible w now k = visible w now k'"
  by (simp add: visible_def db_view_cong split: option.splits)

subsection \<open>SET and GET\<close>

lemma Set_view:
  assumes "db_inv db" "Database_Set k v db = Inr db'"
  shows "db_view db' j now k' = (if j = current_db db \<and> NanoObj_eq k k'
    then (if IsExpiredInDB db j k now then None else Some v) else db_view db j now k')"
  using Set_ok [OF assms] db_cong(3) [of k k' db j now]
  by (auto simp: db_view_def IsExpiredInDB_expiry db_get_def split: option.splits)

lemma store_value_ok:
  assumes inv: "db_inv db" and r: "store_value e k v t db = Inr (r, db')" and now: "clk e 0 \<le> now"
  shows "r = OkResponse" "current_db db' = current_db db"
    "db_view db' j now k' = (if j = current_db db \<and> NanoObj_eq k k'
       then (if IsExpiredInDB db j k (clk e 0) \<or> 0 \<le> t \<and> expiry_deadline (clk e 0) t \<le> now then None
             else Some (NanoObj_copy v))
       else db_view db j now k')"
proof -
  obtain d where d: "Database_Set k (NanoObj_copy v) db = Inr d"
    and b: "(if t \<ge> 0 then bind_r (Database_Expire (clk e 0) k t d) (\<lambda>(db, _). Inr (OkResponse, db))
             else Inr (OkResponse, fst (Database_Persist (clk e 0) k d))) = Inr (r, db')"
    using r by (auto simp: store_value_def bind_r_Inr_iff)
  note S = Set_ok [OF inv d] and V = Set_view [OF inv d]
  have "r = OkResponse \<and> current_db db' = current_db db \<and>
    db_view db' j now k' = (if j = current_db d \<and> NanoObj_eq k k'
       then (if 0 \<le> t \<and> expiry_deadline (clk e 0) t \<le> now then None else db_view d j (clk e 0) k')
       else db_view d j now k')"
  proof (cases "t \<ge> 0")
    case True
    with b obtain x where x: "Database_Expire (clk e 0) k t d = Inr (db', x)" "r = OkResponse"
      by (auto simp: bind_r_Inr_iff)
    note E = Expire_ok [OF S(1) x(1)]
    show ?thesis using E(2) E(4) [OF now, of j k'] S(2) x(2) True by simp
  next
    case False
    with b obtain x where x: "Database_Persist (clk e 0) k d = (db', x)" "r = OkResponse"
      by (cases "Database_Persist (clk e 0) k d") auto
    note P = Persist_ok [OF S(1) x(1)]
    show ?thesis using P(2) P(3) [OF now, of j k'] S(2) x(2) False by simp
  qed
  then show "r = OkResponse" "current_db db' = current_db db"
    "db_view db' j now k' = (if j = current_db db \<and> NanoObj_eq k k'
       then (if IsExpiredInDB db j k (clk e 0) \<or> 0 \<le> t \<and> expiry_deadline (clk e 0) t \<le> now then None
             else Some (NanoObj_copy v))
       else db_view db j now k')"
    using V S(2) by (auto split: if_splits)
qed

lemma with_store_value:
  assumes "world_inv w" "with_db (store_value e k v t) w = Inr (r, w')" "clk e 0 \<le> now"
  shows "r = OkResponse" "world_inv w'"
    "visible w' now k' = (if NanoObj_eq k k'
       then (if expired w (clk e 0) k \<or> 0 \<le> t \<and> expiry_deadline (clk e 0) t \<le> now then None
             else Some (NanoObj_copy v))
       else visible w now k')"
proof -
  obtain db db' where db: "GetDB w = Some db" "store_value e k v t db = Inr (r, db')" "w' = put_db db' w"
    by (rule with_db_Inr [OF assms(2)])
  note i = GetDB_inv [OF assms(1) db(1)]
  note S = store_value_ok [OF i(1) db(2) assms(3)]
  show "r = OkResponse" by (rule S(1))
  show "world_inv w'" using db(3) inv.store_value_P [OF i(1) db(2)] put_db_inv [OF assms(1)] by simp
  show "visible w' now k' = (if NanoObj_eq k k'
       then (if expired w (clk e 0) k \<or> 0 \<le> t \<and> expiry_deadline (clk e 0) t \<le> now then None
             else Some (NanoObj_copy v))
       else visible w now k')"
    using S(3) [of "current_db db" k'] unfolding db(3)
    by (simp add: put_db_visible [OF assms(1) db(1)] GetDB_visible [OF assms(1) db(1)])
qed

lemma Get_ok:
  assumes "world_inv w" "Get e [c, k] w = Inr (r, w')"
  shows "r = bulk_or_null (map_option ToString (visible w (clk e 0) k))" "world_inv w'"
    "clk e 0 \<le> now \<Longrightarrow> visible w' now k' = visible w now k'"
proof -
  from assms(2) have "with_db (\<lambda>db. let (db, val) = Database_Get (clk e 0) k db in Inr (bulk_or_null val, db)) w = Inr (r, w')"
    by (simp add: Get_def)
  then obtain db db' where db1: "GetDB w = Some db"
    and g: "(let (db, val) = Database_Get (clk e 0) k db in Inr (bulk_or_null val, db)) = (Inr (r, db') :: (string \<times> database) result)"
    and db2: "w' = put_db db' w"
    by (rule with_db_Inr)
  note db = db1 db2
  note i = GetDB_inv [OF assms(1) db(1)]
  note F = Find_ok [OF i(1), of "clk e 0" k] and P = Prune_ok [OF i(1) db_invD(3) [OF i(1)], where k = k and now = "clk e 0"]
  have r: "r = bulk_or_null (map_option ToString (db_view db (current_db db) (clk e 0) k))"
    and d: "db' = PruneExpiredInDB (current_db db) k (clk e 0) db"
    using g F by (auto simp: Get_Find)
  show "r = bulk_or_null (map_option ToString (visible w (clk e 0) k))"
    using r by (simp add: GetDB_visible [OF assms(1) db(1)])
  show "world_inv w'" using db(2) put_db_inv [OF assms(1) P(1)] d by simp
  show "clk e 0 \<le> now \<Longrightarrow> visible w' now k' = visible w now k'"
    using P(5) [of now "current_db db" k'] unfolding db(2) d
    by (simp add: put_db_visible [OF assms(1) db(1)] GetDB_visible [OF assms(1) db(1)])
qed

subsection \<open>Commands that read a value and store a new one\<close>

lemma Get_eq:
  "db_inv db \<Longrightarrow> Database_Get now k db =
     (PruneExpiredInDB (current_db db) k now db, map_option ToString (db_view db (current_db db) now k))"
  by (simp add: Get_Find Find_ok)

lemma Prune_expired:
  assumes "db_inv db"
  shows "IsExpiredInDB (PruneExpiredInDB (current_db db) k t db) (current_db db) k now \<longleftrightarrow>
    db_view db (current_db db) t k \<noteq> None \<and> IsExpiredInDB db (current_db db) k now"
proof -
  note i = db_invD(3) [OF assms]
  have e: "NanoObj_eq k k \<or> db_expiry db (current_db db) k = None"
    by (cases "NanoObj_eq k k") (simp_all add: db_expiry_def nt_Find_irrefl)
  show ?thesis
    using Prune_ok(4) [OF assms i, where k = k and now = t and j = "current_db db" and k' = k] e
      db_invD(8) [OF assms i, of k]
    by (auto simp: IsExpiredInDB_expiry db_view_eq split: option.splits if_splits)
qed

lemma Set_after_prune:
  assumes inv: "db_inv db" and s: "Database_Set k v (PruneExpiredInDB (current_db db) k t db) = Inr db'" and t: "t \<le> now"
  shows "db_inv db'" "current_db db' = current_db db"
    "db_view db' j now k' = (if j = current_db db \<and> NanoObj_eq k k'
       then (if db_view db j t k \<noteq> None \<and> IsExpiredInDB db j k now then None else Some v)
       else db_view db j now k')"
proof -
  note P = Prune_ok [OF inv db_invD(3) [OF inv], where k = k and now = t]
  show "db_inv db'" "current_db db' = current_db db" using Set_ok(1,2) [OF P(1) s] P(2) by simp_all
  show "db_view db' j now k' = (if j = current_db db \<and> NanoObj_eq k k'
       then (if db_view db j t k \<noteq> None \<and> IsExpiredInDB db j k now then None else Some v)
       else db_view db j now k')"
    using Set_view [OF P(1) s, of j now k'] P(2) P(5) [OF t, of j k'] Prune_expired [OF inv, of k t now]
    by auto
qed

text \<open>
  The effect on the world: the key has the new value, with its old expiry time if it was there, and
  nothing else is different.
\<close>

definition stored :: "world \<Rightarrow> int \<Rightarrow> nano_obj \<Rightarrow> nano_obj \<Rightarrow> world \<Rightarrow> bool" where
  "stored w t k v w' \<longleftrightarrow> (\<forall>now k'. t \<le> now \<longrightarrow> visible w' now k' =
     (if NanoObj_eq k k' then (if visible w t k \<noteq> None \<and> expired w now k then None else Some v)
      else visible w now k'))"

definition unchanged :: "world \<Rightarrow> int \<Rightarrow> world \<Rightarrow> bool" where
  "unchanged w t w' \<longleftrightarrow> (\<forall>now k'. t \<le> now \<longrightarrow> visible w' now k' = visible w now k')"

lemma stored_put:
  assumes "world_inv w" "GetDB w = Some db" "Database_Set k v (PruneExpiredInDB (current_db db) k t db) = Inr db'"
  shows "stored w t k v (put_db db' w)"
  using Set_after_prune(3) [OF GetDB_inv(1) [OF assms(1,2)] assms(3)]
  by (auto simp: stored_def put_db_visible [OF assms(1,2)] GetDB_visible [OF assms(1,2)])

lemma unchanged_prune:
  assumes "world_inv w" "GetDB w = Some db"
  shows "unchanged w t (put_db (PruneExpiredInDB (current_db db) k t db) w)"
  using Prune_ok(5) [OF GetDB_inv(1) [OF assms] db_invD(3) [OF GetDB_inv(1) [OF assms]], where k = k and now = t]
  by (simp add: unchanged_def put_db_visible [OF assms] GetDB_visible [OF assms])

lemma update_counter_world:
  assumes "world_inv w" "GetDB w = Some db"
  shows "with_db (update_counter e k a p) w =
    (let store = (\<lambda>v. bind_r (Database_Set k (IntObj v) (PruneExpiredInDB (current_db db) k (clk e 0) db))
                       (\<lambda>db'. Inr (MakeInteger v, put_db db' w)))
     in case visible w (clk e 0) k of
          None \<Rightarrow> bind_r a store
        | Some obj \<Rightarrow> (case ParseInt (ToString obj) of
              None \<Rightarrow> Inr (MakeError kInvalidIntegerError, put_db (PruneExpiredInDB (current_db db) k (clk e 0) db) w)
            | Some m \<Rightarrow> bind_r (p m) store))"
  using GetDB_inv(1) [OF assms]
  by (auto simp: with_db_def assms(2) update_counter_def Get_eq GetDB_visible [OF assms] FromInt_def
      bind_r_assoc Let_def split: option.splits)

text \<open>The number a counter command starts from: 0 if the key is absent, none if the value is no integer.\<close>

definition counter_value :: "world \<Rightarrow> int \<Rightarrow> nano_obj \<Rightarrow> int option" where
  "counter_value w now k = (case visible w now k of None \<Rightarrow> Some 0 | Some obj \<Rightarrow> ParseInt (ToString obj))"

lemma counter_step:
  assumes w: "world_inv w" and db: "GetDB w = Some db"
    and a: "a = p 0"
    and r: "with_db (update_counter e k a p) w = R"
  shows "counter_value w (clk e 0) k = None \<Longrightarrow>
      \<exists>w'. R = Inr (MakeError kInvalidIntegerError, w') \<and> unchanged w (clk e 0) w'"
    "counter_value w (clk e 0) k = Some m \<Longrightarrow> p m = Inl f \<Longrightarrow> R = Inl f"
    "counter_value w (clk e 0) k = Some m \<Longrightarrow> p m = Inr n \<Longrightarrow>
      R = Inl BadAlloc \<or> (\<exists>w'. R = Inr (MakeInteger n, w') \<and> stored w (clk e 0) k (IntObj n) w')"
proof -
  let ?p = "PruneExpiredInDB (current_db db) k (clk e 0) db"
  note u = update_counter_world [OF w db, of e k a p, unfolded r Let_def]
  note i = GetDB_inv(1) [OF w db]
  show "\<exists>w'. R = Inr (MakeError kInvalidIntegerError, w') \<and> unchanged w (clk e 0) w'"
    if "counter_value w (clk e 0) k = None"
    using that u unchanged_prune [OF w db] by (auto simp: counter_value_def split: option.splits)
  show "R = Inl f" if "counter_value w (clk e 0) k = Some m" "p m = Inl f"
    using that u by (auto simp: counter_value_def a split: option.splits)
  have s: "Database_Set k (IntObj n) ?p = Inl BadAlloc \<or>
      (\<exists>db'. Database_Set k (IntObj n) ?p = Inr db' \<and> stored w (clk e 0) k (IntObj n) (put_db db' w))" for n
    using Set_total [OF Prune_ok(1) [OF i db_invD(3) [OF i]]] stored_put [OF w db] by blast
  show "R = Inl BadAlloc \<or> (\<exists>w'. R = Inr (MakeInteger n, w') \<and> stored w (clk e 0) k (IntObj n) w')"
    if "counter_value w (clk e 0) k = Some m" "p m = Inr n"
  proof -
    have "R = bind_r (Database_Set k (IntObj n) ?p) (\<lambda>db'. Inr (MakeInteger n, put_db db' w))"
      using that u by (auto simp: counter_value_def a split: option.splits)
    then show ?thesis using s [of n] by auto
  qed
qed

subsection \<open>Ranges of bytes\<close>

lemma AdjustIndex_bounds: "0 < len \<Longrightarrow> 0 \<le> AdjustIndex i len \<and> AdjustIndex i len < len"
  by (auto simp: AdjustIndex_def Let_def)

lemma AdjustIndex_empty: "AdjustIndex i 0 = - 1"
  by (auto simp: AdjustIndex_def Let_def)

lemma slice_eq:
  assumes "0 \<le> a" "a \<le> b" "b < int (length s)"
  shows "take (to_size_t (b - a + 1)) (drop (to_size_t a) s) = map ((!) s) [nat a..<nat (b + 1)] \<or> 2 ^ 64 \<le> length s"
proof (cases "length s < 2 ^ 64")
  case True
  then have "to_size_t (b - a + 1) = nat (b + 1) - nat a" "to_size_t a = nat a"
    using assms by (simp_all add: to_size_t_def)
  then show ?thesis using assms by (auto intro!: nth_equalityI)
qed simp

lemma GetRange_world:
  assumes "world_inv w" "GetDB w = Some db" "ParseInt (ToString a) = Some start" "ParseInt (ToString b) = Some fin"
  shows "GetRange e [c, k, a, b] w =
    (let w' = put_db (PruneExpiredInDB (current_db db) k (clk e 0) db) w
     in case visible w (clk e 0) k of
          None \<Rightarrow> Inr (MakeBulkString [], w')
        | Some obj \<Rightarrow>
            let s = ToString obj; x = AdjustIndex start (int (length s)); y = AdjustIndex fin (int (length s))
            in if x > y then Inr (MakeBulkString [], w')
               else bind_r (substr s (to_size_t x) (to_size_t (y - x + 1))) (\<lambda>r. Inr (MakeBulkString r, w')))"
  using GetDB_inv(1) [OF assms(1,2)]
  by (auto simp: GetRange_def with_db_def assms(2-4) Get_eq GetDB_visible [OF assms(1,2)] bind_r_assoc Let_def
      split: option.splits)

lemma overwrite_bytes:
  assumes "off + length v \<le> length s"
  shows "fold (\<lambda>i s. s[off + i := v ! i]) [0..<length v] s = take off s @ v @ drop (off + length v) s"
proof -
  have "fold (\<lambda>i s. s[off + i := v ! i]) [0..<n] s = take off s @ take n v @ drop (off + n) s" if "n \<le> length v" for n
    using that
  proof (induction n)
    case (Suc n)
    have "(take off s @ take n v @ drop (off + n) s)[off + n := v ! n] =
        take off s @ take (Suc n) v @ drop (off + Suc n) s"
      using Suc.prems assms
      by (intro nth_equalityI) (auto simp: nth_append nth_list_update min_def take_Suc_conv_app_nth less_Suc_eq nth_Cons' )
    with Suc show ?case by simp
  qed simp
  from this [of "length v"] show ?thesis by simp
qed

text \<open>The value after SETRANGE: the old bytes, padded with NUL, with the new ones written over them.\<close>

definition overwritten :: "string \<Rightarrow> nat \<Rightarrow> string \<Rightarrow> string" where
  "overwritten old off v =
     map (\<lambda>i. if off \<le> i \<and> i < off + length v then v ! (i - off) else if i < length old then old ! i else CHR 0x00)
       [0..<max (length old) (off + length v)]"

lemma overwritten_eq:
  fixes old :: string and off :: nat and v :: string
  defines "n \<equiv> max (length old) (off + length v)"
  defines "s \<equiv> take n old @ replicate (n - length old) (CHR 0x00)"
  shows "fold (\<lambda>i s. s[off + i := v ! i]) [0..<length v] s = overwritten old off v"
proof -
  have l: "length s = n" "off + length v \<le> n" "length old \<le> n" by (auto simp: s_def n_def)
  have s: "s ! i = (if i < length old then old ! i else CHR 0x00)" if "i < n" for i
    using that l(3) by (auto simp: s_def nth_append)
  have "take off s @ v @ drop (off + length v) s = overwritten old off v"
    using l(1,2) by (intro nth_equalityI) (auto simp: overwritten_def n_def [symmetric] nth_append s)
  then show ?thesis using overwrite_bytes [of off v s] l by simp
qed

lemma SetRange_world:
  fixes k :: nano_obj and e :: env
  assumes "world_inv w" "GetDB w = Some db" "ParseInt (ToString a) = Some off" "0 \<le> off"
  defines "old \<equiv> (case visible w (clk e 0) k of None \<Rightarrow> [] | Some obj \<Rightarrow> ToString obj)"
  assumes "max (length old) (nat off + length (ToString v)) \<le> min string_max_size (alloc_limit e)"
  shows "SetRange e [c, k, a, v] w =
    (let new_value = overwritten old (nat off) (ToString v)
     in bind_r (Database_Set k (FromKey new_value) (PruneExpiredInDB (current_db db) k (clk e 0) db))
          (\<lambda>db'. Inr (MakeInteger (int (length new_value)), put_db db' w)))"
proof -
  have o: "(case map_option ToString (db_view db (current_db db) (clk e 0) k) of None \<Rightarrow> [] | Some cur \<Rightarrow> cur) = old"
    by (simp add: old_def GetDB_visible [OF assms(1,2)] split: option.splits)
  have n: "\<not> string_max_size < max (length old) (nat off + length (ToString v))"
      "\<not> alloc_limit e < max (length old) (nat off + length (ToString v))"
    using assms(6) by (simp_all add: not_less)
  show ?thesis
    using GetDB_inv(1) [OF assms(1,2)] assms(3,4) overwritten_eq [of "nat off" "ToString v" old]
    by (simp add: n SetRange_def with_db_def assms(2) Get_eq o o [simplified] resize_def bind_r_assoc Let_def)
qed

subsection \<open>Several keys in one database\<close>

text \<open>Successive readings of the clock do not decrease.\<close>

definition readings_ordered :: "env \<Rightarrow> (nat \<times> 'a) list \<Rightarrow> bool" where
  "readings_ordered e ks \<longleftrightarrow> sorted (map (\<lambda>p. clk e (fst p)) ks)"

lemma Exists_eq:
  "db_inv db \<Longrightarrow> Database_Exists now k db =
     (PruneExpiredInDB (current_db db) k now db, db_view db (current_db db) now k \<noteq> None)"
  by (simp add: Exists_Find Find_ok)

lemma prune_current:
  assumes "db_inv db"
  shows "db_inv (PruneExpiredInDB (current_db db) k now db)"
    "current_db (PruneExpiredInDB (current_db db) k now db) = current_db db"
    "now \<le> now' \<Longrightarrow> db_view (PruneExpiredInDB (current_db db) k now db) j now' k' = db_view db j now' k'"
  using Prune_ok [OF assms db_invD(3) [OF assms], where k = k and now = now] by simp_all

lemma get_all_ok:
  assumes "db_inv db" "readings_ordered e ks"
  shows "\<exists>db'. get_all e ks db =
      Inr (map (\<lambda>(i, k). (i, map_option ToString (db_view db (current_db db) (clk e i) k))) ks, db') \<and>
    db_inv db' \<and> current_db db' = current_db db"
proof -
  let ?f = "\<lambda>(i, key) (out, db). let (db, val) = Database_Get (clk e i) key db in (out @ [(i, val)], db)"
  have "\<exists>db'. fold ?f ks (out, d) =
      (out @ map (\<lambda>(i, k). (i, map_option ToString (db_view d (current_db d) (clk e i) k))) ks, db') \<and>
      db_inv db' \<and> current_db db' = current_db d" if "db_inv d" "readings_ordered e ks" for out d
    using that
  proof (induction ks arbitrary: out d)
    case (Cons x ks)
    obtain i k where x: "x = (i, k)" by (cases x)
    let ?d = "PruneExpiredInDB (current_db d) k (clk e i) d"
    note P = prune_current [OF Cons.prems(1), where k = k and now = "clk e i"]
    have o: "readings_ordered e ks" using Cons.prems(2) by (simp add: readings_ordered_def)
    have m: "map (\<lambda>(i, k). (i, map_option ToString (db_view ?d (current_db ?d) (clk e i) k))) ks =
        map (\<lambda>(i, k). (i, map_option ToString (db_view d (current_db d) (clk e i) k))) ks"
      using P(2,3) Cons.prems(2) by (auto simp: readings_ordered_def x)
    have "fold ?f (x # ks) (out, d) =
        fold ?f ks (out @ [(i, map_option ToString (db_view d (current_db d) (clk e i) k))], ?d)"
      by (simp add: x Get_eq [OF Cons.prems(1)] Let_def)
    with Cons.IH [OF P(1) o, of "out @ [(i, map_option ToString (db_view d (current_db d) (clk e i) k))]"]
    show ?case unfolding m by (simp add: x P(2))
  qed simp
  from this [of db "[]"] assms show ?thesis by (auto simp: get_all_def)
qed

lemma exists_keys_ok:
  assumes "db_inv db" "readings_ordered e ks"
  shows "\<exists>db'. count_hits Database_Exists e ks db =
      Inr (length (filter (\<lambda>(i, k). db_view db (current_db db) (clk e i) k \<noteq> None) ks), db') \<and>
    db_inv db' \<and> current_db db' = current_db db"
proof -
  let ?f = "\<lambda>(i, key) (c, db). let (db, hit) = Database_Exists (clk e i) key db in (if hit then c + 1 else c, db)"
  have "\<exists>db'. fold ?f ks (c, d) =
      (c + length (filter (\<lambda>(i, k). db_view d (current_db d) (clk e i) k \<noteq> None) ks), db') \<and>
      db_inv db' \<and> current_db db' = current_db d" if "db_inv d" "readings_ordered e ks" for c :: nat and d
    using that
  proof (induction ks arbitrary: c d)
    case (Cons x ks)
    obtain i k where x: "x = (i, k)" by (cases x)
    let ?d = "PruneExpiredInDB (current_db d) k (clk e i) d"
    note P = prune_current [OF Cons.prems(1), where k = k and now = "clk e i"]
    have o: "readings_ordered e ks" using Cons.prems(2) by (simp add: readings_ordered_def)
    have m: "filter (\<lambda>(i, k). db_view ?d (current_db ?d) (clk e i) k \<noteq> None) ks =
        filter (\<lambda>(i, k). db_view d (current_db d) (clk e i) k \<noteq> None) ks"
      using P(2,3) Cons.prems(2) by (intro filter_cong) (auto simp: readings_ordered_def x)
    let ?c = "if db_view d (current_db d) (clk e i) k \<noteq> None then c + 1 else c"
    have "fold ?f (x # ks) (c, d) = fold ?f ks (?c, ?d)"
      by (simp add: x Exists_eq [OF Cons.prems(1)] Let_def)
    with Cons.IH [OF P(1) o, of ?c] show ?case unfolding m by (auto simp: x P(2) split: if_splits)
  qed simp
  from this [of db 0] assms show ?thesis by (auto simp: count_hits_def)
qed

text \<open>DEL removes the keys it names; keys that are named once are counted if they were there.\<close>

lemma del_keys_ok:
  assumes "db_inv db" "readings_ordered e ks"
  shows "\<exists>c db'. count_hits Database_Del e ks db = Inr (c, db') \<and> db_inv db' \<and> current_db db' = current_db db \<and>
      (\<forall>now j k'. (\<forall>p\<in>set ks. clk e (fst p) \<le> now) \<longrightarrow> db_view db' j now k' =
        (if j = current_db db \<and> (\<exists>p\<in>set ks. NanoObj_eq (snd p) k') then None else db_view db j now k')) \<and>
      (sorted_wrt (\<lambda>p q. \<not> NanoObj_eq (snd p) (snd q)) ks \<longrightarrow>
        c = length (filter (\<lambda>(i, k). db_view db (current_db db) (clk e i) k \<noteq> None) ks))"
proof -
  let ?f = "\<lambda>(i, key) (c, db). let (db, hit) = Database_Del (clk e i) key db in (if hit then c + 1 else c, db)"
  have "\<exists>m db'. fold ?f ks (c, d) = (c + m, db') \<and> db_inv db' \<and> current_db db' = current_db d \<and>
      (\<forall>now j k'. (\<forall>p\<in>set ks. clk e (fst p) \<le> now) \<longrightarrow> db_view db' j now k' =
        (if j = current_db d \<and> (\<exists>p\<in>set ks. NanoObj_eq (snd p) k') then None else db_view d j now k')) \<and>
      (sorted_wrt (\<lambda>p q. \<not> NanoObj_eq (snd p) (snd q)) ks \<longrightarrow>
        m = length (filter (\<lambda>(i, k). db_view d (current_db d) (clk e i) k \<noteq> None) ks))"
    if "db_inv d" "readings_ordered e ks" for c :: nat and d
    using that
  proof (induction ks arbitrary: c d)
    case (Cons x ks)
    obtain i k where x: "x = (i, k)" by (cases x)
    obtain d' b where d': "Database_Del (clk e i) k d = (d', b)" by (cases "Database_Del (clk e i) k d")
    note D = Del_ok [OF Cons.prems(1) d']
    have o: "readings_ordered e ks" using Cons.prems(2) by (simp add: readings_ordered_def)
    have le: "clk e i \<le> clk e (fst p)" if "p \<in> set ks" for p
      using Cons.prems(2) that by (auto simp: readings_ordered_def x)
    from Cons.IH [OF D(1) o, of "if b then c + 1 else c"] obtain m db' where
      m: "fold ?f ks (if b then c + 1 else c, d') = ((if b then c + 1 else c) + m, db')" "db_inv db'"
        "current_db db' = current_db d'"
      and v: "\<And>now j k'. (\<forall>p\<in>set ks. clk e (fst p) \<le> now) \<Longrightarrow> db_view db' j now k' =
        (if j = current_db d' \<and> (\<exists>p\<in>set ks. NanoObj_eq (snd p) k') then None else db_view d' j now k')"
      and cnt: "sorted_wrt (\<lambda>p q. \<not> NanoObj_eq (snd p) (snd q)) ks \<Longrightarrow>
        m = length (filter (\<lambda>(i, k). db_view d' (current_db d') (clk e i) k \<noteq> None) ks)"
      by blast
    have vv: "db_view db' j now k' =
        (if j = current_db d \<and> (\<exists>p\<in>set (x # ks). NanoObj_eq (snd p) k') then None else db_view d j now k')"
      if "\<forall>p\<in>set (x # ks). clk e (fst p) \<le> now" for now j k'
      using that v [of now j k'] D(2) D(4) [of now j k'] by (auto simp: x)
    have "(if b then 1 else 0) + m = length (filter (\<lambda>(i, k). db_view d (current_db d) (clk e i) k \<noteq> None) (x # ks))"
      if s: "sorted_wrt (\<lambda>p q. \<not> NanoObj_eq (snd p) (snd q)) (x # ks)"
    proof -
      have "filter (\<lambda>(i, k). db_view d' (current_db d') (clk e i) k \<noteq> None) ks =
          filter (\<lambda>(i, k). db_view d (current_db d) (clk e i) k \<noteq> None) ks"
        using s le by (intro filter_cong) (auto simp: D(2,4) x)
      then show ?thesis using cnt s D(3) by (simp add: x)
    qed
    moreover have "fold ?f (x # ks) (c, d) = (c + ((if b then 1 else 0) + m), db')"
      using m(1) by (auto simp: x d' Let_def)
    ultimately show ?case using m(2,3) D(2) vv
      by (intro exI [of _ "(if b then 1 else 0) + m"] exI [of _ db']) auto
  qed simp
  from this [of db 0] assms show ?thesis by (auto simp: count_hits_def)
qed

subsection \<open>Several shards\<close>

text \<open>The iteration order of \<open>std::unordered_map\<close>: every key once.\<close>

definition order_ok :: "env \<Rightarrow> bool" where
  "order_ok e \<longleftrightarrow> (\<forall>xs. distinct xs \<longrightarrow> set (map_order e xs) = set xs \<and> distinct (map_order e xs))"

lemma group_ids_ok: "order_ok e \<Longrightarrow> set (group_ids e ps) = fst ` set ps \<and> distinct (group_ids e ps)"
  by (simp add: order_ok_def group_ids_def)

lemma for_shards_fold:
  assumes "distinct ids"
    and "\<And>i. i \<in> set ids \<Longrightarrow> i < length (shards w) \<and> tlocal w i \<and>
      task i (fst (Database_Select (db_index (ctx w)) (shards w ! i))) = Inr (res i, dbs i)"
  shows "fold_r (\<lambda>i (s, w). bind_r (Await i a (\<lambda>db. task i (fst (Database_Select (db_index (ctx w)) db))) w)
        (\<lambda>(r, w). Inr (upd r s, w))) ids (s, w) =
    Inr (fold (\<lambda>i. upd (res i)) ids s,
      w\<lparr>shards := map (\<lambda>i. if i \<in> set ids then dbs i else shards w ! i) [0..<length (shards w)]\<rparr>)"
  using assms
proof (induction ids arbitrary: s w)
  case Nil
  have "map (\<lambda>i. shards w ! i) [0..<length (shards w)] = shards w" by (simp add: map_nth)
  then show ?case by simp
next
  case (Cons x ids)
  let ?w = "w\<lparr>shards := (shards w)[x := dbs x]\<rparr>"
  have "Await x a (\<lambda>db. task x (fst (Database_Select (db_index (ctx w)) db))) w = Inr (res x, ?w)"
    using Cons.prems(2) [of x] by (simp add: Await_def)
  moreover have "map (\<lambda>i. if i \<in> set ids then dbs i else (shards w)[x := dbs x] ! i) [0..<length (shards w)] =
      map (\<lambda>i. if i \<in> set (x # ids) then dbs i else shards w ! i) [0..<length (shards w)]"
    using Cons.prems(1) by (auto simp: nth_list_update)
  moreover have "i < length (shards ?w) \<and> tlocal ?w i \<and>
      task i (fst (Database_Select (db_index (ctx ?w)) (shards ?w ! i))) = Inr (res i, dbs i)" if "i \<in> set ids" for i
    using Cons.prems that by (auto simp: nth_list_update)
  ultimately show ?case using Cons.IH [of ?w "upd (res x) s"] Cons.prems(1) by simp
qed

lemma for_shards_eval:
  assumes "order_ok e"
    and "\<And>i. i \<in> fst ` set ps \<Longrightarrow> i < length (shards w) \<and> tlocal w i \<and>
      task (group_items ps i) (fst (Database_Select (db_index (ctx w)) (shards w ! i))) = Inr (res i, dbs i)"
  shows "for_shards e ps a task upd s w = Inr (fold (\<lambda>i. upd (res i)) (group_ids e ps) s,
      w\<lparr>shards := map (\<lambda>i. if i \<in> fst ` set ps then dbs i else shards w ! i) [0..<length (shards w)]\<rparr>)"
  using for_shards_fold [of "group_ids e ps" w "\<lambda>i. task (group_items ps i)" res dbs a upd s]
    group_ids_ok [OF assms(1), of ps] assms(2)
  by (simp add: for_shards_def)

lemma fold_place:
  assumes "j < length vs" "(Suc j, v) \<in> set us" "\<And>v'. (Suc j, v') \<in> set us \<Longrightarrow> v' = v" "\<And>i u. (i, u) \<in> set us \<Longrightarrow> 0 < i"
  shows "fold (\<lambda>(i, v) vs. vs[i - 1 := v]) us vs ! j = v"
  using assms
proof (induction us rule: rev_induct)
  case (snoc x us)
  obtain i u where x: "x = (i, u)" by (cases x)
  have len: "length (fold (\<lambda>(i, v) vs. vs[i - 1 := v]) us vs) = length vs"
    by (induction us arbitrary: vs) auto
  have "0 < i" using snoc.prems(4) [of i u] by (simp add: x)
  show ?case
  proof (cases "i = Suc j")
    case True
    then have "u = v" using snoc.prems(3) [of u] by (simp add: x)
    with True show ?thesis using snoc.prems(1) len by (simp add: x)
  next
    case False
    with \<open>0 < i\<close> have "i - 1 \<noteq> j" by simp
    moreover have "(Suc j, v) \<in> set us" using snoc.prems(2) False by (auto simp: x)
    then have "fold (\<lambda>(i, v) vs. vs[i - 1 := v]) us vs ! j = v"
      by (rule snoc.IH [OF snoc.prems(1)]) (auto intro: snoc.prems(3,4))
    ultimately show ?thesis by (simp add: x)
  qed
qed simp

lemma length_fold_place: "length (fold (\<lambda>(i, v) vs. vs[i - 1 := v]) us vs) = length vs"
  by (induction us arbitrary: vs) auto

lemma fold_fold_concat: "fold (\<lambda>i. fold f (g i)) ids s = fold f (concat (map g ids)) s"
  by (induction ids arbitrary: s) auto

definition env_ok :: "env \<Rightarrow> bool" where
  "env_ok e \<longleftrightarrow> mono (clk e) \<and> order_ok e"

lemma sorted_group: "mono (clk e) \<Longrightarrow> sorted_wrt (<) (map (fst \<circ> snd) ps) \<Longrightarrow> readings_ordered e (map g (group_items ps i))"
  if "\<And>x. fst (g x) = fst x" for g :: "nat \<times> 'b \<Rightarrow> nat \<times> 'c" and ps :: "(nat \<times> nat \<times> 'b) list"
  using that
  by (induction ps) (auto simp: readings_ordered_def group_items_def mono_def less_imp_le)

text \<open>The shards of a running server: every thread has its shard, and there are as many as the context says.\<close>

definition shards_ready :: "world \<Rightarrow> bool" where
  "shards_ready w \<longleftrightarrow> shard_set (ctx w) \<and> 1 < shard_count (ctx w) \<and> shard_count (ctx w) = length (shards w) \<and>
     (\<forall>i < length (shards w). tlocal w i)"

lemma Shard_less: "1 < n \<Longrightarrow> Shard e key n < n"
  by (simp add: Shard_def)

text \<open>The value of a key in the shard that owns it.\<close>

definition owner_view :: "env \<Rightarrow> world \<Rightarrow> int \<Rightarrow> string \<Rightarrow> nano_obj option" where
  "owner_view e w now key =
     db_view (shards w ! Shard e key (shard_count (ctx w))) (db_index (ctx w)) now (FromKey key)"

lemma MGet_sharded_eval:
  assumes "world_inv w" "shards_ready w" "env_ok e" "2 \<le> length args"
  shows "\<exists>w'. MGet e args w = Inr (MakeArray (int (length args - 1)) @
      concat (map (\<lambda>(i, a). bulk_or_null (map_option ToString (owner_view e w (clk e i) (ToString a)))) (enumerate 1 (tl args))), w')"
proof -
  let ?n = "length args - 1" and ?ps = "keyed_args e args w" and ?dbi = "db_index (ctx w)"
  let ?val = "\<lambda>i key. map_option ToString (owner_view e w (clk e i) key)"
  let ?sel = "\<lambda>i. fst (Database_Select ?dbi (shards w ! i))"
  define res where "res i = map (\<lambda>(j, key). (j, ?val j key)) (group_items ?ps i)" for i
  have ps: "fst p = Shard e (snd (snd p)) (shard_count (ctx w))" if "p \<in> set ?ps" for p
    using that by (auto simp: keyed_args_def Let_def)
  have "\<exists>db'. get_all e (map (\<lambda>(j, key). (j, FromKey key)) (group_items ?ps i)) (?sel i) = Inr (res i, db')"
    if i: "i \<in> fst ` set ?ps" for i
  proof -
    have "i < length (shards w)"
      using i assms(2) Shard_less by (auto simp: shards_ready_def keyed_args_def Let_def)
    then have inv: "db_inv (shards w ! i)" using assms(1) by (simp add: world_inv_def list_all_length)
    note S = Select_ok [OF inv, of ?dbi]
    have dbi: "?dbi < kNumDBs" using assms(1) by (simp add: world_inv_def)
    have ord: "readings_ordered e (map (\<lambda>(j, key). (j, FromKey key)) (group_items ?ps i))"
    proof (rule sorted_group)
      show "mono (clk e)" using assms(3) by (simp add: env_ok_def)
      have "map (fst \<circ> snd) ?ps = [1..<1 + length (tl args)]"
        using map_fst_enumerate [of 1 "tl args"] by (simp add: keyed_args_def Let_def comp_def case_prod_unfold)
      then show "sorted_wrt (<) (map (fst \<circ> snd) ?ps)" using sorted_wrt_upt [of 1 "1 + length (tl args)"] by (simp only:)
    qed auto
    have "map (\<lambda>(j, k). (j, map_option ToString (db_view (?sel i) (current_db (?sel i)) (clk e j) k)))
        (map (\<lambda>(j, key). (j, FromKey key)) (group_items ?ps i)) = res i"
      using ps S(2,5) dbi by (auto simp: res_def owner_view_def group_items_def)
    with get_all_ok [OF S(1) ord] show ?thesis by auto
  qed
  then obtain dbs where dbs: "get_all e (map (\<lambda>(j, key). (j, FromKey key)) (group_items ?ps i)) (?sel i) = Inr (res i, dbs i)"
    if "i \<in> fst ` set ?ps" for i by metis
  have run: "for_shards e ?ps [] (\<lambda>reqs. get_all e (map (\<lambda>(i, key). (i, FromKey key)) reqs))
      (\<lambda>out vs. fold (\<lambda>(i, val) vs. vs[i - 1 := val]) out vs) (replicate ?n None) w =
    Inr (fold (\<lambda>i vs. fold (\<lambda>(i, val) vs. vs[i - 1 := val]) (res i) vs) (group_ids e ?ps) (replicate ?n None),
      w\<lparr>shards := map (\<lambda>i. if i \<in> fst ` set ?ps then dbs i else shards w ! i) [0..<length (shards w)]\<rparr>)"
    using assms(2,3) dbs Shard_less
    by (intro for_shards_eval) (auto simp: env_ok_def shards_ready_def keyed_args_def Let_def)
  define us where "us = concat (map res (group_ids e ?ps))"
  have us: "(i, v) \<in> set us \<longleftrightarrow> (\<exists>a. (i, a) \<in> set (enumerate 1 (tl args)) \<and> v = ?val i (ToString a))" for i v
    using group_ids_ok [of e ?ps] assms(3)
    by (force simp: us_def env_ok_def res_def group_items_def keyed_args_def Let_def)
  have fin: "fold (\<lambda>(i, val) vs. vs[i - 1 := val]) us (replicate ?n None) =
      map (\<lambda>(i, a). ?val i (ToString a)) (enumerate 1 (tl args))"
  proof (rule nth_equalityI)
    show "length (fold (\<lambda>(i, val) vs. vs[i - 1 := val]) us (replicate ?n None)) =
        length (map (\<lambda>(i, a). ?val i (ToString a)) (enumerate 1 (tl args)))"
      by (simp add: length_fold_place del: One_nat_def)
    fix j
    assume "j < length (fold (\<lambda>(i, val) vs. vs[i - 1 := val]) us (replicate ?n None))"
    then have j: "j < ?n" by (simp add: length_fold_place del: One_nat_def)
    then have e: "enumerate 1 (tl args) ! j = (Suc j, tl args ! j)" by (simp add: nth_enumerate_eq)
    have "fold (\<lambda>(i, val) vs. vs[i - 1 := val]) us (replicate ?n None) ! j = ?val (Suc j) (ToString (tl args ! j))"
      using j e by (intro fold_place) (auto simp: us in_set_enumerate_eq nth_enumerate_eq)
    then show "fold (\<lambda>(i, val) vs. vs[i - 1 := val]) us (replicate ?n None) ! j =
        map (\<lambda>(i, a). ?val i (ToString a)) (enumerate 1 (tl args)) ! j"
      using j e by simp
  qed
  have "\<not> local_only w" using assms(2) by (simp add: local_only_def shards_ready_def IsSingleShard_def)
  then show ?thesis
    using assms(4) run fin by (auto simp: MGet_def Let_def fold_fold_concat us_def [symmetric] comp_def case_prod_unfold)
qed

section \<open>Small databases\<close>

text \<open>A table with fewer than twelve elements always takes another one; the witnesses below use this.\<close>

lemma nt_Insert_small:
  fixes t :: "(nano_obj, 'v) dashtable"
  assumes "nt_inv t" "max_segment_size t = 16" "length (DashTable_ForEach t) < 12"
  shows "\<exists>t'. nt_Insert t k v = Inr t'"
proof (rule nano_dt.Insert_total(2) [OF assms(1,2)])
  have "size (contents t) < 12" using assms(3) mset_ForEach [OF nt_inv_dir_inv [OF assms(1)]] by (metis size_mset)
  then show "colliding NanoObj_hash (dir_limit t) k (contents t) < 12"
    by (simp add: colliding_def le_less_trans [OF size_filter_mset_lesseq])
qed

lemma nt_Insert_length:
  fixes t :: "(nano_obj, 'v) dashtable"
  assumes "nt_inv t" "nt_Insert t k v = Inr t'"
  shows "length (DashTable_ForEach t') \<le> Suc (length (DashTable_ForEach t))"
proof -
  have "length (DashTable_ForEach t') = length (map_insert_or_assign NanoObj_eq k v (DashTable_ForEach t))"
    using nano_dt.Insert_ForEach [OF assms] by (metis size_mset)
  then show ?thesis by (simp add: nano.length_map_insert_or_assign)
qed

text \<open>The number of entries of the two tables of the current database.\<close>

definition small :: "nat \<Rightarrow> database \<Rightarrow> bool" where
  "small n db \<longleftrightarrow> db_inv db \<and> length (DashTable_ForEach (tables db ! current_db db)) \<le> n \<and>
     length (DashTable_ForEach (expire_tables db ! current_db db)) \<le> n"

lemma small_Set:
  assumes "small n db" "n < 12"
  obtains db' where "Database_Set k v db = Inr db'" "small (Suc n) db'"
proof -
  have inv: "db_inv db" using assms(1) by (simp add: small_def)
  note D = db_invD [OF inv]
  obtain t where t: "nt_Insert (tables db ! current_db db) k v = Inr t"
    using nt_Insert_small [OF D(4,6) [OF D(3)]] assms by (auto simp: small_def)
  then have s: "Database_Set k v db = Inr (set_table (current_db db) t db)" by (simp add: Database_Set_def)
  moreover have "small (Suc n) (set_table (current_db db) t db)"
    using Set_ok(1) [OF inv s] nt_Insert_length [OF D(4) [OF D(3)] t] assms(1) D(1,3) by (simp add: small_def)
  ultimately show ?thesis by (rule that)
qed

lemma small_Expire:
  assumes "small n db" "n < 12" "db_get db (current_db db) k \<noteq> None" "db_expiry db (current_db db) k = None"
    "0 < ttl" "0 \<le> now" "now + ttl < INT64_MAX"
  obtains db' where "Database_Expire now k ttl db = Inr (db', True)" "small (Suc n) db'"
    "db_expiry db' (current_db db) k = Some (now + ttl)" "db_get db' = db_get db" "current_db db' = current_db db"
proof -
  have inv: "db_inv db" using assms(1) by (simp add: small_def)
  note D = db_invD [OF inv]
  have p: "PruneExpiredInDB (current_db db) k now db = db"
    using assms(4) by (simp add: PruneExpiredInDB_def IsExpiredInDB_expiry)
  have refl: "NanoObj_eq k k" using assms(3) nt_Find_irrefl unfolding db_get_def by metis
  obtain t where t: "nt_Insert (expire_tables db ! current_db db) k (now + ttl) = Inr t"
    using nt_Insert_small [OF D(5,7) [OF D(3)]] assms by (auto simp: small_def)
  let ?d = "set_expire (current_db db) t db"
  have e: "Database_Expire now k ttl db = Inr (?d, True)"
    using assms(3,5-7) t
    by (auto simp: Database_Expire_def p Let_def db_get_def sub_i64_def in_int64_def INT64_MIN_def)
  moreover have "small (Suc n) ?d"
    using Expire_ok(1) [OF inv e] nt_Insert_length [OF D(5) [OF D(3)] t] assms(1) D(2,3) by (simp add: small_def)
  moreover have "db_expiry ?d (current_db db) k = Some (now + ttl)"
    using nano_dt.Insert_ok(2) [OF D(5) [OF D(3)] t, of k] refl D(2,3) by (simp add: db_expiry_def)
  ultimately show ?thesis by (intro that [of ?d]) simp_all
qed

lemma small_new: "small 0 (Database_new 31)"
  using new_db(1)
  by (simp add: new_16_empty(3) small_def Database_new_def kInitialSegmentCount_def kDefaultFixedBucketCount_def kNumDBs_def
      del: One_nat_def)

text \<open>
  \<open>CommandContext(Database*)\<close>: a context with one database and no shards; and an environment with
  a constant clock.
\<close>

definition legacy_context :: command_context where
  "legacy_context = \<lparr>local_shard = None, shard_set = False, shard_count = 1, db_index = 0,
     connection_id = None, has_legacy_db = True\<rparr>"

definition legacy_world :: "database \<Rightarrow> world" where
  "legacy_world db = \<lparr>ctx = legacy_context, shards = [], tlocal = (\<lambda>_. False), legacy_db = db, conns = (\<lambda>_. None)\<rparr>"

definition env_at :: "int \<Rightarrow> env" where
  "env_at now = \<lparr>clk = (\<lambda>_. now), absl_hash = (\<lambda>_. 0), map_order = id, rand = (\<lambda>_. 0), alloc_limit = 1000\<rparr>"

lemma env_at_clk [simp]: "clk (env_at now) i = now"
  by (simp add: env_at_def)

lemma legacy_world_ok:
  assumes "db_inv db" "current_db db = 0"
  shows "world_inv (legacy_world db)" "GetDB (legacy_world db) = Some db"
    "put_db db' (legacy_world db) = legacy_world db'"
    "visible (legacy_world db) now k = db_view db 0 now k" "expired (legacy_world db) now k = IsExpiredInDB db 0 k now"
  using assms by (simp_all add: world_inv_def legacy_world_def legacy_context_def GetDB_def context_db_def
      select_db_def put_db_def visible_def expired_def kNumDBs_def)

lemma legacy_GetDB [simp]: "GetDB (legacy_world db) = Some (select_db 0 db)"
  by (simp add: legacy_world_def legacy_context_def GetDB_def context_db_def)

lemma select_current [simp]: "current_db db = i \<Longrightarrow> select_db i db = db"
  by (simp add: select_db_def)

lemma Set_legacy:
  assumes "small n db" "n < 12" "current_db db = 0"
  obtains db' where "Set e [c, k, v] (legacy_world db) = Inr (OkResponse, legacy_world db')" "db_inv db'" "current_db db' = 0"
proof -
  have inv: "db_inv db" using assms(1) by (simp add: small_def)
  obtain d where d: "Database_Set k (NanoObj_copy v) db = Inr d" "small (Suc n) d" by (rule small_Set [OF assms(1,2)])
  obtain d' b where p: "Database_Persist (clk e 0) k d = (d', b)" by (cases "Database_Persist (clk e 0) k d")
  note S = Set_ok [OF inv d(1)] and P = Persist_ok [OF Set_ok(1) [OF inv d(1)] p]
  have "Set e [c, k, v] (legacy_world db) = Inr (OkResponse, legacy_world d')"
    using d(1) p legacy_world_ok(3) [OF inv assms(3)]
    by (simp add: Set_def with_db_def store_value_def assms(3))
  then show ?thesis using P(1,2) S(2) assms(3) by (intro that) simp_all
qed

lemma Get_legacy:
  assumes "db_inv db" "current_db db = 0"
  obtains r db' where "Get e [c, k] (legacy_world db) = Inr (r, legacy_world db')"
  using Get_eq [OF assms(1), of "clk e 0" k] legacy_world_ok(3) [OF assms]
  by (intro that [of "bulk_or_null (map_option ToString (db_view db 0 (clk e 0) k))"
        "PruneExpiredInDB 0 k (clk e 0) db"]) (simp add: Get_def with_db_def assms(2))

text \<open>A database in which one key has a value, and one in which it also has a deadline.\<close>

lemma one_key:
  assumes "NanoObj_eq k k"
  obtains db where "small 1 db" "current_db db = 0" "db_get db 0 k = Some v" "db_expiry db 0 k = None"
proof -
  obtain db where db: "Database_Set k v (Database_new 31) = Inr db" "small (Suc 0) db"
    by (rule small_Set [OF small_new]) simp
  note S = Set_ok [OF new_db(1) db(1)]
  show ?thesis using db(2) S(2,3) S(4) [of 0 k] new_db(2,3) assms by (intro that [of db]) simp_all
qed

lemma one_deadline:
  assumes "NanoObj_eq k k"
  obtains db where "small 2 db" "current_db db = 0" "db_get db 0 k = Some v" "db_expiry db 0 k = Some 10"
proof -
  obtain db where db: "small 1 db" "current_db db = 0" "db_get db 0 k = Some v" "db_expiry db 0 k = None"
    by (rule one_key [OF assms])
  obtain db' where "Database_Expire 0 k 10 db = Inr (db', True)" "small (Suc 1) db'"
    "db_expiry db' (current_db db) k = Some (0 + 10)" "db_get db' = db_get db" "current_db db' = current_db db"
    by (rule small_Expire [OF db(1), of k 10 0]) (simp_all add: db INT64_MAX_def)
  then show ?thesis using db by (intro that [of db']) (simp_all add: numeral_2_eq_2)
qed

lemma legacy_visible:
  assumes "small n db" "current_db db = 0"
  shows "world_inv (legacy_world db)" "visible (legacy_world db) now k = db_view db 0 now k"
    "expired (legacy_world db) now k = IsExpiredInDB db 0 k now"
  using assms legacy_world_ok [of db] by (simp_all add: small_def)

lemma AdjustIndex_clamp: "0 < n \<Longrightarrow> AdjustIndex i n = min (n - 1) (max 0 (if i < 0 then i + n else i))"
  by (auto simp: AdjustIndex_def Let_def)

lemma GetRange_slice:
  assumes w: "world_inv w" "GetDB w = Some db" "ParseInt (ToString a) = Some start" "ParseInt (ToString b) = Some fin"
    and v: "visible w (clk e 0) k = Some obj" "ToString obj = s" "length s < 2 ^ 64"
  shows "s = [] \<Longrightarrow> GetRange e [c, k, a, b] w = Inl OutOfRange"
    "s \<noteq> [] \<Longrightarrow> \<exists>w'. GetRange e [c, k, a, b] w =
       Inr (MakeBulkString (map ((!) s) [nat (AdjustIndex start (int (length s)))..<nat (AdjustIndex fin (int (length s)) + 1)]), w') \<and>
       unchanged w (clk e 0) w'"
proof -
  note G = GetRange_world [OF w, of e c k, unfolded v(1)]
  show "GetRange e [c, k, a, b] w = Inl OutOfRange" if "s = []"
    using G v(2) that by (simp add: AdjustIndex_empty substr_def to_size_t_def)
  assume ne: "s \<noteq> []"
  let ?x = "AdjustIndex start (int (length s))" and ?y = "AdjustIndex fin (int (length s))"
  let ?w = "put_db (PruneExpiredInDB (current_db db) k (clk e 0) db) w"
  have bx: "0 \<le> ?x \<and> ?x < int (length s)" and bf: "0 \<le> ?y \<and> ?y < int (length s)"
    using AdjustIndex_bounds [of "int (length s)"] ne by auto
  have p: "to_size_t ?x \<le> length s" using bx v(3) by (simp add: to_size_t_def nat_le_iff)
  have "GetRange e [c, k, a, b] w = Inr (MakeBulkString (map ((!) s) [nat ?x..<nat (?y + 1)]), ?w)"
  proof (cases "?x > ?y")
    case True
    then have "[nat ?x..<nat (?y + 1)] = []" by simp
    then show ?thesis using G v(2) True by (simp add: Let_def)
  next
    case False
    with slice_eq [of ?x ?y s] bx bf v(3)
    have "take (to_size_t (?y - ?x + 1)) (drop (to_size_t ?x) s) = map ((!) s) [nat ?x..<nat (?y + 1)]" by auto
    then show ?thesis using G v(2) False p by (simp add: Let_def substr_def)
  qed
  then show "\<exists>w'. GetRange e [c, k, a, b] w = Inr (MakeBulkString (map ((!) s) [nat ?x..<nat (?y + 1)]), w') \<and>
       unchanged w (clk e 0) w'"
    using unchanged_prune [OF w(1,2)] by blast
qed

lemma SetRange_store:
  fixes k v :: nano_obj and e :: env
  assumes w: "world_inv w" "GetDB w = Some db" "ParseInt (ToString a) = Some off" "0 \<le> off"
  defines "old \<equiv> (case visible w (clk e 0) k of None \<Rightarrow> [] | Some obj \<Rightarrow> ToString obj)"
  defines "new \<equiv> overwritten old (nat off) (ToString v)"
  assumes fit: "length new \<le> min string_max_size (alloc_limit e)"
  shows "SetRange e [c, k, a, v] w = Inl BadAlloc \<or>
    (\<exists>w'. SetRange e [c, k, a, v] w = Inr (MakeInteger (int (length new)), w') \<and> stored w (clk e 0) k (FromKey new) w')"
proof -
  let ?p = "PruneExpiredInDB (current_db db) k (clk e 0) db"
  note i = GetDB_inv(1) [OF w(1,2)]
  have l: "length new = max (length old) (nat off + length (ToString v))" by (simp add: new_def overwritten_def)
  have "SetRange e [c, k, a, v] w = bind_r (Database_Set k (FromKey new) ?p) (\<lambda>db'. Inr (MakeInteger (int (length new)), put_db db' w))"
    using SetRange_world [OF w, where k = k and e = e and v = v and c = c] fit unfolding old_def [symmetric] new_def [symmetric] Let_def l by blast
  moreover have "Database_Set k (FromKey new) ?p = Inl BadAlloc \<or>
      (\<exists>db'. Database_Set k (FromKey new) ?p = Inr db' \<and> stored w (clk e 0) k (FromKey new) (put_db db' w))"
    using Set_total [OF Prune_ok(1) [OF i db_invD(3) [OF i]]] stored_put [OF w(1,2)] by blast
  ultimately show ?thesis by auto
qed

text \<open>The same command executed on the shard that owns a key.\<close>

definition routed :: "env \<Rightarrow> string \<Rightarrow> world \<Rightarrow> world" where
  "routed e key w = w\<lparr>ctx := (ctx w)\<lparr>local_shard := Some (Shard e key (shard_count (ctx w)))\<rparr>\<rparr>"

lemma routed_ok:
  assumes "world_inv w" "shards_ready w"
  shows "world_inv (routed e key w)" "visible (routed e key w) now (FromKey key) = owner_view e w now key"
    "GetDB (routed e key w) \<noteq> None"
  using assms Shard_less [of "shard_count (ctx w)" e key]
  by (simp_all add: routed_def world_inv_def shards_ready_def visible_def context_db_def owner_view_def GetDB_def)

lemma Get_returns: "GetDB w \<noteq> None \<Longrightarrow> \<exists>r w'. Get e [c, k] w = Inr (r, w')"
  by (auto simp: Get_def with_db_def case_prod_unfold Let_def)

section \<open>Properties of the string commands\<close>



text \<open>
  C20: \<open>SET\<close> without a time on a key whose deadline has passed but which is still stored answers
  OK, and the value is lost: the call of \<open>Persist\<close> removes the new value because the old
  deadline is still in the table, and the following \<open>GET\<close> finds nothing.
\<close>

theorem Set_on_expired_key_lost:
  assumes "world_inv w" "Set e1 [c1, k, v] w = Inr (r1, w1)" "Get e2 [c2, k] w1 = Inr (r2, w2)"
    "clk e1 0 \<le> clk e2 0" "NanoObj_eq k k" "expired w (clk e1 0) k"
  shows "r1 = OkResponse \<and> r2 = MakeNullBulkString"
proof -
  have s: "with_db (store_value e1 k v (- 1)) w = Inr (r1, w1)" using assms(2) by (simp add: Set_def)
  note S = with_store_value [OF assms(1) s assms(4)]
  show ?thesis using S(1) S(3) [of k] Get_ok(1) [OF S(2) assms(3)] assms(5,6) by (simp add: bulk_or_null_def)
qed

theorem Set_on_expired_key_lost_witness:
  "\<exists>db w1 w2. db_get db 0 (FromKey ''a'') = Some (IntObj 7) \<and> db_expiry db 0 (FromKey ''a'') = Some 10 \<and>
     Set (env_at 20) [FromKey ''SET'', FromKey ''a'', IntObj 8] (legacy_world db) = Inr (OkResponse, w1) \<and>
     Get (env_at 20) [FromKey ''GET'', FromKey ''a''] w1 = Inr (MakeNullBulkString, w2)"
proof -
  let ?k = "FromKey ''a''"
  obtain db where db: "small 2 db" "current_db db = 0" "db_get db 0 ?k = Some (IntObj 7)" "db_expiry db 0 ?k = Some 10"
    by (rule one_deadline [OF FromKey_a_eq])
  obtain d where d: "Set (env_at 20) [FromKey ''SET'', ?k, IntObj 8] (legacy_world db) = Inr (OkResponse, legacy_world d)"
    "db_inv d" "current_db d = 0" by (rule Set_legacy [OF db(1) _ db(2)]) simp
  obtain r d' where g: "Get (env_at 20) [FromKey ''GET'', ?k] (legacy_world d) = Inr (r, legacy_world d')"
    by (rule Get_legacy [OF d(2,3)])
  have "r = MakeNullBulkString"
    using Set_on_expired_key_lost [OF legacy_visible(1) [OF db(1,2)] d(1) g] FromKey_a_eq
    by (simp add: legacy_visible(3) [OF db(1,2)] IsExpiredInDB_expiry db(4))
  then show ?thesis using db(3,4) d(1) g by blast
qed

text \<open>
  C21: \<open>INCRBY\<close> adds the number to the value of the key (0 if it is absent), stores the sum under
  the key with its old deadline and answers it.  A value that is no integer gives an error and
  changes nothing; a sum outside the 64-bit range overflows; the store may fail only for memory.
\<close>

theorem IncrBy_result:
  assumes "world_inv w" "GetDB w = Some db" "ParseInt (ToString a) = Some d"
  shows "case counter_value w (clk e 0) k of
      None \<Rightarrow> \<exists>w'. IncrBy e [c, k, a] w = Inr (MakeError kInvalidIntegerError, w') \<and> unchanged w (clk e 0) w'
    | Some m \<Rightarrow>
        if in_int64 (m + d) then
          IncrBy e [c, k, a] w = Inl BadAlloc \<or>
          (\<exists>w'. IncrBy e [c, k, a] w = Inr (MakeInteger (m + d), w') \<and> stored w (clk e 0) k (IntObj (m + d)) w')
        else IncrBy e [c, k, a] w = Inl SignedOverflow"
proof -
  have i: "with_db (update_counter e k (Inr d) (\<lambda>v. add_i64 v d)) w = IncrBy e [c, k, a] w"
    using assms(3) by (simp add: IncrBy_def)
  have z: "Inr d = add_i64 0 d" using ParseInt_in_range [OF assms(3)] by (simp add: add_i64_def)
  note C = counter_step [OF assms(1,2) z i]
  show ?thesis using C(1) C(2) [of _ SignedOverflow] C(3) by (auto simp: add_i64_def split: option.splits)
qed

theorem IncrBy_result_witness:
  "\<exists>db. db_get db 0 (FromKey ''a'') = Some (IntObj 7) \<and>
     IncrBy (env_at 5) [FromKey ''INCRBY'', FromKey ''a'', IntObj INT64_MAX] (legacy_world db) = Inl SignedOverflow"
proof -
  let ?k = "FromKey ''a''"
  obtain db where db: "small 1 db" "current_db db = 0" "db_get db 0 ?k = Some (IntObj 7)" "db_expiry db 0 ?k = None"
    by (rule one_key [OF FromKey_a_eq])
  have "ParseInt (ToString (IntObj INT64_MAX)) = Some INT64_MAX"
    by (simp add: ParseInt_to_string in_int64_def INT64_MAX_def INT64_MIN_def)
  moreover have "ParseInt (ToString (IntObj 7)) = Some 7"
    by (simp add: ParseInt_to_string in_int64_def INT64_MAX_def INT64_MIN_def)
  then have "counter_value (legacy_world db) 5 ?k = Some 7"
    using db(3,4) by (simp add: counter_value_def legacy_visible(2) [OF db(1,2)] db_view_eq)
  ultimately have "IncrBy (env_at 5) [FromKey ''INCRBY'', ?k, IntObj INT64_MAX] (legacy_world db) = Inl SignedOverflow"
    using IncrBy_result [OF legacy_visible(1) [OF db(1,2)] legacy_GetDB,
        of "IntObj INT64_MAX" INT64_MAX "env_at 5" "FromKey ''INCRBY''" ?k]
    by (simp add: in_int64_def)
  then show ?thesis using db(3) by blast
qed

text \<open>
  C22: \<open>GETRANGE\<close> on a value that is not empty answers the bytes between the two positions, each
  counted from the end if negative and clamped to the value, and changes nothing a client can
  see.  On an empty value it throws, because the clamped position is -1.
\<close>

theorem GetRange_result:
  assumes "world_inv w" "GetDB w = Some db" "ParseInt (ToString a) = Some start" "ParseInt (ToString b) = Some fin"
    "visible w (clk e 0) k = Some obj" "ToString obj = s" "length s < 2 ^ 64"
  shows "if s = [] then GetRange e [c, k, a, b] w = Inl OutOfRange
    else let clamp = (\<lambda>i. min (int (length s) - 1) (max 0 (if i < 0 then i + int (length s) else i)))
      in \<exists>w'. GetRange e [c, k, a, b] w = Inr (MakeBulkString (map ((!) s) [nat (clamp start)..<nat (clamp fin + 1)]), w') \<and>
           unchanged w (clk e 0) w'"
  using GetRange_slice [OF assms] AdjustIndex_clamp [of "int (length s)"] by (simp add: Let_def)

theorem GetRange_result_witness:
  "\<exists>db w'. db_get db 0 (FromKey ''a'') = Some (FromKey ''hello'') \<and>
     GetRange (env_at 5) [FromKey ''GETRANGE'', FromKey ''a'', IntObj 1, IntObj (- 2)] (legacy_world db) =
       Inr (MakeBulkString ''ell'', w')"
proof -
  let ?k = "FromKey ''a''" and ?v = "FromKey ''hello''"
  obtain db where db: "small 1 db" "current_db db = 0" "db_get db 0 ?k = Some ?v" "db_expiry db 0 ?k = None"
    by (rule one_key [OF FromKey_a_eq])
  have p: "ParseInt (ToString (IntObj 1)) = Some 1" "ParseInt (ToString (IntObj (- 2))) = Some (- 2)"
    by (simp_all add: ParseInt_to_string in_int64_def INT64_MAX_def INT64_MIN_def)
  have v: "visible (legacy_world db) (clk (env_at 5) 0) ?k = Some ?v" "ToString ?v = ''hello''"
    using db(3,4) by (simp_all add: legacy_visible(2) [OF db(1,2)] db_view_eq ToString_FromKey_short)
  have u: "[Suc 0..<4] = [1, 2, 3]" by (simp add: upt_rec)
  have "\<exists>w'. GetRange (env_at 5) [FromKey ''GETRANGE'', ?k, IntObj 1, IntObj (- 2)] (legacy_world db) =
      Inr (MakeBulkString ''ell'', w')"
    using GetRange_result [OF legacy_visible(1) [OF db(1,2)] legacy_GetDB p v, of "FromKey ''GETRANGE''"]
    by (auto simp: u)
  then show ?thesis using db(3) by blast
qed





text \<open>
  C25: in a running server with several shards, \<open>MGET\<close> answers the array of the answers that
  \<open>GET\<close> gives for each key on the shard that owns it, in the order of the arguments, whatever the
  order in which the shards are visited.
\<close>

theorem MGet_is_routed_Gets:
  assumes "world_inv w" "shards_ready w" "env_ok e" "ks \<noteq> []"
  shows "\<exists>rs w'. MGet e (c # ks) w = Inr (MakeArray (int (length ks)) @ concat rs, w') \<and> length rs = length ks \<and>
    (\<forall>i < length ks. \<exists>w''. Get (e\<lparr>clk := \<lambda>_. clk e (Suc i)\<rparr>) [c, FromKey (ToString (ks ! i))]
       (routed e (ToString (ks ! i)) w) = Inr (rs ! i, w''))"
proof -
  define rs where "rs = map (\<lambda>(i, a). bulk_or_null (map_option ToString (owner_view e w (clk e i) (ToString a)))) (enumerate 1 ks)"
  obtain w' where m: "MGet e (c # ks) w = Inr (MakeArray (int (length ks)) @ concat rs, w')"
    using MGet_sharded_eval [OF assms(1-3), of "c # ks"] assms(4) by (auto simp: rs_def Suc_le_eq)
  have "\<exists>w''. Get (e\<lparr>clk := \<lambda>_. clk e (Suc i)\<rparr>) [c, FromKey (ToString (ks ! i))]
       (routed e (ToString (ks ! i)) w) = Inr (rs ! i, w'')" if "i < length ks" for i
  proof -
    let ?e = "e\<lparr>clk := \<lambda>_. clk e (Suc i)\<rparr>" and ?key = "ToString (ks ! i)"
    note R = routed_ok [OF assms(1,2), of e ?key]
    obtain r w'' where g: "Get ?e [c, FromKey ?key] (routed e ?key w) = Inr (r, w'')" using Get_returns [OF R(3)] by blast
    from Get_ok(1) [OF R(1) g] R(2) that have "r = rs ! i" by (simp add: rs_def nth_enumerate_eq)
    with g show ?thesis by blast
  qed
  moreover have "length rs = length ks" by (simp add: rs_def)
  ultimately show ?thesis using m by blast
qed

theorem MGet_is_routed_Gets_witness:
  "\<exists>w'. MGet (env_at 5) [FromKey ''MGET'', FromKey ''a'']
     \<lparr>ctx = \<lparr>local_shard = Some 1, shard_set = True, shard_count = 2, db_index = 0, connection_id = None, has_legacy_db = False\<rparr>,
      shards = [Database_new 31, Database_new 31], tlocal = (\<lambda>_. True), legacy_db = Database_new 31, conns = (\<lambda>_. None)\<rparr> =
     Inr (MakeArray 1 @ MakeNullBulkString, w')"
proof -
  define w where "w = \<lparr>ctx = \<lparr>local_shard = Some 1, shard_set = True, shard_count = 2, db_index = 0, connection_id = None, has_legacy_db = False\<rparr>,
      shards = [Database_new 31, Database_new 31], tlocal = (\<lambda>_. True), legacy_db = Database_new 31, conns = (\<lambda>_. None)\<rparr>"
  have i: "world_inv w" "shards_ready w" "env_ok (env_at 5)"
    by (auto simp: w_def world_inv_def new_db kNumDBs_def shards_ready_def less_Suc_eq env_ok_def order_ok_def mono_def env_at_def)
  have t: "ToString (FromKey ''a'') = ''a''" by (simp add: ToString_FromKey_short)
  let ?r = "routed (env_at 5) ''a'' w" and ?e = "(env_at 5)\<lparr>clk := \<lambda>_. clk (env_at 5) (Suc 0)\<rparr>"
  obtain rs w' where m: "MGet (env_at 5) [FromKey ''MGET'', FromKey ''a''] w = Inr (MakeArray 1 @ concat rs, w')" "length rs = 1"
    and g: "\<exists>w''. Get ?e [FromKey ''MGET'', FromKey ''a''] ?r = Inr (rs ! 0, w'')"
    using MGet_is_routed_Gets [OF i, of "[FromKey ''a'']" "FromKey ''MGET''"] by (auto simp: t)
  obtain w'' where g': "Get ?e [FromKey ''MGET'', FromKey ''a''] ?r = Inr (rs ! 0, w'')" using g by blast
  have v: "visible ?r (clk ?e 0) (FromKey ''a'') = None"
    by (simp add: visible_def context_db_def routed_def w_def Shard_def env_at_def db_view_eq new_db)
  have "rs ! 0 = MakeNullBulkString"
    using Get_ok(1) [OF routed_ok(1) [OF i(1,2)] g'] unfolding v by (simp add: bulk_or_null_def)
  moreover obtain x where "rs = [x]" using m(2) by (cases rs) auto
  ultimately show ?thesis using m(1) unfolding w_def by auto
qed

end
