(* ===== verification/Keyed_Containers.thy ===== *)
theory Keyed_Containers
  imports String_Family
begin

text \<open>
  What the hash, set and list commands share: looking up a key that must hold a container of one
  kind, creating the container when the key is absent or holds something else, and reading the
  pointer to it.

  The three kinds are instances of the locale \<open>container_kind\<close>; the effect of the shared steps on
  what a client sees is proved once in it.
\<close>

section \<open>Lookup and creation\<close>

text \<open>
  \<open>db->Find(key)\<close> followed by the test \<open>obj == nullptr || !obj->IsHash()\<close> (or \<open>IsSet\<close>,
  \<open>IsList\<close>); a command that answers \<open>absent\<close> when the test succeeds and otherwise goes on with
  the object; and the dereference of the pointer that \<open>GetObj\<close> returns.
\<close>

definition find_as :: "(nano_obj \<Rightarrow> bool) \<Rightarrow> int \<Rightarrow> nano_obj \<Rightarrow> database \<Rightarrow> database \<times> nano_obj option" where
  "find_as is_kind now key db =
     (let (db, found) = Database_Find now key db
      in (db, case found of None \<Rightarrow> None | Some obj \<Rightarrow> if is_kind obj then Some obj else None))"

definition lookup_as ::
    "(nano_obj \<Rightarrow> bool) \<Rightarrow> int \<Rightarrow> nano_obj \<Rightarrow> string \<Rightarrow> (nano_obj \<Rightarrow> database \<Rightarrow> (string \<times> database) result) \<Rightarrow>
     database \<Rightarrow> (string \<times> database) result" where
  "lookup_as is_kind now key absent f db =
     (let (db, found) = find_as is_kind now key db
      in case found of None \<Rightarrow> Inr (absent, db) | Some obj \<Rightarrow> f obj db)"

definition deref :: "'a option \<Rightarrow> 'a result" where
  "deref ptr = (case ptr of None \<Rightarrow> Inl NullDeref | Some x \<Rightarrow> Inr x)"

text \<open>
  The opening of the commands that add to a container: a value of another type is deleted, an
  absent one created, and the object is looked up again.
\<close>

definition open_as ::
    "(nano_obj \<Rightarrow> bool) \<Rightarrow> nano_obj \<Rightarrow> (nat \<Rightarrow> int) \<Rightarrow> nano_obj \<Rightarrow> database \<Rightarrow> (nano_obj \<times> database) result" where
  "open_as is_kind fresh now key db =
     (let create = (\<lambda>db. bind_r (Database_Set key fresh db) (\<lambda>db.
            let (db, found) = Database_Find (now 2) key db
            in bind_r (deref found) (\<lambda>obj. Inr (obj, db))));
          (db, found) = Database_Find (now 0) key db
      in case found of
           None \<Rightarrow> create db
         | Some obj \<Rightarrow> if is_kind obj then Inr (obj, db) else create (fst (Database_Del (now 1) key db)))"

definition arity_error :: "string \<Rightarrow> string" where
  "arity_error name = MakeError (''wrong number of arguments for '' @ name)"

definition wrong_type :: string where
  "wrong_type = MakeError ''WRONGTYPE Operation against a key holding the wrong kind of value''"

section \<open>The contract of the databases\<close>

context db_contract
begin

lemma find_as_P:
  assumes "P db" "find_as is_kind now key db = (db', found)"
  shows "P db'" "found = Some obj \<Longrightarrow> V obj" "found = Some obj \<Longrightarrow> is_kind obj"
  using assms P_Find [OF assms(1), of now key] V_Find [OF assms(1), of now key]
  by (auto simp: find_as_def Let_def case_prod_unfold split: option.splits if_splits)

lemma lookup_as_P:
  assumes "P db" "lookup_as is_kind now key absent f db = Inr (r, db')"
    and "\<And>obj d. P d \<Longrightarrow> V obj \<Longrightarrow> f obj d = Inr (r, db') \<Longrightarrow> P db'"
  shows "P db'"
proof -
  obtain d found where f: "find_as is_kind now key db = (d, found)" by fastforce
  show ?thesis
    using assms(2,3) find_as_P [OF assms(1) f] f by (auto simp: lookup_as_def split: option.splits)
qed

lemma open_as_P:
  assumes "P db" "K key" "V fresh" "open_as is_kind fresh now key db = Inr (obj, db')"
  shows "P db'" "V obj"
proof -
  obtain d found where f: "Database_Find (now 0) key db = (d, found)" by fastforce
  have d: "P d" "found = Some v \<Longrightarrow> V v" for v using P_Find [OF assms(1), of "now 0" key] V_Find [OF assms(1), of "now 0" key] f by auto
  have create: "P db' \<and> V obj"
    if c: "bind_r (Database_Set key fresh d1) (\<lambda>db. let (db, found) = Database_Find (now 2) key db
         in bind_r (deref found) (\<lambda>obj. Inr (obj, db))) = Inr (obj, db')" "P d1" for d1
  proof -
    obtain d2 where d2: "Database_Set key fresh d1 = Inr d2" "snd (Database_Find (now 2) key d2) = Some obj"
      "db' = fst (Database_Find (now 2) key d2)"
      using c(1) by (auto simp: bind_r_Inr_iff Let_def case_prod_unfold deref_def split: option.splits)
    have "P d2" by (rule P_Set [OF c(2) d2(1) assms(2,3)])
    then show ?thesis using d2(2,3) P_Find V_Find by blast
  qed
  have "P db' \<and> V obj"
  proof (cases found)
    case None
    with assms(4) f d(1) show ?thesis by (intro create [of d]) (simp_all add: open_as_def)
  next
    case (Some v)
    show ?thesis
    proof (cases "is_kind v")
      case True
      with Some assms(4) f d show ?thesis by (simp add: open_as_def)
    next
      case False
      with Some assms(4) f d(1) show ?thesis
        by (intro create [of "fst (Database_Del (now 1) key d)"]) (simp_all add: open_as_def P_Del)
    qed
  qed
  then show "P db'" "V obj" by simp_all
qed

end

lemma bind_r_InrE: "bind_r x f = Inr y \<Longrightarrow> (\<And>a. x = Inr a \<Longrightarrow> f a = Inr y \<Longrightarrow> thesis) \<Longrightarrow> thesis"
  by (auto simp: bind_r_Inr_iff)

lemma deref_Inr [simp]: "deref p = Inr x \<longleftrightarrow> p = Some x"
  by (simp add: deref_def split: option.splits)

section \<open>What opening a container shows\<close>

lemma Poke_view:
  assumes "db_inv db"
  shows "db_view (Database_Poke k v db) j now k' =
    (if j = current_db db \<and> NanoObj_eq k k' \<and> db_get db j k \<noteq> None
     then (if IsExpiredInDB db j k now then None else Some v) else db_view db j now k')"
  using Poke_db_ok(3) [OF assms, of k v] Poke_db_ok(4) [OF assms, of k v j k'] db_cong(3) [of k k' db j now]
  by (auto simp: db_view_def IsExpiredInDB_expiry db_get_def split: option.splits)

lemma Del_raw:
  assumes "db_inv db"
  shows "db_get (fst (Database_Del now k db)) (current_db db) k = None"
    "db_expiry (fst (Database_Del now k db)) (current_db db) k = None"
proof -
  let ?i = "current_db db" and ?p = "PruneExpiredInDB (current_db db) k now db"
  have i: "?i < kNumDBs" by (rule db_invD(3) [OF assms])
  have p: "db_inv ?p" by (rule Prune_ok(1) [OF assms i])
  show g: "db_get (fst (Database_Del now k db)) ?i k = None"
    using nt_Erase_fst(3) [OF db_invD(4) [OF p i], of k k] nt_Find_irrefl [of k] db_invD(1) [OF p] i
    by (auto simp: Database_Del_def Let_def case_prod_unfold db_get_def)
  show "db_expiry (fst (Database_Del now k db)) ?i k = None"
    using db_invD(8) [OF Del_ok(1) [OF assms prod.collapse [symmetric]] i g] .
qed

text \<open>The value a command works on: that of the key if it is of the kind, a fresh one otherwise.\<close>

definition kind_value :: "(nano_obj \<Rightarrow> bool) \<Rightarrow> nano_obj \<Rightarrow> nano_obj option \<Rightarrow> nano_obj" where
  "kind_value is_kind fresh v = (case v of None \<Rightarrow> fresh | Some obj \<Rightarrow> if is_kind obj then obj else fresh)"

definition has_kind :: "(nano_obj \<Rightarrow> bool) \<Rightarrow> nano_obj option \<Rightarrow> bool" where
  "has_kind is_kind v = (case v of None \<Rightarrow> False | Some obj \<Rightarrow> is_kind obj)"

lemma create_ok:
  assumes inv: "db_inv d" and none: "db_get d (current_db d) k = None" and k: "NanoObj_eq k k"
    and r: "bind_r (Database_Set k fresh d) (\<lambda>db. let (db, found) = Database_Find now k db
              in bind_r (deref found) (\<lambda>obj. Inr (obj, db))) = R"
  shows "R = Inl BadAlloc \<or> (\<exists>d'. R = Inr (fresh, d') \<and> db_inv d' \<and> current_db d' = current_db d \<and>
     db_get d' (current_db d) k = Some fresh \<and>
     (\<forall>v j t k'. db_view (Database_Poke k v d') j t k' =
        (if j = current_db d \<and> NanoObj_eq k k' then Some v else db_view d j t k')))"
  using Set_total [OF inv, of k fresh]
proof (elim disjE exE)
  assume "Database_Set k fresh d = Inl BadAlloc"
  with r show ?thesis by auto
next
  fix d'
  assume s: "Database_Set k fresh d = Inr d'"
  note S = Set_ok [OF inv s]
  have ex: "db_expiry d' (current_db d) k = None"
    using db_invD(8) [OF inv db_invD(3) [OF inv] none] S(3) by simp
  have g: "db_get d' (current_db d) k = Some fresh" using S(4) [of "current_db d" k] k by simp
  have p: "PruneExpiredInDB (current_db d') k now d' = d'"
    using ex S(2) by (simp add: PruneExpiredInDB_def IsExpiredInDB_expiry)
  have "Database_Find now k d' = (d', Some fresh)"
    using g S(2) by (simp add: Database_Find_def p p [unfolded S(2)] Let_def db_get_def)
  then have R: "R = Inr (fresh, d')" using r s by (simp add: deref_def)
  have "db_view (Database_Poke k v d') j t k' =
        (if j = current_db d \<and> NanoObj_eq k k' then Some v else db_view d j t k')" for v j t k'
    using Poke_view [OF S(1), of k v j t k'] g ex S(2) Set_view [OF inv s, of j t k']
    by (auto simp: IsExpiredInDB_expiry)
  then show ?thesis using R S(1,2) g by auto
qed

lemma open_as_ok:
  assumes inv: "db_inv db" and k: "NanoObj_eq k k" and t: "now 0 \<le> now 1" "now 1 \<le> now 2"
    and r: "open_as is_kind fresh now k db = R"
  defines "cur \<equiv> db_view db (current_db db) (now 0) k"
  shows "R = Inl BadAlloc \<or> (\<exists>d. R = Inr (kind_value is_kind fresh cur, d) \<and> db_inv d \<and>
    current_db d = current_db db \<and> db_get d (current_db db) k = Some (kind_value is_kind fresh cur) \<and>
    (\<forall>v j t k'. now 2 \<le> t \<longrightarrow> db_view (Database_Poke k v d) j t k' =
       (if j = current_db db \<and> NanoObj_eq k k'
        then (if has_kind is_kind cur \<and> IsExpiredInDB db j k t then None else Some v)
        else db_view db j t k')))"
proof -
  let ?i = "current_db db" and ?p = "PruneExpiredInDB (current_db db) k (now 0) db"
  have i: "?i < kNumDBs" by (rule db_invD(3) [OF inv])
  note P = Prune_ok [OF inv i, where k = k and now = "now 0"]
  have f: "Database_Find (now 0) k db = (?p, cur)"
    using Find_ok [OF inv, of "now 0" k] by (simp add: cur_def prod_eq_iff)
  have pg: "db_get ?p ?i k = cur" unfolding cur_def by (rule Prune_get(1) [OF inv i])
  show ?thesis
  proof (cases "has_kind is_kind cur")
    case True
    then obtain obj where obj: "cur = Some obj" "is_kind obj" by (auto simp: has_kind_def split: option.splits)
    have v: "db_view (Database_Poke k v ?p) j t k' = (if j = ?i \<and> NanoObj_eq k k'
        then (if IsExpiredInDB db j k t then None else Some v) else db_view db j t k')" if "now 2 \<le> t" for v j t k'
      using Poke_view [OF P(1), of k v j t k'] pg obj P(2) P(5) [of t j k'] that assms(3,4)
        Prune_expired [OF inv, of k "now 0" t] by (auto simp: cur_def)
    have "R = Inr (obj, ?p)" using r f obj by (simp add: open_as_def)
    then show ?thesis using P(1,2) v obj pg True by (simp add: kind_value_def)
  next
    case False
    define d where "d = (case cur of None \<Rightarrow> ?p | Some _ \<Rightarrow> fst (Database_Del (now 1) k ?p))"
    have d: "db_inv d" "current_db d = ?i" "db_get d ?i k = None"
      and dv: "\<And>t j k'. now 2 \<le> t \<Longrightarrow> \<not> (j = ?i \<and> NanoObj_eq k k') \<Longrightarrow> db_view d j t k' = db_view db j t k'"
      using P(1,2) pg P(5) t Del_ok(1,2,4) [OF P(1) prod.collapse [symmetric], where now = "now 1" and k = k]
        Del_raw(1) [OF P(1), of "now 1" k]
      by (auto simp: d_def split: option.splits)
    have "R = bind_r (Database_Set k fresh d) (\<lambda>db. let (db, found) = Database_Find (now 2) k db
              in bind_r (deref found) (\<lambda>obj. Inr (obj, db)))"
      using r f False by (auto simp: open_as_def d_def has_kind_def split: option.splits)
    from create_ok [OF d(1) _ k this [symmetric]] d show ?thesis
      using False dv unfolding kind_value_def has_kind_def by (auto split: option.splits)
  qed
qed

section \<open>Containers as seen by a client\<close>

text \<open>
  After a command that changes the container of a key in place: the key holds \<open>v\<close>, with its old
  deadline if it held a container of the kind, and nothing else is different.
\<close>

definition stored_as :: "(nano_obj \<Rightarrow> bool) \<Rightarrow> world \<Rightarrow> int \<Rightarrow> int \<Rightarrow> nano_obj \<Rightarrow> nano_obj \<Rightarrow> world \<Rightarrow> bool" where
  "stored_as is_kind w t0 t k v w' \<longleftrightarrow> world_inv w' \<and> (\<forall>now k'. t \<le> now \<longrightarrow> visible w' now k' =
     (if NanoObj_eq k k' then (if has_kind is_kind (visible w t0 k) \<and> expired w now k then None else Some v)
      else visible w now k'))"

definition removed :: "world \<Rightarrow> int \<Rightarrow> nano_obj \<Rightarrow> world \<Rightarrow> bool" where
  "removed w t k w' \<longleftrightarrow> world_inv w' \<and>
     (\<forall>now k'. t \<le> now \<longrightarrow> visible w' now k' = (if NanoObj_eq k k' then None else visible w now k'))"

lemma lookup_world:
  assumes "world_inv w" "GetDB w = Some db"
  shows "with_db (lookup_as is_kind t k absent f) w =
    (let p = PruneExpiredInDB (current_db db) k t db
     in if has_kind is_kind (visible w t k) then bind_r (f (the (visible w t k)) p) (\<lambda>(r, db). Inr (r, put_db db w))
        else Inr (absent, put_db p w))"
proof -
  note i = GetDB_inv(1) [OF assms]
  have "find_as is_kind t k db = (PruneExpiredInDB (current_db db) k t db,
      if has_kind is_kind (visible w t k) then visible w t k else None)"
    using Find_ok [OF i, of t k]
    by (auto simp: find_as_def has_kind_def GetDB_visible [OF assms] Let_def case_prod_unfold split: option.splits)
  then show ?thesis
    by (auto simp: with_db_def assms(2) lookup_as_def has_kind_def Let_def split: option.splits)
qed

lemma unchanged_pruned:
  assumes "world_inv w" "GetDB w = Some db"
  shows "world_inv (put_db (PruneExpiredInDB (current_db db) k t db) w)"
    "unchanged w t (put_db (PruneExpiredInDB (current_db db) k t db) w)"
  using put_db_inv [OF assms(1) prune_current(1) [OF GetDB_inv(1) [OF assms]]] unchanged_prune [OF assms] by auto

lemma poke_pruned:
  assumes w: "world_inv w" "GetDB w = Some db" and k: "has_kind is_kind (visible w t k)" and t: "t \<le> t'"
  shows "stored_as is_kind w t t' k v (put_db (Database_Poke k v (PruneExpiredInDB (current_db db) k t db)) w)"
proof -
  let ?i = "current_db db" and ?p = "PruneExpiredInDB (current_db db) k t db"
  note i = GetDB_inv(1) [OF w] and V = GetDB_visible [OF w]
  note P = prune_current [OF i, where k = k and now = t]
  have g: "db_get ?p ?i k = visible w t k" using Prune_get(1) [OF i db_invD(3) [OF i]] V by simp
  have n: "visible w t k \<noteq> None" using k by (auto simp: has_kind_def split: option.splits)
  have "db_view (Database_Poke k v ?p) ?i now k' =
      (if NanoObj_eq k k' then (if IsExpiredInDB db ?i k now then None else Some v) else db_view db ?i now k')"
    if "t' \<le> now" for now k'
    using Poke_view [OF P(1), of k v ?i now k'] P(2) P(3) [of now ?i k'] g n that t Prune_expired [OF i, of k t now] V
    by auto
  moreover have "world_inv (put_db (Database_Poke k v ?p) w)" by (rule put_db_inv [OF w(1) Poke_db_ok(1) [OF P(1)]])
  ultimately show ?thesis using k by (simp add: stored_as_def put_db_visible [OF w] V)
qed

lemma poke_del:
  assumes w: "world_inv w" "GetDB w = Some db" and t: "t \<le> t'"
  shows "removed w t' k (put_db (fst (Database_Del t' k (Database_Poke k v (PruneExpiredInDB (current_db db) k t db)))) w)"
proof -
  let ?i = "current_db db" and ?q = "Database_Poke k v (PruneExpiredInDB (current_db db) k t db)"
  note i = GetDB_inv(1) [OF w] and V = GetDB_visible [OF w]
  note P = prune_current [OF i, where k = k and now = t]
  note Q = Poke_db_ok(1,2) [OF P(1), of k v]
  note D = Del_ok [OF Q(1) prod.collapse [symmetric], where now = t' and k = k]
  have "db_view (fst (Database_Del t' k ?q)) ?i now k' = (if NanoObj_eq k k' then None else db_view db ?i now k')"
    if "t' \<le> now" for now k'
    using D(4) [OF that, of ?i k'] Q(2) P(2) P(3) [of now ?i k'] Poke_view [OF P(1), of k v ?i now k'] that t by auto
  moreover have "world_inv (put_db (fst (Database_Del t' k ?q)) w)" by (rule put_db_inv [OF w(1) D(1)])
  ultimately show ?thesis by (simp add: removed_def put_db_visible [OF w] V)
qed

locale container_kind =
  fixes is_kind :: "nano_obj \<Rightarrow> bool" and get :: "nano_obj \<Rightarrow> 'c option" and mk :: "'c \<Rightarrow> container"
    and fresh :: nano_obj and empty :: 'c
  assumes kind_fresh: "is_kind fresh" and get_fresh: "get fresh = Some empty"
    and kind_put: "is_kind (SetObj (mk c) obj) = is_kind obj"
    and get_put: "is_kind obj \<Longrightarrow> get (SetObj (mk c) obj) = Some c"
    and get_kind: "obj_ok obj \<Longrightarrow> is_kind obj \<Longrightarrow> get obj \<noteq> None"
begin

lemma kind_value_kind: "is_kind (kind_value is_kind fresh v)"
  by (simp add: kind_value_def kind_fresh split: option.splits)

lemma kind_value_get: "(\<And>obj. v = Some obj \<Longrightarrow> obj_ok obj) \<Longrightarrow> \<exists>c. get (kind_value is_kind fresh v) = Some c"
  using get_kind by (auto simp: kind_value_def get_fresh split: option.splits)

text \<open>A command that opens the container, creating it if needed, and stores a changed one.\<close>

lemma open_world:
  assumes w: "world_inv w" "GetDB w = Some db" and k: "NanoObj_eq k k" and t: "now 0 \<le> now 1" "now 1 \<le> now 2"
    and c: "get (kind_value is_kind fresh (visible w (now 0) k)) = Some c"
    and r: "with_db (\<lambda>db. bind_r (open_as is_kind fresh now k db) (\<lambda>(obj, db). bind_r (deref (get obj)) (\<lambda>c.
              Inr (reply c, Database_Poke k (SetObj (mk (f c)) obj) db)))) w = R"
  shows "R = Inl BadAlloc \<or> (\<exists>w'. R = Inr (reply c, w') \<and>
    stored_as is_kind w (now 0) (now 2) k (SetObj (mk (f c)) (kind_value is_kind fresh (visible w (now 0) k))) w')"
proof -
  note i = GetDB_inv(1) [OF w] and V = GetDB_visible [OF w]
  let ?obj = "kind_value is_kind fresh (visible w (now 0) k)"
  let ?v = "SetObj (mk (f c)) ?obj"
  from open_as_ok [OF i k t refl, of is_kind fresh]
  show ?thesis
  proof (elim disjE exE conjE)
    assume "open_as is_kind fresh now k db = Inl BadAlloc"
    with r show ?thesis by (auto simp: with_db_def w(2))
  next
    fix d
    assume o: "open_as is_kind fresh now k db =
        Inr (kind_value is_kind fresh (db_view db (current_db db) (now 0) k), d)"
      and d: "db_inv d" "current_db d = current_db db"
      and v: "\<forall>v j t k'. now 2 \<le> t \<longrightarrow> db_view (Database_Poke k v d) j t k' =
        (if j = current_db db \<and> NanoObj_eq k k'
         then (if has_kind is_kind (db_view db (current_db db) (now 0) k) \<and> IsExpiredInDB db j k t then None else Some v)
         else db_view db j t k')"
    have "R = Inr (reply c, put_db (Database_Poke k ?v d) w)"
      using r o c V by (simp add: with_db_def w(2) deref_def)
    moreover have "stored_as is_kind w (now 0) (now 2) k ?v (put_db (Database_Poke k ?v d) w)"
      using v put_db_inv [OF w(1) Poke_db_ok(1) [OF d(1)]] unfolding stored_as_def put_db_visible [OF w] V by auto
    ultimately show ?thesis by blast
  qed
qed

end

lemma visible_obj_ok:
  assumes "world_all db_ok w" "GetDB w = Some db" "visible w t k = Some obj"
  shows "obj_ok obj"
proof -
  have w: "world_inv w" using assms(1) by (simp add: world_in_def)
  have "snd (Database_Find t k db) = Some obj"
    using Find_ok(1) [OF GetDB_inv(1) [OF w assms(2)]] GetDB_visible(1) [OF w assms(2)] assms(3) by simp
  then show ?thesis by (rule ok.V_Find [OF ok.GetDB_P [OF assms(1,2)]])
qed

context container_kind
begin

text \<open>The contents a command finds, and a command that only reads them.\<close>

lemma visible_get:
  assumes "world_all db_ok w" "GetDB w = Some db"
  obtains c where "get (kind_value is_kind fresh (visible w t k)) = Some c"
  using kind_value_get [of "visible w t k"] visible_obj_ok [OF assms] by blast

lemma read_world:
  assumes w: "world_all db_ok w" "GetDB w = Some db"
  shows "\<exists>w'. with_db (lookup_as is_kind t k (f empty) (\<lambda>obj db. bind_r (deref (get obj)) (\<lambda>c. Inr (f c, db)))) w =
    Inr (f (the (get (kind_value is_kind fresh (visible w t k)))), w') \<and> world_inv w' \<and> unchanged w t w'"
proof -
  have i: "world_inv w" using w(1) by (simp add: world_in_def)
  obtain c where c: "get (kind_value is_kind fresh (visible w t k)) = Some c" by (rule visible_get [OF w])
  have k: "has_kind is_kind (visible w t k) \<Longrightarrow> kind_value is_kind fresh (visible w t k) = the (visible w t k)"
    "\<not> has_kind is_kind (visible w t k) \<Longrightarrow> kind_value is_kind fresh (visible w t k) = fresh"
    by (auto simp: has_kind_def kind_value_def split: option.splits)
  show ?thesis
    using c k get_fresh unchanged_pruned [OF i w(2)] by (auto simp: lookup_world [OF i w(2)] Let_def deref_def)
qed

text \<open>A command that looks the container up and stores a changed one.\<close>

lemma edit_world:
  assumes w: "world_all db_ok w" "GetDB w = Some db"
  shows "\<exists>w'. with_db (lookup_as is_kind t k absent (\<lambda>obj db. bind_r (deref (get obj)) (\<lambda>c.
            Inr (reply c, Database_Poke k (SetObj (mk (f c)) obj) db)))) w =
      Inr (if has_kind is_kind (visible w t k) then reply (the (get (kind_value is_kind fresh (visible w t k)))) else absent, w') \<and>
    (if has_kind is_kind (visible w t k)
     then stored_as is_kind w t t k
            (SetObj (mk (f (the (get (kind_value is_kind fresh (visible w t k)))))) (kind_value is_kind fresh (visible w t k))) w'
     else unchanged w t w')"
proof -
  have i: "world_inv w" using w(1) by (simp add: world_in_def)
  obtain c where c: "get (kind_value is_kind fresh (visible w t k)) = Some c" by (rule visible_get [OF w])
  have k: "has_kind is_kind (visible w t k) \<Longrightarrow> kind_value is_kind fresh (visible w t k) = the (visible w t k)"
    by (auto simp: has_kind_def kind_value_def split: option.splits)
  show ?thesis
    using c k unchanged_pruned [OF i w(2)] poke_pruned [OF i w(2) _ order_refl]
    by (auto simp: lookup_world [OF i w(2)] Let_def deref_def)
qed

end

text \<open>Objects of a container type.\<close>

lemma robj_cases: "robj_has_type ty obj \<Longrightarrow> \<exists>i sz enc. obj = RobjObj (Robj i sz ty enc)"
proof (cases obj)
  case (RobjObj r)
  then show "robj_has_type ty obj \<Longrightarrow> ?thesis" by (cases r) simp
qed simp_all

lemma SetObj_type: "robj_has_type ty (SetObj c obj) = robj_has_type ty obj"
proof (cases obj)
  case (RobjObj r)
  then show ?thesis by (cases r) simp
qed simp_all

lemma SetObj_robj: "robj_has_type ty obj \<Longrightarrow> \<exists>sz enc. SetObj c obj = RobjObj (Robj (Some c) sz ty enc)"
  by (auto dest!: robj_cases)

lemma obj_ok_robj: "obj_ok obj \<Longrightarrow> robj_has_type ty obj \<Longrightarrow>
    \<exists>c sz enc. obj = RobjObj (Robj (Some c) sz ty enc) \<and> container_ok ty c"
  by (auto dest!: robj_cases) (metis obj_ok.simps(1,2) option.exhaust)

lemma new_db_ok: "db_ok (Database_new 31)"
proof -
  have "entries (Database_new 31) i = {}" if "i < kNumDBs" for i
    using that by (simp add: entries_def Database_new_def kInitialSegmentCount_def kDefaultFixedBucketCount_def
        new_16_empty(3) del: One_nat_def)
  then show ?thesis using new_db(1) by (simp add: db_values_def)
qed

text \<open>A well-formed database in which one key holds an object.\<close>

lemma FromKey_refl: "NanoObj_eq (FromKey s) (FromKey s)"
  using key_of_FromKey [of s] by (auto simp: NanoObj_eq_refl)

lemma one_object:
  assumes "obj_ok obj"
  obtains db where "small (Suc 0) db" "db_ok db" "current_db db = 0" "db_get db 0 (FromKey s) = Some obj"
    "world_all db_ok (legacy_world db)" "GetDB (legacy_world db) = Some db"
    "\<And>t. visible (legacy_world db) t (FromKey s) = Some obj"
proof -
  let ?k = "FromKey s"
  obtain db where s: "Database_Set ?k obj (Database_new 31) = Inr db" "small (Suc 0) db"
    by (rule small_Set [OF small_new]) simp
  note S = Set_ok [OF new_db(1) s(1)]
  have ok: "db_ok db" by (rule db_ok_Set [OF new_db_ok s(1) FromKey_ok assms])
  have c: "current_db db = 0" using S(2) new_db(2) by simp
  have g: "db_get db 0 ?k = Some obj" using S(4) [of 0 ?k] FromKey_refl [of s] new_db(2) by simp
  have "world_all db_ok (legacy_world db)"
    using ok legacy_world_ok(1) [OF S(1) c] by (simp add: world_in_def legacy_world_def)
  moreover have "visible (legacy_world db) t ?k = Some obj" for t
    using legacy_world_ok(4) [OF S(1) c] g S(3) new_db(3) by (simp add: db_view_eq)
  ultimately show ?thesis using s(2) ok c g by (intro that [of db]) simp_all
qed

context container_kind
begin

lemma put_value:
  "the (get (kind_value is_kind fresh (Some (SetObj (mk c) (kind_value is_kind fresh v))))) = c"
  using kind_value_kind [of v] kind_put [of c] get_put [of "kind_value is_kind fresh v" c]
  by (simp add: kind_value_def [of _ _ "Some _"])

lemma value_absent: "\<not> has_kind is_kind v \<Longrightarrow> the (get (kind_value is_kind fresh v)) = empty"
  using get_fresh by (auto simp: kind_value_def has_kind_def split: option.splits)

text \<open>A command on a key that holds a container of the kind.\<close>

lemma found_world:
  assumes w: "world_all db_ok w" "GetDB w = Some db" and k: "has_kind is_kind (visible w t k)"
  obtains obj c where "visible w t k = Some obj" "is_kind obj" "get obj = Some c"
    "\<And>(absent :: string) f. with_db (lookup_as is_kind t k absent f) w =
       bind_r (f obj (PruneExpiredInDB (current_db db) k t db)) (\<lambda>(r, db). Inr (r, put_db db w))"
proof -
  have i: "world_inv w" using w(1) by (simp add: world_in_def)
  from k obtain obj where o: "visible w t k = Some obj" "is_kind obj" by (auto simp: has_kind_def split: option.splits)
  with get_kind [OF visible_obj_ok [OF w o(1)]] obtain c where "get obj = Some c" by auto
  with o k show ?thesis by (intro that [of obj c]) (simp_all add: lookup_world [OF i w(2)])
qed

text \<open>A command that stores a changed container, or deletes the key if the container became empty.\<close>

lemma edit_or_del_world:
  assumes w: "world_all db_ok w" "GetDB w = Some db" and t: "t \<le> t'"
  shows "\<exists>w'. with_db (lookup_as is_kind t k (absent :: string) (\<lambda>obj db. bind_r (deref (get obj)) (\<lambda>c.
            Inr (reply c, let db = Database_Poke k (SetObj (mk (f c)) obj) db
                          in if f c = empty then fst (Database_Del t' k db) else db)))) w =
      Inr (if has_kind is_kind (visible w t k) then reply (the (get (kind_value is_kind fresh (visible w t k)))) else absent, w') \<and>
    (if \<not> has_kind is_kind (visible w t k) then unchanged w t w'
     else if f (the (get (kind_value is_kind fresh (visible w t k)))) = empty then removed w t' k w'
     else stored_as is_kind w t t' k
            (SetObj (mk (f (the (get (kind_value is_kind fresh (visible w t k)))))) (kind_value is_kind fresh (visible w t k))) w')"
proof (cases "has_kind is_kind (visible w t k)")
  case True
  have i: "world_inv w" using w(1) by (simp add: world_in_def)
  obtain obj c where o: "visible w t k = Some obj" "is_kind obj" "get obj = Some c"
    and run: "\<And>(absent :: string) f. with_db (lookup_as is_kind t k absent f) w =
       bind_r (f obj (PruneExpiredInDB (current_db db) k t db)) (\<lambda>(r, db). Inr (r, put_db db w))"
    by (rule found_world [OF w True]) simp_all
  have v: "kind_value is_kind fresh (visible w t k) = obj" using o by (simp add: kind_value_def)
  show ?thesis
    unfolding run v o(3) using True poke_pruned [OF i w(2) True t] poke_del [OF i w(2) t]
    by (simp add: deref_def o(3) Let_def)
next
  case False
  have i: "world_inv w" using w(1) by (simp add: world_in_def)
  show ?thesis using False unchanged_pruned [OF i w(2)] by (auto simp: lookup_world [OF i w(2)] Let_def)
qed

end

end
