(* ===== verification/Hash_Family.thy ===== *)
theory Hash_Family
  imports Keyed_Containers
begin

text \<open>
  The hash commands of \<open>src/command/hash_family.cc\<close>.  A hash is the dense vector of an
  \<open>unordered_dense::map\<close> from strings to strings; \<open>rand e i\<close> is the \<open>i\<close>-th value that
  \<open>std::rand\<close> returns during the command.
\<close>

section \<open>Handlers\<close>

definition hash_find :: "string \<Rightarrow> (string \<times> string) list \<Rightarrow> string option" where
  "hash_find field h = map_option snd (table_find (=) fst field h)"

definition hash_put :: "string \<Rightarrow> string \<Rightarrow> (string \<times> string) list \<Rightarrow> (string \<times> string) list" where
  "hash_put field value h = map_insert_or_assign (=) field value h"

text \<open>Replacing the contents of the hash that an object points at.\<close>

definition poke_hash :: "nano_obj \<Rightarrow> nano_obj \<Rightarrow> (string \<times> string) list \<Rightarrow> database \<Rightarrow> database" where
  "poke_hash key obj h db = Database_Poke key (SetObj (HashTable h) obj) db"

definition set_fields :: "nano_obj list \<Rightarrow> (string \<times> string) list \<Rightarrow> (string \<times> string) list" where
  "set_fields fvs h = fold (\<lambda>(i, f, v). hash_put (ToString f) (ToString v)) (pairs_of 0 fvs) h"

definition hset_body :: "env \<Rightarrow> nano_obj list \<Rightarrow> database \<Rightarrow> (string \<times> database) result" where
  "hset_body e args db =
     bind_r (open_as IsHash (SetObj (HashTable []) FromHash) (clk e) (args ! 1) db) (\<lambda>(hash_obj, db).
     bind_r (deref (GetHashObj hash_obj)) (\<lambda>hash_table.
       Inr (OkResponse, poke_hash (args ! 1) hash_obj (set_fields (drop 2 args) hash_table) db)))"

definition HSet :: handler where
  "HSet e args w =
     (if length args < 4 \<or> length args mod 2 \<noteq> 0 then Inr (arity_error ''HSET'', w)
      else with_db (hset_body e args) w)"

definition HMSet :: handler where
  "HMSet e args w =
     (if length args < 4 \<or> length args mod 2 \<noteq> 0 then Inr (arity_error ''HMSET'', w)
      else with_db (hset_body e args) w)"

text \<open>
  The commands that only read: the answer for a key without a hash, and the answer computed from
  the hash.
\<close>

definition read_hash ::
    "env \<Rightarrow> nano_obj \<Rightarrow> string \<Rightarrow> ((string \<times> string) list \<Rightarrow> string) \<Rightarrow> database \<Rightarrow> (string \<times> database) result" where
  "read_hash e key absent f =
     lookup_as IsHash (clk e 0) key absent (\<lambda>obj db.
       bind_r (deref (GetHashObj obj)) (\<lambda>hash_table. Inr (f hash_table, db)))"

definition HGet :: handler where
  "HGet e args w =
     (if length args \<noteq> 3 then Inr (arity_error ''HGET'', w)
      else with_db (read_hash e (args ! 1) MakeNullBulkString
             (\<lambda>hash_table. bulk_or_null (hash_find (ToString (args ! 2)) hash_table))) w)"

definition HMGet :: handler where
  "HMGet e args w =
     (if length args < 3 then Inr (arity_error ''HMGET'', w)
      else
        let array = MakeArray (int (length args - 2))
        in with_db (read_hash e (args ! 1) (array @ concat (map (\<lambda>_. MakeNullBulkString) (drop 2 args)))
             (\<lambda>hash_table. array @ concat (map (\<lambda>a. bulk_or_null (hash_find (ToString a) hash_table)) (drop 2 args)))) w)"

definition HExists :: handler where
  "HExists e args w =
     (if length args \<noteq> 3 then Inr (arity_error ''HEXISTS'', w)
      else with_db (read_hash e (args ! 1) (MakeInteger 0)
             (\<lambda>hash_table. MakeInteger (if hash_find (ToString (args ! 2)) hash_table \<noteq> None then 1 else 0))) w)"

definition HLen :: handler where
  "HLen e args w =
     (if length args \<noteq> 2 then Inr (arity_error ''HLEN'', w)
      else with_db (read_hash e (args ! 1) (MakeInteger 0) (\<lambda>hash_table. MakeInteger (int (length hash_table)))) w)"

definition HKeys :: handler where
  "HKeys e args w =
     (if length args \<noteq> 2 then Inr (arity_error ''HKEYS'', w)
      else with_db (read_hash e (args ! 1) (MakeArray 0) (\<lambda>hash_table. bulk_array (map fst hash_table))) w)"

definition HVals :: handler where
  "HVals e args w =
     (if length args \<noteq> 2 then Inr (arity_error ''HVALS'', w)
      else with_db (read_hash e (args ! 1) (MakeArray 0) (\<lambda>hash_table. bulk_array (map snd hash_table))) w)"

definition HGetAll :: handler where
  "HGetAll e args w =
     (if length args \<noteq> 2 then Inr (arity_error ''HGETALL'', w)
      else with_db (read_hash e (args ! 1) (MakeArray 0)
             (\<lambda>hash_table. bulk_array (concat (map (\<lambda>(f, v). [f, v]) hash_table)))) w)"

definition HStrLen :: handler where
  "HStrLen e args w =
     (if length args \<noteq> 3 then Inr (arity_error ''HSTRLEN'', w)
      else with_db (read_hash e (args ! 1) (MakeInteger 0)
             (\<lambda>hash_table. case hash_find (ToString (args ! 2)) hash_table of
                None \<Rightarrow> MakeInteger 0
              | Some v \<Rightarrow> MakeInteger (int (length v)))) w)"

definition HScan :: handler where
  "HScan e args w =
     (if length args < 3 then Inr (arity_error ''HSCAN'', w)
      else with_db (lookup_as IsHash (clk e 0) (args ! 1) wrong_type (\<lambda>obj db.
        (case stoull (ToString (args ! 2)) of
           None \<Rightarrow> Inr (MakeError ''invalid cursor'', db)
         | Some cursor \<Rightarrow>
             if cursor \<noteq> 0 then Inr (MakeArray 2 @ MakeBulkString ''0'' @ MakeArray 0, db)
             else bind_r (deref (GetHashObj obj)) (\<lambda>hash_table.
               Inr (MakeArray 2 @ MakeBulkString ''0'' @
                      bulk_array (concat (map (\<lambda>(f, v). [f, v]) hash_table)), db))))) w)"

text \<open>\<open>erase(field)\<close> for each argument, counting the fields that were there.\<close>

definition erase_fields :: "string list \<Rightarrow> (string \<times> string) list \<Rightarrow> (string \<times> string) list \<times> nat" where
  "erase_fields names h =
     fold (\<lambda>field (h, deleted). let (h, hit) = table_erase (=) fst field h
                                in (h, if hit then deleted + 1 else deleted)) names (h, 0)"

definition HDel :: handler where
  "HDel e args w =
     (if length args < 3 then Inr (arity_error ''HDEL'', w)
      else with_db (lookup_as IsHash (clk e 0) (args ! 1) (MakeInteger 0) (\<lambda>obj db.
        bind_r (deref (GetHashObj obj)) (\<lambda>hash_table.
          let (h, deleted) = erase_fields (map ToString (drop 2 args)) hash_table
          in Inr (MakeInteger (int deleted), poke_hash (args ! 1) obj h db)))) w)"

definition HIncrBy :: handler where
  "HIncrBy e args w =
     (if length args \<noteq> 4 then Inr (arity_error ''HINCRBY'', w)
      else with_db (lookup_as IsHash (clk e 0) (args ! 1) wrong_type (\<lambda>obj db.
        let field = ToString (args ! 2)
        in case ParseLongLong (ToString (args ! 3)) of
             None \<Rightarrow> Inr (MakeError ''value is not an integer or out of range'', db)
           | Some increment \<Rightarrow> bind_r (deref (GetHashObj obj)) (\<lambda>hash_table.
               let store = (\<lambda>n. Inr (MakeBulkString (to_string n),
                                     poke_hash (args ! 1) obj (hash_put field (to_string n) hash_table) db))
               in case hash_find field hash_table of
                    None \<Rightarrow> store increment
                  | Some v \<Rightarrow>
                      (case stoll v of
                         None \<Rightarrow> Inr (MakeError ''hash value is not an integer'', db)
                       | Some current \<Rightarrow> bind_r (add_i64 current increment) store)))) w)"

text \<open>
  The loop of HRANDFIELD: the field at a random offset is reported and erased, at most
  \<open>n\<close> times.
\<close>

fun random_fields :: "(nat \<Rightarrow> nat) \<Rightarrow> nat \<Rightarrow> (string \<times> string) list \<Rightarrow> string list \<times> (string \<times> string) list" where
  "random_fields rnd n [] = ([], [])"
| "random_fields rnd 0 h = ([], h)"
| "random_fields rnd (Suc n) h =
     (let offset = rnd 0 mod length h;
          (out, h') = random_fields (\<lambda>i. rnd (Suc i)) n (table_erase_at offset h)
      in (fst (h ! offset) # out, h'))"

definition HRandField :: handler where
  "HRandField e args w =
     (if length args < 2 \<or> length args > 3 then Inr (arity_error ''HRANDFIELD'', w)
      else with_db (lookup_as IsHash (clk e 0) (args ! 1) MakeNullBulkString (\<lambda>obj db.
        bind_r (deref (GetHashObj obj)) (\<lambda>hash_table.
          if hash_table = [] then Inr (MakeNullBulkString, db)
          else if length args = 2 then
            Inr (MakeBulkString (fst (hash_table ! (rand e 0 mod length hash_table))), db)
          else case ParseLongLong (ToString (args ! 2)) of
              None \<Rightarrow> Inr (MakeError ''count is not a valid positive integer'', db)
            | Some cnt \<Rightarrow>
                if cnt < 0 then Inr (MakeError ''count is not a valid positive integer'', db)
                else let (out, h) = random_fields (rand e) (nat cnt) hash_table
                  in Inr (MakeArray cnt @ concat (map MakeBulkString out), poke_hash (args ! 1) obj h db)))) w)"

section \<open>The contract of the databases\<close>

lemma set_fields_inv: "table_inv (=) fst h \<Longrightarrow> table_inv (=) fst (set_fields fvs h)"
  unfolding set_fields_def
  by (rule fold_inv) (auto simp: hash_put_def intro: str_map.table_inv_insert_or_assign)

lemma hash_put_inv: "table_inv (=) fst h \<Longrightarrow> table_inv (=) fst (hash_put f v h)"
  by (simp add: hash_put_def str_map.table_inv_insert_or_assign)

lemma erase_fields_inv: "table_inv (=) fst h \<Longrightarrow> table_inv (=) fst (fst (erase_fields names h))"
  unfolding erase_fields_def
  by (rule fold_inv [where P = "\<lambda>s. table_inv (=) fst (fst s)"])
    (auto simp: Let_def case_prod_unfold intro: str_map.table_inv_erase)

lemma random_fields_sub: "mset (snd (random_fields rnd n h)) \<subseteq># mset h"
proof (induction rnd n h rule: random_fields.induct)
  case (3 rnd n e h)
  let ?o = "rnd 0 mod length (e # h)"
  have "?o < length (e # h)" by simp
  then have "mset (table_erase_at ?o (e # h)) \<subseteq># mset (e # h)"
    by (simp only: mset_table_erase_at diff_subset_eq_self)
  with 3 [OF refl] show ?case by (auto simp: Let_def case_prod_unfold intro: subset_mset.order_trans)
qed simp_all

lemma random_fields_inv: "table_inv (=) fst h \<Longrightarrow> table_inv (=) fst (snd (random_fields rnd n h))"
  by (rule str_map.table_inv_subset [OF _ random_fields_sub])

context db_contract
begin

lemma poke_hash_P:
  assumes "P db" "V obj" "GetHashObj obj = Some h" "table_inv (=) fst h \<Longrightarrow> table_inv (=) fst h'"
  shows "P (poke_hash key obj h' db)"
  unfolding poke_hash_def by (rule P_Poke [OF assms(1) V_put_hash [OF assms(2-4)]])

lemma hset_body_P:
  assumes "P db" "K (args ! 1)" "hset_body e args db = Inr (r, db')"
  shows "P db'"
proof -
  obtain obj d h where o: "open_as IsHash (SetObj (HashTable []) FromHash) (clk e) (args ! 1) db = Inr (obj, d)"
    "GetHashObj obj = Some h" "db' = poke_hash (args ! 1) obj (set_fields (drop 2 args) h) d"
    using assms(3) by (auto simp: hset_body_def bind_r_Inr_iff)
  note O = open_as_P [OF assms(1,2) V_hash o(1)]
  show ?thesis unfolding o(3) by (rule poke_hash_P [OF O o(2) set_fields_inv])
qed

lemma HSet_keeps: "keeps W P K HSet" and HMSet_keeps: "keeps W P K HMSet"
  by (rule keepsI; auto simp: HSet_def HMSet_def arg_K split: if_splits elim!: with_db_all [rotated] hset_body_P [rotated 2])+

lemma read_hash_P: "P db \<Longrightarrow> read_hash e key absent f db = Inr (r, db') \<Longrightarrow> P db'"
  by (auto simp: read_hash_def bind_r_Inr_iff elim!: lookup_as_P [rotated])

lemma HGet_keeps: "keeps W P K HGet" and HMGet_keeps: "keeps W P K HMGet" and HExists_keeps: "keeps W P K HExists"
  and HLen_keeps: "keeps W P K HLen" and HKeys_keeps: "keeps W P K HKeys" and HVals_keeps: "keeps W P K HVals"
  and HGetAll_keeps: "keeps W P K HGetAll" and HStrLen_keeps: "keeps W P K HStrLen"
  by (rule keepsI; auto simp: HGet_def HMGet_def HExists_def HLen_def HKeys_def HVals_def HGetAll_def HStrLen_def Let_def
      split: if_splits elim!: with_db_all [rotated] read_hash_P [rotated])+

lemma HScan_keeps: "keeps W P K HScan"
  by (rule keepsI) (auto simp: HScan_def bind_r_Inr_iff split: if_splits option.splits elim!: with_db_all [rotated] lookup_as_P [rotated])

lemma HDel_keeps: "keeps W P K HDel"
  by (rule keepsI) (auto simp: HDel_def bind_r_Inr_iff Let_def case_prod_unfold split: if_splits
      elim!: with_db_all [rotated] lookup_as_P [rotated] intro!: poke_hash_P erase_fields_inv)

lemma HIncrBy_keeps: "keeps W P K HIncrBy"
  by (rule keepsI) (auto simp: HIncrBy_def Let_def split: if_splits option.splits elim!: bind_r_InrE
      with_db_all [rotated] lookup_as_P [rotated] intro!: poke_hash_P hash_put_inv)

lemma HRandField_keeps: "keeps W P K HRandField"
  by (rule keepsI) (auto simp: HRandField_def bind_r_Inr_iff Let_def case_prod_unfold split: if_splits option.splits
      elim!: with_db_all [rotated] lookup_as_P [rotated] intro!: poke_hash_P random_fields_inv)

end

section \<open>A hash is a finite map\<close>

interpretation hk: container_kind IsHash GetHashObj HashTable "SetObj (HashTable []) FromHash" "[]"
proof
  show "IsHash (SetObj (HashTable []) FromHash)" "GetHashObj (SetObj (HashTable []) FromHash) = Some []"
    by (simp_all add: FromHash_def InitRobj_def IsHash_def)
  show "IsHash (SetObj (HashTable c) obj) = IsHash obj" for c obj by (simp add: IsHash_def SetObj_type)
  show "GetHashObj (SetObj (HashTable c) obj) = Some c" if "IsHash obj" for c obj
    using SetObj_robj [OF that [unfolded IsHash_def], of "HashTable c"] by auto
  show "GetHashObj obj \<noteq> None" if o: "obj_ok obj" "IsHash obj" for obj
  proof -
    obtain c sz enc where c: "obj = RobjObj (Robj (Some c) sz OBJ_HASH enc)" "container_ok OBJ_HASH c"
      using obj_ok_robj [OF o(1) o(2) [unfolded IsHash_def]] by blast
    then show ?thesis by (cases c) (simp_all add: OBJ_HASH_def OBJ_SET_def OBJ_LIST_def)
  qed
qed

text \<open>The map that a key holds; empty if the key holds no hash.\<close>

definition hash_value :: "nano_obj option \<Rightarrow> (string \<times> string) list" where
  "hash_value v = the (GetHashObj (kind_value IsHash (SetObj (HashTable []) FromHash) v))"

definition hash_of :: "nano_obj option \<Rightarrow> string \<Rightarrow> string option" where
  "hash_of v = map_of (hash_value v)"

lemma hash_find_map_of: "hash_find f h = map_of h f"
  by (induction h) (auto simp: hash_find_def table_find_def split: option.splits if_splits)

lemma map_of_hash_put: "map_of (hash_put f v h) = (map_of h)(f \<mapsto> v)"
proof (cases "table_pos (=) fst f h")
  case None
  then show ?thesis
    by (auto simp: hash_put_def str_map.map_insert_or_assign_absent table_pos_None_iff map_add_def fun_eq_iff
        split: option.splits dest!: map_of_SomeD)
next
  case (Some i)
  note i = table_pos_SomeD [OF Some]
  have "map_of (h[i := (f, v)]) = (map_of h)(f \<mapsto> v)" if "table_pos (=) fst f h = Some i" for i
    using that by (induction h arbitrary: i) (auto simp: fun_eq_iff split: if_splits nat.splits)
  with Some i show ?thesis by (auto simp: hash_put_def map_insert_or_assign_def)
qed

lemma map_of_set_fields:
  "map_of (set_fields fvs h) = map_of h ++ map_of (rev (map (\<lambda>(i, f, v). (ToString f, ToString v)) (pairs_of 0 fvs)))"
proof -
  have "map_of (fold (\<lambda>(i :: nat, f, v). hash_put (ToString f) (ToString v)) ps h) =
      map_of h ++ map_of (rev (map (\<lambda>(i, f, v). (ToString f, ToString v)) ps))" for ps
    by (induction ps arbitrary: h) (auto simp: map_of_hash_put)
  then show ?thesis by (simp add: set_fields_def)
qed

lemma hash_value_inv:
  assumes "world_all db_ok w" "GetDB w = Some db"
  shows "table_inv (=) fst (hash_value (visible w t k))"
proof -
  let ?v = "visible w t k"
  show ?thesis
  proof (cases "has_kind IsHash ?v")
    case True
    then obtain obj where obj: "?v = Some obj" "IsHash obj" by (auto simp: has_kind_def split: option.splits)
    obtain c sz enc where c: "obj = RobjObj (Robj (Some c) sz OBJ_HASH enc)" "container_ok OBJ_HASH c"
      using obj_ok_robj [OF visible_obj_ok [OF assms obj(1)] obj(2) [unfolded IsHash_def]] by blast
    then show ?thesis using obj by (cases c) (simp_all add: hash_value_def kind_value_def OBJ_HASH_def OBJ_SET_def OBJ_LIST_def)
  next
    case False
    then have "kind_value IsHash (SetObj (HashTable []) FromHash) ?v = SetObj (HashTable []) FromHash"
      by (auto simp: kind_value_def has_kind_def split: option.splits)
    then show ?thesis by (simp add: hash_value_def hk.get_fresh)
  qed
qed

lemma distinct_fields: "table_inv (=) fst h \<longleftrightarrow> distinct (map fst h)"
  by (induction h) (auto simp: list_all_iff image_iff)

lemma erase_hash:
  fixes h :: "(string \<times> string) list"
  assumes "table_inv (=) fst h"
  shows "map_of (fst (table_erase (=) fst f h)) = (map_of h)(f := None)"
    "snd (table_erase (=) fst f h) \<longleftrightarrow> f \<in> dom (map_of h)"
proof -
  let ?h = "fst (table_erase (=) fst f h)"
  have d: "distinct (map fst h)" "distinct (map fst ?h)"
    using assms str_map.table_inv_erase [OF assms, of f] by (simp_all add: distinct_fields)
  have "set ?h = {e \<in> set h. fst e \<noteq> f}"
    using str_map.set_table_erase [OF assms] by auto
  then have "map_of ?h x = Some y \<longleftrightarrow> ((map_of h)(f := None)) x = Some y" for x y
    using map_of_eq_Some_iff [OF d(1)] map_of_eq_Some_iff [OF d(2)] by auto
  then show "map_of ?h = (map_of h)(f := None)" by (metis (no_types) ext option.exhaust)
  show "snd (table_erase (=) fst f h) \<longleftrightarrow> f \<in> dom (map_of h)"
    by (auto simp: table_erase_def table_pos_None_iff dom_map_of_conv_image_fst split: option.splits dest!: table_pos_SomeD)
qed

lemma erase_fields_ok:
  assumes "table_inv (=) fst h"
  shows "map_of (fst (erase_fields names h)) = map_of h |` (- set names)"
    "snd (erase_fields names h) = card (set names \<inter> dom (map_of h))"
proof -
  have "map_of (fst (fold (\<lambda>field (h, deleted). let (h, hit) = table_erase (=) fst field h
            in (h, if hit then deleted + 1 else deleted)) names (h, n))) = map_of h |` (- set names) \<and>
      snd (fold (\<lambda>field (h, deleted). let (h, hit) = table_erase (=) fst field h
            in (h, if hit then deleted + 1 else deleted)) names (h, n)) = n + card (set names \<inter> dom (map_of h))" for n
    using assms
  proof (induction names arbitrary: h n)
    case Nil
    then show ?case by (simp add: restrict_map_def)
  next
    case (Cons f names)
    obtain h1 hit where e: "table_erase (=) fst f h = (h1, hit)" by fastforce
    note E = erase_hash [OF Cons.prems, of f, unfolded e fst_conv snd_conv]
      and I = str_map.table_inv_erase [OF Cons.prems, of f, unfolded e fst_conv]
    have m: "map_of h |` (- set (f # names)) = ((map_of h)(f := None)) |` (- set names)"
      by (auto simp: restrict_map_def fun_eq_iff)
    have c: "card (set (f # names) \<inter> dom (map_of h)) =
        (if f \<in> dom (map_of h) then 1 else 0) + card (set names \<inter> dom ((map_of h)(f := None)))"
    proof (cases "f \<in> dom (map_of h)")
      case True
      then have "set (f # names) \<inter> dom (map_of h) = insert f (set names \<inter> dom ((map_of h)(f := None)))" by auto
      with True show ?thesis by simp
    next
      case False
      then have "set (f # names) \<inter> dom (map_of h) = set names \<inter> dom ((map_of h)(f := None))" by auto
      with False show ?thesis by simp
    qed
    show ?case
      using Cons.IH [OF I, of "if hit then n + 1 else n"] E(2) unfolding m c E(1) [symmetric]
      by (cases hit) (simp_all add: e)
  qed
  from this [of 0] show "map_of (fst (erase_fields names h)) = map_of h |` (- set names)"
    "snd (erase_fields names h) = card (set names \<inter> dom (map_of h))" by (simp_all add: erase_fields_def)
qed

lemma hash_of_put: "hash_of (Some (SetObj (HashTable h) (kind_value IsHash (SetObj (HashTable []) FromHash) v))) = map_of h"
  using hk.kind_value_kind [of v] hk.kind_put [of h] hk.get_put [of "kind_value IsHash (SetObj (HashTable []) FromHash) v" h]
  by (simp add: hash_of_def hash_value_def kind_value_def [of _ _ "Some _"])

lemma HSet_map:
  assumes w: "world_all db_ok w" "GetDB w = Some db" and k: "NanoObj_eq k k"
    and t: "clk e 0 \<le> clk e 1" "clk e 1 \<le> clk e 2" and n: "fvs \<noteq> []" "even (length fvs)"
  shows "HSet e (c # k # fvs) w = Inl BadAlloc \<or> (\<exists>obj w'. HSet e (c # k # fvs) w = Inr (OkResponse, w') \<and>
    stored_as IsHash w (clk e 0) (clk e 2) k obj w' \<and>
    hash_of (Some obj) = hash_of (visible w (clk e 0) k) ++ map_of (rev (map (\<lambda>(i, f, v). (ToString f, ToString v)) (pairs_of 0 fvs))))"
proof -
  have i: "world_inv w" using w(1) by (simp add: world_in_def)
  obtain h where h: "GetHashObj (kind_value IsHash (SetObj (HashTable []) FromHash) (visible w (clk e 0) k)) = Some h"
    by (rule hk.visible_get [OF w])
  have l: "\<not> length (c # k # fvs) < 4" "length (c # k # fvs) mod 2 = 0"
    using n by (cases fvs; cases "tl fvs"; auto)+
  have b: "hset_body e (c # k # fvs) = (\<lambda>db. bind_r (open_as IsHash (SetObj (HashTable []) FromHash) (clk e) k db)
      (\<lambda>(obj, db). bind_r (deref (GetHashObj obj)) (\<lambda>h. Inr (OkResponse, Database_Poke k (SetObj (HashTable (set_fields fvs h)) obj) db))))"
    by (simp add: hset_body_def poke_hash_def fun_eq_iff)
  have "HSet e (c # k # fvs) w = with_db (\<lambda>db. bind_r (open_as IsHash (SetObj (HashTable []) FromHash) (clk e) k db)
      (\<lambda>(obj, db). bind_r (deref (GetHashObj obj)) (\<lambda>h. Inr (OkResponse, Database_Poke k (SetObj (HashTable (set_fields fvs h)) obj) db)))) w"
    using l unfolding HSet_def b by (simp only: if_False simp_thms)
  from hk.open_world [OF i w(2) k t h this [symmetric]]
  show ?thesis
    using h map_of_set_fields [of fvs h] hash_of_put [of "set_fields fvs h" "visible w (clk e 0) k"]
    by (auto simp: hash_of_def [of "visible _ _ _"] hash_value_def)
qed

lemma HGet_map:
  assumes "world_all db_ok w" "GetDB w = Some db"
  shows "\<exists>w'. HGet e [c, k, f] w = Inr (bulk_or_null (hash_of (visible w (clk e 0) k) (ToString f)), w') \<and>
    unchanged w (clk e 0) w'"
proof -
  let ?f = "\<lambda>h. bulk_or_null (hash_find (ToString f) h)"
  have "HGet e [c, k, f] w = with_db (lookup_as IsHash (clk e 0) k (?f []) (\<lambda>obj db.
      bind_r (deref (GetHashObj obj)) (\<lambda>h. Inr (?f h, db)))) w"
    by (simp add: HGet_def read_hash_def hash_find_def bulk_or_null_def)
  with hk.read_world [OF assms, of "clk e 0" k ?f] show ?thesis
    by (auto simp: hash_find_map_of hash_of_def hash_value_def)
qed

lemma HLen_map:
  assumes "world_all db_ok w" "GetDB w = Some db"
  shows "\<exists>w'. HLen e [c, k] w = Inr (MakeInteger (int (card (dom (hash_of (visible w (clk e 0) k))))), w') \<and>
    unchanged w (clk e 0) w'"
proof -
  let ?f = "\<lambda>h :: (string \<times> string) list. MakeInteger (int (length h))"
  have "HLen e [c, k] w = with_db (lookup_as IsHash (clk e 0) k (?f []) (\<lambda>obj db.
      bind_r (deref (GetHashObj obj)) (\<lambda>h. Inr (?f h, db)))) w"
    by (simp add: HLen_def read_hash_def)
  moreover have "card (dom (hash_of (visible w (clk e 0) k))) = length (hash_value (visible w (clk e 0) k))"
    using hash_value_inv [OF assms, of "clk e 0" k] distinct_card
    by (fastforce simp: hash_of_def dom_map_of_conv_image_fst distinct_fields)
  ultimately show ?thesis
    using hk.read_world [OF assms, of "clk e 0" k ?f] by (auto simp: hash_value_def)
qed

lemma HDel_map:
  fixes k :: nano_obj and e :: env
  assumes w: "world_all db_ok w" "GetDB w = Some db" and n: "fs \<noteq> []"
  defines "m \<equiv> hash_of (visible w (clk e 0) k)"
  shows "\<exists>w'. HDel e (c # k # fs) w = Inr (MakeInteger (int (card (ToString ` set fs \<inter> dom m))), w') \<and>
    (if has_kind IsHash (visible w (clk e 0) k)
     then \<exists>obj. stored_as IsHash w (clk e 0) (clk e 0) k obj w' \<and> hash_of (Some obj) = m |` (- ToString ` set fs)
     else unchanged w (clk e 0) w')"
proof -
  let ?v = "visible w (clk e 0) k" and ?ns = "map ToString fs"
  let ?g = "\<lambda>h. MakeInteger (int (snd (erase_fields ?ns h)))" and ?f = "\<lambda>h. fst (erase_fields ?ns h)"
  have b: "(\<lambda>obj db. bind_r (deref (GetHashObj obj)) (\<lambda>hash_table.
          let (h, deleted) = erase_fields (map ToString (drop 2 (c # k # fs))) hash_table
          in Inr (MakeInteger (int deleted), poke_hash ((c # k # fs) ! 1) obj h db))) =
      (\<lambda>obj db. bind_r (deref (GetHashObj obj)) (\<lambda>h. Inr (?g h, Database_Poke k (SetObj (HashTable (?f h)) obj) db)))"
    by (simp add: fun_eq_iff poke_hash_def case_prod_unfold Let_def)
  have "HDel e (c # k # fs) w = with_db (lookup_as IsHash (clk e 0) k (MakeInteger 0) (\<lambda>obj db.
      bind_r (deref (GetHashObj obj)) (\<lambda>h. Inr (?g h, Database_Poke k (SetObj (HashTable (?f h)) obj) db)))) w"
    using n unfolding HDel_def b by (cases fs) simp_all
  moreover have "m = Map.empty" if "\<not> has_kind IsHash ?v"
    using that hk.get_fresh by (auto simp: m_def hash_of_def hash_value_def kind_value_def has_kind_def split: option.splits)
  moreover have "hash_of (Some (SetObj (HashTable (?f (hash_value ?v))) (kind_value IsHash (SetObj (HashTable []) FromHash) ?v))) =
      m |` (- ToString ` set fs)" "snd (erase_fields ?ns (hash_value ?v)) = card (ToString ` set fs \<inter> dom m)"
    using erase_fields_ok [OF hash_value_inv [OF w], of ?ns] by (simp_all only: hash_of_put m_def hash_of_def [of "visible _ _ _"] set_map)
  ultimately show ?thesis
    using hk.edit_world [OF w, of "clk e 0" k "MakeInteger 0" ?g ?f, folded hash_value_def]
    by (cases "has_kind IsHash ?v") auto
qed

section \<open>Properties of the hash commands\<close>



lemma random_fields_mset:
  "mset (map fst h) = mset (fst (random_fields rnd n h)) + mset (map fst (snd (random_fields rnd n h)))"
  "length (fst (random_fields rnd n h)) = min n (length h)"
proof (induction rnd n h rule: random_fields.induct)
  case (3 rnd n x h)
  let ?h = "x # h" and ?o = "rnd 0 mod length (x # h)"
  let ?r = "random_fields (\<lambda>i. rnd (Suc i)) n (table_erase_at ?o ?h)"
  have o: "?o < length ?h" by simp
  have r: "random_fields rnd (Suc n) ?h = (fst (?h ! ?o) # fst ?r, snd ?r)"
    by (simp add: Let_def case_prod_unfold)
  have "mset (map fst ?h) = add_mset (fst (?h ! ?o)) (mset (map fst (table_erase_at ?o ?h)))"
    using nth_mem [OF o] by (simp only: mset_map mset_table_erase_at [OF o] image_mset_Diff
        mset_subset_eq_single [OF nth_mem_mset [OF o]] image_mset_single insert_DiffM)
      (metis image_eqI in_image_mset insert_DiffM set_image_mset set_mset_mset)
  with 3(1) [OF refl] show "mset (map fst ?h) = mset (fst (random_fields rnd (Suc n) ?h)) + mset (map fst (snd (random_fields rnd (Suc n) ?h)))"
    unfolding r by simp
  have "length (table_erase_at ?o ?h) = length h" by (simp add: length_table_erase_at)
  with 3(2) [OF refl] show "length (fst (random_fields rnd (Suc n) ?h)) = min (Suc n) (length ?h)"
    unfolding r by simp
qed simp_all

lemma hash_value_kind:
  assumes "has_kind IsHash v" "\<And>obj. v = Some obj \<Longrightarrow> obj_ok obj"
  shows "GetHashObj (the v) = Some (hash_value v)" "kind_value IsHash (SetObj (HashTable []) FromHash) v = the v"
  using assms hk.get_kind by (auto simp: hash_value_def kind_value_def has_kind_def split: option.splits)

text \<open>
  C27: HRANDFIELD with a count, registered as a read-only command, removes the fields it
  reports from the hash; and it announces an array of \<open>count\<close> elements but sends at most as many
  as there are fields.
\<close>

theorem HRandField_erases:
  assumes "world_all db_ok w" "GetDB w = Some db" "has_kind IsHash (visible w (clk e 0) k)"
    "hash_of (visible w (clk e 0) k) = m" "m \<noteq> Map.empty" "ParseLongLong (ToString a) = Some cnt" "0 \<le> cnt"
  shows "\<exists>out obj w'. HRandField e [c, k, a] w = Inr (MakeArray cnt @ concat (map MakeBulkString out), w') \<and>
    stored_as IsHash w (clk e 0) (clk e 0) k obj w' \<and> dom (hash_of (Some obj)) = dom m - set out \<and>
    set out \<subseteq> dom m \<and> length out = min (nat cnt) (card (dom m))"
proof -
  let ?v = "visible w (clk e 0) k" and ?h = "hash_value (visible w (clk e 0) k)"
  have i: "world_inv w" using assms(1) by (simp add: world_in_def)
  note H = hash_value_kind [OF assms(3) visible_obj_ok [OF assms(1,2)]]
  define h' where "h' = snd (random_fields (rand e) (nat cnt) ?h)"
  define out where "out = fst (random_fields (rand e) (nat cnt) ?h)"
  note R = random_fields_mset [where h = ?h and rnd = "rand e" and n = "nat cnt", folded h'_def out_def]
  have d: "distinct (map fst ?h)" using hash_value_inv [OF assms(1,2)] by (simp add: distinct_fields)
  have m: "m = map_of ?h" using assms(4) by (simp add: hash_of_def)
  have dd: "distinct out \<and> distinct (map fst h') \<and> set out \<inter> set (map fst h') = {}"
    using d R(1) by (metis distinct_append mset_append mset_eq_imp_distinct_iff)
  have u: "set (map fst ?h) = set out \<union> set (map fst h')" using R(1) by (metis mset_append mset_eq_setD set_append)
  let ?p = "PruneExpiredInDB (current_db db) k (clk e 0) db"
  let ?w = "put_db (Database_Poke k (SetObj (HashTable h') (the ?v)) ?p) w"
  have ne: "?h \<noteq> []" using assms(5) m by auto
  have run: "HRandField e [c, k, a] w = Inr (MakeArray cnt @ concat (map MakeBulkString out), ?w)"
    using ne assms(3,6,7) H(1)
    by (simp add: HRandField_def lookup_world [OF i assms(2)] Let_def deref_def case_prod_unfold poke_hash_def h'_def out_def)
  have "hash_of (Some (SetObj (HashTable h') (the ?v))) = map_of h'" using hash_of_put [of h' ?v] H(2) by simp
  moreover have "stored_as IsHash w (clk e 0) (clk e 0) k (SetObj (HashTable h') (the ?v)) ?w"
    by (rule poke_pruned [OF i assms(2,3) order_refl])
  moreover have "dom (map_of h') = dom m - set out" "set out \<subseteq> dom m"
    using dd u by (auto simp: m dom_map_of_conv_image_fst)
  moreover have "length out = min (nat cnt) (card (dom m))"
    using R(2) distinct_card [OF d] by (simp add: m dom_map_of_conv_image_fst)
  ultimately show ?thesis using run by metis
qed

theorem HRandField_erases_witness:
  "\<exists>db out obj w'. db_get db 0 (FromKey ''h'') = Some (RobjObj (Robj (Some (HashTable [(''f'', ''1'')])) 0 OBJ_HASH OBJ_ENCODING_HASHTABLE)) \<and>
     HRandField (env_at 5) [FromKey ''HRANDFIELD'', FromKey ''h'', IntObj 2] (legacy_world db) =
       Inr (MakeArray 2 @ concat (map MakeBulkString out), w') \<and> length out = 1 \<and> set out = {''f''}"
proof -
  let ?o = "RobjObj (Robj (Some (HashTable [(''f'', ''1'')])) 0 OBJ_HASH OBJ_ENCODING_HASHTABLE)" and ?k = "FromKey ''h''"
  obtain db where db: "small (Suc 0) db" "db_ok db" "current_db db = 0" "db_get db 0 ?k = Some ?o"
    "world_all db_ok (legacy_world db)" "GetDB (legacy_world db) = Some db" "\<And>t. visible (legacy_world db) t ?k = Some ?o"
    by (rule one_object [of ?o "''h''"]) simp_all
  have k: "has_kind IsHash (visible (legacy_world db) (clk (env_at 5) 0) ?k)" by (simp add: db(7) has_kind_def IsHash_def)
  have m: "hash_of (visible (legacy_world db) (clk (env_at 5) 0) ?k) = [''f'' \<mapsto> ''1'']"
    by (simp add: db(7) hash_of_def hash_value_def kind_value_def IsHash_def)
  have p: "ParseLongLong (ToString (IntObj 2)) = Some 2"
    by (simp add: ParseLongLong_to_string in_int64_def INT64_MAX_def INT64_MIN_def)
  obtain out obj w' where o: "HRandField (env_at 5) [FromKey ''HRANDFIELD'', ?k, IntObj 2] (legacy_world db) =
       Inr (MakeArray 2 @ concat (map MakeBulkString out), w')" "set out \<subseteq> {''f''}" "length out = 1"
    using HRandField_erases [OF db(5,6) k m _ p, of "FromKey ''HRANDFIELD''"] by auto
  then have "set out = {''f''}" by (cases out) auto
  with o db(4) show ?thesis by blast
qed

end
