(* ===== verification/Set_Family.thy ===== *)
theory Set_Family
  imports Keyed_Containers
begin

text \<open>
  The set commands of \<open>src/command/set_family.cc\<close>.  A set is the dense vector of an
  \<open>unordered_dense::set\<close> of strings.  Every call of \<open>db->Find\<close> and \<open>db->Del\<close> has its own
  reading of the clock.
\<close>

section \<open>Handlers\<close>

definition set_has :: "string \<Rightarrow> string list \<Rightarrow> bool" where
  "set_has m s \<longleftrightarrow> table_find (=) id m s \<noteq> None"

definition set_insert :: "string \<Rightarrow> string list \<Rightarrow> string list \<times> bool" where
  "set_insert m s = table_insert (=) id m s"

definition set_erase :: "string \<Rightarrow> string list \<Rightarrow> string list \<times> bool" where
  "set_erase m s = table_erase (=) id m s"

definition poke_set :: "nano_obj \<Rightarrow> nano_obj \<Rightarrow> string list \<Rightarrow> database \<Rightarrow> database" where
  "poke_set key obj s db = Database_Poke key (SetObj (SetTable s) obj) db"

text \<open>Writing the set back, and deleting the key when the set has become empty.\<close>

definition poke_or_del :: "int \<Rightarrow> nano_obj \<Rightarrow> nano_obj \<Rightarrow> string list \<Rightarrow> database \<Rightarrow> database" where
  "poke_or_del now key obj s db =
     (let db = poke_set key obj s db in if s = [] then fst (Database_Del now key db) else db)"

text \<open>Applying an operation to each member and counting the successes.\<close>

definition count_members :: "(string \<Rightarrow> string list \<Rightarrow> string list \<times> bool) \<Rightarrow> string list \<Rightarrow> string list \<Rightarrow> string list \<times> nat" where
  "count_members op ms s =
     fold (\<lambda>m (s, n). let (s, hit) = op m s in (s, if hit then n + 1 else n)) ms (s, 0)"

definition AllKeysSameShard :: "env \<Rightarrow> nano_obj list \<Rightarrow> nat \<Rightarrow> world \<Rightarrow> bool" where
  "AllKeysSameShard e args first_key_index w =
     (if local_only w then True
      else if length args \<le> first_key_index then True
      else
        let shard0 = Shard e (ToString (args ! first_key_index)) (shard_count (ctx w))
        in list_all (\<lambda>a. Shard e (ToString a) (shard_count (ctx w)) = shard0) (drop (first_key_index + 1) args))"

definition cross_slot :: string where
  "cross_slot = MakeError (''CROSSSLOT Keys in request don'' @ [CHR 0x27] @ ''t hash to the same slot'')"

definition SAdd :: handler where
  "SAdd e args w =
     (if length args < 3 then Inr (arity_error ''SADD'', w)
      else with_db (\<lambda>db.
        bind_r (open_as IsSet (SetObj (SetTable []) FromSet) (clk e) (args ! 1) db) (\<lambda>(set_obj, db).
        bind_r (deref (GetSetObj set_obj)) (\<lambda>s.
          let (s, added) = count_members set_insert (map ToString (drop 2 args)) s
          in Inr (MakeInteger (int added), poke_set (args ! 1) set_obj s db)))) w)"

definition SRem :: handler where
  "SRem e args w =
     (if length args < 3 then Inr (arity_error ''SREM'', w)
      else with_db (lookup_as IsSet (clk e 0) (args ! 1) (MakeInteger 0) (\<lambda>obj db.
        bind_r (deref (GetSetObj obj)) (\<lambda>s.
          let (s, removed) = count_members set_erase (map ToString (drop 2 args)) s
          in Inr (MakeInteger (int removed), poke_or_del (clk e 1) (args ! 1) obj s db)))) w)"

text \<open>The loop of SPOP: \<open>erase(it)\<close> at the first element, which the last one then replaces.\<close>

fun pop_members :: "nat \<Rightarrow> string list \<Rightarrow> string list \<times> string list" where
  "pop_members n [] = ([], [])"
| "pop_members 0 s = ([], s)"
| "pop_members (Suc n) s =
     (let (out, s') = pop_members n (table_erase_at 0 s) in (s ! 0 # out, s'))"

definition SPop :: handler where
  "SPop e args w =
     (if length args < 2 \<or> length args > 3 then Inr (arity_error ''SPOP'', w)
      else with_db (lookup_as IsSet (clk e 0) (args ! 1) MakeNullBulkString (\<lambda>obj db.
        bind_r (deref (GetSetObj obj)) (\<lambda>s.
          if s = [] then Inr (MakeNullBulkString, db)
          else
            let pop = (\<lambda>cnt.
                  let (out, s) = pop_members (nat cnt) s
                  in Inr (MakeArray cnt @ concat (map MakeBulkString out), poke_or_del (clk e 1) (args ! 1) obj s db))
            in if length args = 3 then
                 (case ParseLongLong (ToString (args ! 2)) of
                    None \<Rightarrow> Inr (MakeError ''count is not a valid positive integer'', db)
                  | Some cnt \<Rightarrow>
                      if cnt < 0 then Inr (MakeError ''count is not a valid positive integer'', db) else pop cnt)
               else pop 1))) w)"

definition read_set :: "env \<Rightarrow> nano_obj \<Rightarrow> string \<Rightarrow> (string list \<Rightarrow> string) \<Rightarrow> database \<Rightarrow> (string \<times> database) result" where
  "read_set e key absent f =
     lookup_as IsSet (clk e 0) key absent (\<lambda>obj db.
       bind_r (deref (GetSetObj obj)) (\<lambda>s. Inr (f s, db)))"

definition SMembers :: handler where
  "SMembers e args w =
     (if length args \<noteq> 2 then Inr (arity_error ''SMEMBERS'', w)
      else with_db (read_set e (args ! 1) (MakeArray 0) bulk_array) w)"

definition SCard :: handler where
  "SCard e args w =
     (if length args \<noteq> 2 then Inr (arity_error ''SCARD'', w)
      else with_db (read_set e (args ! 1) (MakeInteger 0) (\<lambda>s. MakeInteger (int (length s)))) w)"

definition SIsMember :: handler where
  "SIsMember e args w =
     (if length args \<noteq> 3 then Inr (arity_error ''SISMEMBER'', w)
      else with_db (read_set e (args ! 1) (MakeInteger 0)
             (\<lambda>s. MakeInteger (if set_has (ToString (args ! 2)) s then 1 else 0))) w)"

definition SMIsMember :: handler where
  "SMIsMember e args w =
     (if length args < 3 then Inr (arity_error ''SMISMEMBER'', w)
      else
        let result = MakeArray (int (length args - 2))
        in with_db (read_set e (args ! 1) (result @ concat (map (\<lambda>_. MakeInteger 0) (drop 2 args)))
             (\<lambda>s. result @ concat (map (\<lambda>a. MakeInteger (if set_has (ToString a) s then 1 else 0)) (drop 2 args)))) w)"

text \<open>
  Collecting the sets of the keys; SINTER stops at the first key that holds none.  The pointers
  stay valid: a later lookup removes at most its own key, and then no pointer is used.  They are
  dereferenced together here; none of them is null for well-formed objects.
\<close>

fun find_sets :: "env \<Rightarrow> (nat \<times> nano_obj) list \<Rightarrow> database \<Rightarrow> database \<times> nano_obj list option" where
  "find_sets e [] db = (db, Some [])"
| "find_sets e ((i, key) # ks) db =
     (let (db, set_obj) = find_as IsSet (clk e i) key db
      in case set_obj of
           None \<Rightarrow> (db, None)
         | Some obj \<Rightarrow> let (db, objs) = find_sets e ks db in (db, map_option ((#) obj) objs))"

fun deref_all :: "nano_obj list \<Rightarrow> string list list result" where
  "deref_all [] = Inr []"
| "deref_all (obj # objs) = bind_r (deref (GetSetObj obj)) (\<lambda>s. bind_r (deref_all objs) (\<lambda>ss. Inr (s # ss)))"

definition intersect_step :: "string list \<Rightarrow> string list \<Rightarrow> string list" where
  "intersect_step s acc = fold (\<lambda>elem temp. if set_has elem s then fst (set_insert elem temp) else temp) acc []"

definition SInter :: handler where
  "SInter e args w =
     (if length args < 2 then Inr (arity_error ''SINTER'', w)
      else if \<not> AllKeysSameShard e args 1 w then Inr (cross_slot, w)
      else with_db (\<lambda>db.
        let (db, objs) = find_sets e (enumerate 1 (tl args)) db
        in case objs of
             None \<Rightarrow> Inr (MakeArray 0, db)
           | Some objs \<Rightarrow> bind_r (deref_all objs) (\<lambda>sets.
               Inr (bulk_array (fold intersect_step (tl sets) (hd sets)), db))) w)"

definition union_step :: "env \<Rightarrow> nat \<times> nano_obj \<Rightarrow> string list \<times> database \<Rightarrow> (string list \<times> database) result" where
  "union_step e p st =
     (let (i, key) = p; (acc, db) = st; (db, set_obj) = find_as IsSet (clk e i) key db
      in case set_obj of
           None \<Rightarrow> Inr (acc, db)
         | Some obj \<Rightarrow> bind_r (deref (GetSetObj obj)) (\<lambda>s. Inr (fold (\<lambda>m acc. fst (set_insert m acc)) s acc, db)))"

definition SUnion :: handler where
  "SUnion e args w =
     (if length args < 2 then Inr (arity_error ''SUNION'', w)
      else if \<not> AllKeysSameShard e args 1 w then Inr (cross_slot, w)
      else with_db (\<lambda>db.
        bind_r (fold_r (union_step e) (enumerate 1 (tl args)) ([], db)) (\<lambda>(union_set, db).
          Inr (bulk_array union_set, db))) w)"

definition diff_step :: "env \<Rightarrow> nat \<times> nano_obj \<Rightarrow> string list \<times> database \<Rightarrow> (string list \<times> database) result" where
  "diff_step e p st =
     (let (i, key) = p; (acc, db) = st; (db, set_obj) = find_as IsSet (clk e i) key db
      in case set_obj of
           None \<Rightarrow> Inr (acc, db)
         | Some obj \<Rightarrow> bind_r (deref (GetSetObj obj)) (\<lambda>s. Inr (fold (\<lambda>m acc. fst (set_erase m acc)) s acc, db)))"

definition SDiff :: handler where
  "SDiff e args w =
     (if length args < 2 then Inr (arity_error ''SDIFF'', w)
      else with_db (lookup_as IsSet (clk e 1) (args ! 1) (MakeArray 0) (\<lambda>obj db.
        bind_r (deref (GetSetObj obj)) (\<lambda>diff_set.
          if \<not> AllKeysSameShard e args 1 w then Inr (cross_slot, db)
          else bind_r (fold_r (diff_step e) (enumerate 2 (drop 2 args)) (diff_set, db)) (\<lambda>(diff_set, db).
            Inr (bulk_array diff_set, db))))) w)"

definition SScan :: handler where
  "SScan e args w =
     (if length args < 3 then Inr (arity_error ''SSCAN'', w)
      else with_db (lookup_as IsSet (clk e 0) (args ! 1) wrong_type (\<lambda>obj db.
        (case stoull (ToString (args ! 2)) of
           None \<Rightarrow> Inr (MakeError ''invalid cursor'', db)
         | Some cursor \<Rightarrow>
             if cursor \<noteq> 0 then Inr (MakeArray 2 @ MakeBulkString ''0'' @ MakeArray 0, db)
             else bind_r (deref (GetSetObj obj)) (\<lambda>s.
               Inr (MakeArray 2 @ MakeBulkString ''0'' @ bulk_array s, db))))) w)"

text \<open>The loop of SRANDMEMBER, on a copy of the members.\<close>

fun random_members :: "(nat \<Rightarrow> nat) \<Rightarrow> nat \<Rightarrow> string list \<Rightarrow> string list" where
  "random_members rnd n [] = []"
| "random_members rnd 0 ms = []"
| "random_members rnd (Suc n) ms =
     (let offset = rnd 0 mod length ms
      in ms ! offset # random_members (\<lambda>i. rnd (Suc i)) n (take offset ms @ drop (Suc offset) ms))"

definition SRandMember :: handler where
  "SRandMember e args w =
     (if length args < 2 \<or> length args > 3 then Inr (arity_error ''SRANDMEMBER'', w)
      else with_db (lookup_as IsSet (clk e 0) (args ! 1) MakeNullBulkString (\<lambda>obj db.
        bind_r (deref (GetSetObj obj)) (\<lambda>s.
          if s = [] then Inr (MakeNullBulkString, db)
          else if length args = 2 then Inr (MakeBulkString (s ! (rand e 0 mod length s)), db)
          else case ParseLongLong (ToString (args ! 2)) of
              None \<Rightarrow> Inr (MakeError ''count is not a valid integer'', db)
            | Some cnt \<Rightarrow>
                Inr (MakeArray cnt @ concat (map MakeBulkString (random_members (rand e) (nat cnt) s)), db)))) w)"

definition SMove :: handler where
  "SMove e args w =
     (if length args \<noteq> 4 then Inr (arity_error ''SMOVE'', w)
      else if \<not> AllKeysSameShard e args 1 w then Inr (cross_slot, touch_db w)
      else
        let member = ToString (args ! 3)
        in with_db (lookup_as IsSet (clk e 0) (args ! 1) (MakeInteger 0) (\<lambda>src db.
             bind_r (deref (GetSetObj src)) (\<lambda>src_set.
               case table_pos (=) id member src_set of
                 None \<Rightarrow> Inr (MakeInteger 0, db)
               | Some i \<Rightarrow>
                   let db = poke_or_del (clk e 1) (args ! 1) src (table_erase_at i src_set) db
                   in bind_r (open_as IsSet (SetObj (SetTable []) FromSet) (\<lambda>i. clk e (i + 2)) (args ! 2) db) (\<lambda>(dest_obj, db).
                      bind_r (deref (GetSetObj dest_obj)) (\<lambda>dest_set.
                        Inr (MakeInteger 1, poke_set (args ! 2) dest_obj (fst (set_insert member dest_set)) db)))))) w)"

section \<open>The contract of the databases\<close>

lemma count_members_inv:
  assumes "\<And>m s. table_inv (=) id s \<Longrightarrow> table_inv (=) id (fst (op m s))" "table_inv (=) id s"
  shows "table_inv (=) id (fst (count_members op ms s))"
  unfolding count_members_def
  by (rule fold_inv [where P = "\<lambda>st. table_inv (=) id (fst st)"]) (auto simp: Let_def case_prod_unfold assms)

lemma set_insert_inv: "table_inv (=) id s \<Longrightarrow> table_inv (=) id (fst (set_insert m s))"
  by (simp add: set_insert_def str_set.table_inv_insert)

lemma set_erase_inv: "table_inv (=) id s \<Longrightarrow> table_inv (=) id (fst (set_erase m s))"
  by (simp add: set_erase_def str_set.table_inv_erase)

lemma erase_at_sub: "i < length s \<Longrightarrow> mset (table_erase_at i s) \<subseteq># mset s"
  by (simp add: mset_table_erase_at)

lemma erase_at_inv: "i < length s \<Longrightarrow> table_inv (=) id s \<Longrightarrow> table_inv (=) id (table_erase_at i (s :: string list))"
  by (rule str_set.table_inv_subset [OF _ erase_at_sub])

lemma pop_members_inv: "table_inv (=) id s \<Longrightarrow> table_inv (=) id (snd (pop_members n s))"
proof (induction n s rule: pop_members.induct)
  case (3 n m s)
  have "table_inv (=) id (table_erase_at 0 (m # s))" by (rule erase_at_inv [OF _ 3(2)]) simp
  from 3(1) [OF this] show ?case by (simp only: pop_members.simps Let_def case_prod_unfold snd_conv)
qed simp_all

context db_contract
begin

lemma poke_set_P:
  assumes "P db" "V obj" "GetSetObj obj = Some s" "table_inv (=) id s \<Longrightarrow> table_inv (=) id s'"
  shows "P (poke_set key obj s' db)"
  unfolding poke_set_def by (rule P_Poke [OF assms(1) V_put_set [OF assms(2-4)]])

lemma poke_or_del_P:
  assumes "P db" "V obj" "GetSetObj obj = Some s" "table_inv (=) id s \<Longrightarrow> table_inv (=) id s'"
  shows "P (poke_or_del now key obj s' db)"
  using P_Del [OF poke_set_P [OF assms]] poke_set_P [OF assms]
  unfolding poke_or_del_def Let_def by (cases "s' = []") simp_all

lemma SAdd_keeps: "keeps W P K SAdd"
proof (rule keepsI)
  fix e args w r w'
  assume a: "list_all K args" and w: "world_in W P w" and r: "SAdd e args w = Inr (r, w')"
  have body: "P db'"
    if "P db" "open_as IsSet (SetObj (SetTable []) FromSet) (clk e) (args ! 1) db = Inr (obj, d)" "2 < length args"
      "GetSetObj obj = Some s" "db' = poke_set (args ! 1) obj (fst (count_members set_insert ms s)) d" for db obj d s ms db'
    using open_as_P [OF that(1) arg_K [OF a] V_set that(2)] that(3-5)
    by (auto intro!: poke_set_P count_members_inv set_insert_inv)
  show "world_in W P w'"
    using r w body by (fastforce simp: SAdd_def bind_r_Inr_iff Let_def case_prod_unfold split: if_splits elim!: with_db_all [rotated])
qed

lemma SRem_keeps: "keeps W P K SRem"
  by (rule keepsI) (auto simp: SRem_def bind_r_Inr_iff Let_def case_prod_unfold split: if_splits
      elim!: with_db_all [rotated] lookup_as_P [rotated] intro!: poke_or_del_P count_members_inv set_erase_inv)

lemma SPop_keeps: "keeps W P K SPop"
  by (rule keepsI) (auto simp: SPop_def bind_r_Inr_iff Let_def case_prod_unfold split: if_split_asm option.split_asm
      elim!: with_db_all [rotated] lookup_as_P [rotated] intro!: poke_or_del_P pop_members_inv)

lemma read_set_P: "P db \<Longrightarrow> read_set e key absent f db = Inr (r, db') \<Longrightarrow> P db'"
  by (auto simp: read_set_def bind_r_Inr_iff elim!: lookup_as_P [rotated])

lemma SMembers_keeps: "keeps W P K SMembers" and SCard_keeps: "keeps W P K SCard"
  and SIsMember_keeps: "keeps W P K SIsMember" and SMIsMember_keeps: "keeps W P K SMIsMember"
  by (rule keepsI; auto simp: SMembers_def SCard_def SIsMember_def SMIsMember_def Let_def
      split: if_splits elim!: with_db_all [rotated] read_set_P [rotated])+

lemma SScan_keeps: "keeps W P K SScan"
  by (rule keepsI) (auto simp: SScan_def bind_r_Inr_iff split: if_split_asm option.split_asm
      elim!: with_db_all [rotated] lookup_as_P [rotated])

lemma SRandMember_keeps: "keeps W P K SRandMember"
  by (rule keepsI) (auto simp: SRandMember_def bind_r_Inr_iff split: if_split_asm option.split_asm
      elim!: with_db_all [rotated] lookup_as_P [rotated])

lemma find_sets_P: "P db \<Longrightarrow> P (fst (find_sets e ks db))"
proof (induction e ks db rule: find_sets.induct)
  case (2 e i key ks db)
  obtain d found where f: "find_as IsSet (clk e i) key db = (d, found)" by fastforce
  have d: "P d" by (rule find_as_P(1) [OF 2(2) f])
  show ?case
  proof (cases found)
    case (Some obj)
    from 2(1) [OF f [symmetric] refl Some d] show ?thesis using f Some by (simp add: case_prod_unfold Let_def)
  qed (use d f in simp)
qed simp

lemma SInter_keeps: "keeps W P K SInter"
  using find_sets_P
  by (intro keepsI) (auto simp: SInter_def bind_r_Inr_iff Let_def case_prod_unfold split: if_split_asm option.split_asm
      elim!: with_db_all [rotated])

lemma set_step_P:
  assumes "P (snd st)" "f = union_step \<or> f = diff_step" "f e p st = Inr st'"
  shows "P (snd st')"
proof -
  obtain d found where d: "find_as IsSet (clk e (fst p)) (snd p) (snd st) = (d, found)" by fastforce
  from find_as_P(1) [OF assms(1) d] assms(2,3) d show ?thesis
    by (auto simp: union_step_def diff_step_def bind_r_Inr_iff Let_def case_prod_unfold split: option.splits)
qed

lemma set_steps_P:
  assumes "P db" "f = union_step \<or> f = diff_step" "fold_r (f e) ps (acc, db) = Inr (acc', db')"
  shows "P db'"
proof -
  have "P (snd (acc', db'))"
    using assms(3) by (rule fold_r_inv) (use assms(1) set_step_P [OF _ assms(2)] in auto)
  then show ?thesis by simp
qed

lemma SUnion_keeps: "keeps W P K SUnion"
  by (rule keepsI) (auto simp: SUnion_def bind_r_Inr_iff split: if_splits elim!: with_db_all [rotated]
      dest: set_steps_P [where f = union_step, simplified])

lemma SDiff_keeps: "keeps W P K SDiff"
  by (rule keepsI) (auto simp: SDiff_def bind_r_Inr_iff split: if_splits elim!: with_db_all [rotated] lookup_as_P [rotated]
      dest: set_steps_P [where f = diff_step, simplified])

lemma SMove_keeps: "keeps W P K SMove"
proof (rule keepsI)
  fix e args w r w'
  assume a: "list_all K args" and w: "world_in W P w" and r: "SMove e args w = Inr (r, w')"
  have body: "P db'"
    if o: "P d" "open_as IsSet (SetObj (SetTable []) FromSet) now (args ! 2) d = Inr (obj, d')" "length args = 4"
      "GetSetObj obj = Some s" "db' = poke_set (args ! 2) obj (fst (set_insert m s)) d'" for d now obj d' s m db'
    using open_as_P [OF o(1) arg_K [OF a] V_set o(2)] o(3-5) by (auto intro!: poke_set_P set_insert_inv)
  have src: "P (poke_or_del now key obj (table_erase_at i s) d)"
    if "P d" "V obj" "GetSetObj obj = Some s" "table_pos (=) id m s = Some i" for d obj s i m now key
    using that table_pos_SomeD [OF that(4)] by (auto intro!: poke_or_del_P erase_at_inv)
  have lookup: "P db'"
    if "P d" "V src" "bind_r (deref (GetSetObj src)) (\<lambda>src_set. case table_pos (=) id m src_set of
           None \<Rightarrow> Inr (MakeInteger 0, d)
         | Some i \<Rightarrow> let db = poke_or_del now (args ! 1) src (table_erase_at i src_set) d
             in bind_r (open_as IsSet (SetObj (SetTable []) FromSet) now' (args ! 2) db) (\<lambda>(dest_obj, db).
                bind_r (deref (GetSetObj dest_obj)) (\<lambda>dest_set.
                  Inr (MakeInteger 1, poke_set (args ! 2) dest_obj (fst (set_insert m dest_set)) db)))) = Inr (r, db')"
      "length args = 4" for d src now now' m r db'
    using that by (auto simp: Let_def split: option.splits elim!: bind_r_InrE) (rule body [OF src], assumption+, rule refl)
  show "world_in W P w'"
    using r w unfolding SMove_def Let_def [of "ToString (args ! 3)"]
    by (auto simp: touch_db_all split: if_splits elim!: with_db_all [rotated] lookup_as_P [rotated] intro: lookup)
qed

end

section \<open>Sets as seen by a client\<close>

interpretation sk: container_kind IsSet GetSetObj SetTable "SetObj (SetTable []) FromSet" "[]"
proof
  show "IsSet (SetObj (SetTable []) FromSet)" "GetSetObj (SetObj (SetTable []) FromSet) = Some []"
    by (simp_all add: FromSet_def InitRobj_def IsSet_def)
  show "IsSet (SetObj (SetTable c) obj) = IsSet obj" for c obj by (simp add: IsSet_def SetObj_type)
  show "GetSetObj (SetObj (SetTable c) obj) = Some c" if "IsSet obj" for c obj
    using SetObj_robj [OF that [unfolded IsSet_def], of "SetTable c"] by auto
  show "GetSetObj obj \<noteq> None" if o: "obj_ok obj" "IsSet obj" for obj
  proof -
    obtain c sz enc where c: "obj = RobjObj (Robj (Some c) sz OBJ_SET enc)" "container_ok OBJ_SET c"
      using obj_ok_robj [OF o(1) o(2) [unfolded IsSet_def]] by blast
    then show ?thesis by (cases c) (simp_all add: OBJ_HASH_def OBJ_SET_def OBJ_LIST_def)
  qed
qed

text \<open>The members that a key holds; none if the key holds no set.\<close>

definition set_value :: "nano_obj option \<Rightarrow> string list" where
  "set_value v = the (GetSetObj (kind_value IsSet (SetObj (SetTable []) FromSet) v))"

definition set_of :: "nano_obj option \<Rightarrow> string set" where
  "set_of v = set (set_value v)"

lemma distinct_members: "table_inv (=) id s \<longleftrightarrow> distinct (s :: string list)"
  by (induction s) (auto simp: list_all_iff)

lemma set_value_distinct:
  assumes "\<And>obj. v = Some obj \<Longrightarrow> obj_ok obj"
  shows "distinct (set_value v)"
proof (cases "has_kind IsSet v")
  case True
  then obtain obj where obj: "v = Some obj" "IsSet obj" by (auto simp: has_kind_def split: option.splits)
  obtain c sz enc where c: "obj = RobjObj (Robj (Some c) sz OBJ_SET enc)" "container_ok OBJ_SET c"
    using obj_ok_robj [OF assms [OF obj(1)] obj(2) [unfolded IsSet_def]] by blast
  then have "table_inv (=) id (set_value v)"
    using obj by (cases c) (simp_all add: set_value_def kind_value_def OBJ_HASH_def OBJ_SET_def OBJ_LIST_def)
  then show ?thesis by (simp add: distinct_members)
next
  case False
  then show ?thesis by (simp add: set_value_def sk.value_absent)
qed

lemma set_has_iff: "set_has m s \<longleftrightarrow> m \<in> set s"
  by (auto simp: set_has_def table_find_None_iff)

lemma set_insert_ok:
  "set (fst (set_insert m s)) = insert m (set s)" "snd (set_insert m s) \<longleftrightarrow> m \<notin> set s"
  "distinct s \<Longrightarrow> distinct (fst (set_insert m s))"
  using table_pos_None_iff [of "(=)" id m s] set_insert_inv [of s m]
  by (auto simp: set_insert_def table_insert_def distinct_members split: option.splits dest!: table_pos_SomeD)

lemma set_erase_ok:
  assumes "distinct s"
  shows "set (fst (set_erase m s)) = set s - {m}" "snd (set_erase m s) \<longleftrightarrow> m \<in> set s"
    "distinct (fst (set_erase m s))"
  using assms str_set.set_table_erase [of s m] str_set.table_inv_erase [of s m]
  by (auto simp: set_erase_def distinct_members table_erase_snd table_find_None_iff)

lemma insert_members_ok:
  assumes "distinct s"
  shows "set (fst (count_members set_insert ms s)) = set s \<union> set ms"
    "snd (count_members set_insert ms s) = card (set ms - set s)"
proof -
  let ?step = "\<lambda>m (s, n). let (s, hit) = set_insert m s in (s, if hit then n + 1 else n)"
  have "set (fst (fold ?step ms (s, n))) = set s \<union> set ms \<and> snd (fold ?step ms (s, n)) = n + card (set ms - set s)" for n
    using assms
  proof (induction ms arbitrary: s n)
    case (Cons m ms)
    obtain s1 hit where e: "set_insert m s = (s1, hit)" by fastforce
    note E = set_insert_ok [where m = m and s = s, unfolded e fst_conv snd_conv]
    have c: "card (set (m # ms) - set s) = (if hit then 1 else 0) + card (set ms - set s1)"
    proof (cases hit)
      case True
      then have "set (m # ms) - set s = insert m (set ms - set s1)" "m \<notin> set ms - set s1" using E(1,2) by auto
      with True show ?thesis by simp
    next
      case False
      then have "set (m # ms) - set s = set ms - set s1" using E(1,2) by auto
      with False show ?thesis by simp
    qed
    show ?case using Cons.IH [OF E(3) [OF Cons.prems], of "if hit then n + 1 else n"] E(1) c
      by (cases hit) (auto simp: e)
  qed simp
  from this [of 0] show "set (fst (count_members set_insert ms s)) = set s \<union> set ms"
    "snd (count_members set_insert ms s) = card (set ms - set s)" by (simp_all add: count_members_def)
qed

lemma erase_members_ok:
  assumes "distinct s"
  shows "set (fst (count_members set_erase ms s)) = set s - set ms"
    "snd (count_members set_erase ms s) = card (set ms \<inter> set s)"
proof -
  let ?step = "\<lambda>m (s, n). let (s, hit) = set_erase m s in (s, if hit then n + 1 else n)"
  have "set (fst (fold ?step ms (s, n))) = set s - set ms \<and> snd (fold ?step ms (s, n)) = n + card (set ms \<inter> set s)" for n
    using assms
  proof (induction ms arbitrary: s n)
    case (Cons m ms)
    obtain s1 hit where e: "set_erase m s = (s1, hit)" by fastforce
    note E = set_erase_ok [OF Cons.prems, where m = m, unfolded e fst_conv snd_conv]
    have c: "card (set (m # ms) \<inter> set s) = (if hit then 1 else 0) + card (set ms \<inter> set s1)"
    proof (cases hit)
      case True
      then have "set (m # ms) \<inter> set s = insert m (set ms \<inter> set s1)" "m \<notin> set ms \<inter> set s1" using E(1,2) by auto
      with True show ?thesis by simp
    next
      case False
      then have "set (m # ms) \<inter> set s = set ms \<inter> set s1" using E(1,2) by auto
      with False show ?thesis by simp
    qed
    show ?case using Cons.IH [OF E(3), of "if hit then n + 1 else n"] E(1) c
      by (cases hit) (auto simp: e)
  qed simp
  from this [of 0] show "set (fst (count_members set_erase ms s)) = set s - set ms"
    "snd (count_members set_erase ms s) = card (set ms \<inter> set s)" by (simp_all add: count_members_def)
qed

lemma set_of_put: "set_of (Some (SetObj (SetTable s) (kind_value IsSet (SetObj (SetTable []) FromSet) v))) = set s"
  by (simp add: set_of_def set_value_def sk.put_value)

lemma SAdd_set:
  assumes w: "world_all db_ok w" "GetDB w = Some db" and k: "NanoObj_eq k k"
    and t: "clk e 0 \<le> clk e 1" "clk e 1 \<le> clk e 2" and n: "ms \<noteq> []"
    and S: "S = set_of (visible w (clk e 0) k)"
  shows "SAdd e (c # k # ms) w = Inl BadAlloc \<or>
    (\<exists>obj w'. SAdd e (c # k # ms) w = Inr (MakeInteger (int (card (ToString ` set ms - S))), w') \<and>
       stored_as IsSet w (clk e 0) (clk e 2) k obj w' \<and> set_of (Some obj) = S \<union> ToString ` set ms)"
proof -
  have i: "world_inv w" using w(1) by (simp add: world_in_def)
  let ?v = "visible w (clk e 0) k" and ?ns = "map ToString ms"
  let ?g = "\<lambda>s. MakeInteger (int (snd (count_members set_insert ?ns s)))" and ?f = "\<lambda>s. fst (count_members set_insert ?ns s)"
  obtain s where s: "GetSetObj (kind_value IsSet (SetObj (SetTable []) FromSet) ?v) = Some s" by (rule sk.visible_get [OF w])
  have v: "set_value ?v = s" using s by (simp add: set_value_def)
  have d: "distinct s" unfolding v [symmetric] by (rule set_value_distinct [OF visible_obj_ok [OF w]])
  have l: "\<not> length (c # k # ms) < 3" using n by (cases ms) auto
  have b: "(\<lambda>db. bind_r (open_as IsSet (SetObj (SetTable []) FromSet) (clk e) ((c # k # ms) ! 1) db) (\<lambda>(set_obj, db).
        bind_r (deref (GetSetObj set_obj)) (\<lambda>s.
          let (s, added) = count_members set_insert (map ToString (drop 2 (c # k # ms))) s
          in Inr (MakeInteger (int added), poke_set ((c # k # ms) ! 1) set_obj s db)))) =
     (\<lambda>db. bind_r (open_as IsSet (SetObj (SetTable []) FromSet) (clk e) k db) (\<lambda>(obj, db).
        bind_r (deref (GetSetObj obj)) (\<lambda>s. Inr (?g s, Database_Poke k (SetObj (SetTable (?f s)) obj) db))))"
    by (simp add: fun_eq_iff poke_set_def case_prod_unfold Let_def)
  have "SAdd e (c # k # ms) w = with_db (\<lambda>db. bind_r (open_as IsSet (SetObj (SetTable []) FromSet) (clk e) k db) (\<lambda>(obj, db).
        bind_r (deref (GetSetObj obj)) (\<lambda>s. Inr (?g s, Database_Poke k (SetObj (SetTable (?f s)) obj) db)))) w"
    using l unfolding SAdd_def b by (simp only: if_False)
  note run = sk.open_world [OF i w(2) k t s, where reply = ?g and f = ?f, OF this [symmetric]]
  have m: "snd (count_members set_insert ?ns s) = card (ToString ` set ms - S)"
    "set_of (Some (SetObj (SetTable (?f s)) (kind_value IsSet (SetObj (SetTable []) FromSet) ?v))) = S \<union> ToString ` set ms"
    using insert_members_ok [OF d, of ?ns] by (simp_all add: set_of_put S set_of_def [of ?v] v)
  from run show ?thesis using m by metis
qed

lemma SRem_set:
  fixes e :: env
  assumes w: "world_all db_ok w" "GetDB w = Some db" and t: "clk e 0 \<le> clk e 1" and n: "ms \<noteq> []"
    and S: "S = set_of (visible w (clk e 0) k)"
  shows "\<exists>w'. SRem e (c # k # ms) w = Inr (MakeInteger (int (card (ToString ` set ms \<inter> S))), w') \<and>
    (if \<not> has_kind IsSet (visible w (clk e 0) k) then unchanged w (clk e 0) w'
     else if S \<subseteq> ToString ` set ms then removed w (clk e 1) k w'
     else \<exists>obj. stored_as IsSet w (clk e 0) (clk e 1) k obj w' \<and> set_of (Some obj) = S - ToString ` set ms)"
proof -
  let ?v = "visible w (clk e 0) k" and ?ns = "map ToString ms"
  let ?g = "\<lambda>s. MakeInteger (int (snd (count_members set_erase ?ns s)))" and ?f = "\<lambda>s. fst (count_members set_erase ?ns s)"
  have d: "distinct (set_value ?v)" by (rule set_value_distinct [OF visible_obj_ok [OF w]])
  have b: "(\<lambda>obj db. bind_r (deref (GetSetObj obj)) (\<lambda>s.
          let (s, removed) = count_members set_erase (map ToString (drop 2 (c # k # ms))) s
          in Inr (MakeInteger (int removed), poke_or_del (clk e 1) ((c # k # ms) ! 1) obj s db))) =
     (\<lambda>obj db. bind_r (deref (GetSetObj obj)) (\<lambda>s. Inr (?g s, let db = Database_Poke k (SetObj (SetTable (?f s)) obj) db
          in if ?f s = [] then fst (Database_Del (clk e 1) k db) else db)))"
    by (simp add: fun_eq_iff poke_set_def poke_or_del_def case_prod_unfold Let_def del: One_nat_def)
  have "SRem e (c # k # ms) w = with_db (lookup_as IsSet (clk e 0) k (MakeInteger 0) (\<lambda>obj db.
      bind_r (deref (GetSetObj obj)) (\<lambda>s. Inr (?g s, let db = Database_Poke k (SetObj (SetTable (?f s)) obj) db
          in if ?f s = [] then fst (Database_Del (clk e 1) k db) else db)))) w"
    using n unfolding SRem_def b by (cases ms) simp_all
  moreover have "S = {}" if "\<not> has_kind IsSet ?v" using sk.value_absent [OF that] by (simp add: S set_of_def set_value_def)
  moreover have "?f (set_value ?v) = [] \<longleftrightarrow> S \<subseteq> ToString ` set ms"
    using erase_members_ok(1) [OF d, of ?ns] unfolding S set_of_def by (metis Diff_eq_empty_iff set_empty set_map)
  moreover have "set_of (Some (SetObj (SetTable (?f (set_value ?v))) (kind_value IsSet (SetObj (SetTable []) FromSet) ?v))) =
      S - ToString ` set ms" "snd (count_members set_erase ?ns (set_value ?v)) = card (ToString ` set ms \<inter> S)"
    using erase_members_ok [OF d, of ?ns] by (simp_all add: set_of_put S set_of_def [of ?v])
  ultimately show ?thesis
    using sk.edit_or_del_world [OF w t, of k "MakeInteger 0" ?g ?f, folded set_value_def]
    by (cases "has_kind IsSet ?v"; cases "S \<subseteq> ToString ` set ms") auto
qed

lemma read_set_world:
  assumes "world_all db_ok w" "GetDB w = Some db"
  shows "\<exists>w'. with_db (read_set e k (f []) f) w = Inr (f (set_value (visible w (clk e 0) k)), w') \<and> unchanged w (clk e 0) w'"
  using sk.read_world [OF assms, of "clk e 0" k f] by (auto simp: read_set_def set_value_def)

lemma SIsMember_set:
  assumes "world_all db_ok w" "GetDB w = Some db"
  shows "\<exists>w'. SIsMember e [c, k, m] w = Inr (MakeInteger (if ToString m \<in> set_of (visible w (clk e 0) k) then 1 else 0), w') \<and>
    unchanged w (clk e 0) w'"
  using read_set_world [OF assms, of e k "\<lambda>s. MakeInteger (if set_has (ToString m) s then 1 else 0)"]
  by (simp add: SIsMember_def set_has_iff set_of_def)

lemma SCard_set:
  assumes "world_all db_ok w" "GetDB w = Some db"
  shows "\<exists>w'. SCard e [c, k] w = Inr (MakeInteger (int (card (set_of (visible w (clk e 0) k)))), w') \<and>
    unchanged w (clk e 0) w'"
  using read_set_world [OF assms, of e k "\<lambda>s. MakeInteger (int (length s))"]
    distinct_card [OF set_value_distinct [of "visible w (clk e 0) k"]] visible_obj_ok [OF assms]
  by (simp add: SCard_def set_of_def)

text \<open>A database that shows the same values as another one from a moment on.\<close>

definition same_from :: "database \<Rightarrow> int \<Rightarrow> database \<Rightarrow> bool" where
  "same_from db t db' \<longleftrightarrow> db_inv db' \<and> current_db db' = current_db db \<and>
     (\<forall>j now k. t \<le> now \<longrightarrow> db_view db' j now k = db_view db j now k)"

lemma find_as_same:
  assumes "same_from db t d" "t \<le> t'"
  shows "\<exists>p. find_as is_kind t' k d = (p, if has_kind is_kind (db_view db (current_db db) t' k)
      then db_view db (current_db db) t' k else None) \<and> same_from db t' p"
proof -
  let ?p = "PruneExpiredInDB (current_db d) k t' d"
  have d: "db_inv d" "current_db d = current_db db" using assms(1) by (simp_all add: same_from_def)
  have v: "db_view d (current_db d) t' k = db_view db (current_db db) t' k" using assms by (simp add: same_from_def)
  have "find_as is_kind t' k d = (?p, if has_kind is_kind (db_view d (current_db d) t' k)
      then db_view d (current_db d) t' k else None)"
    using Find_ok [OF d(1), of t' k] by (auto simp: find_as_def has_kind_def Let_def case_prod_unfold split: option.splits)
  moreover have "same_from db t' ?p"
    using prune_current [OF d(1), where k = k and now = t'] assms by (simp add: same_from_def)
  ultimately show ?thesis unfolding v by blast
qed

lemma same_from_mono: "same_from db t d \<Longrightarrow> t \<le> t' \<Longrightarrow> same_from db t' d"
  by (auto simp: same_from_def)

lemma set_deref:
  assumes "\<forall>t k obj. db_view db (current_db db) t k = Some obj \<longrightarrow> obj_ok obj"
    and "has_kind IsSet (db_view db (current_db db) t k)"
  shows "deref (GetSetObj (the (db_view db (current_db db) t k))) = Inr (set_value (db_view db (current_db db) t k))"
    "db_view db (current_db db) t k = Some (the (db_view db (current_db db) t k))"
proof -
  obtain obj where o: "db_view db (current_db db) t k = Some obj" "IsSet obj"
    using assms(2) by (auto simp: has_kind_def split: option.splits)
  with sk.get_kind [OF assms(1) [rule_format, OF o(1)] o(2)]
  show "deref (GetSetObj (the (db_view db (current_db db) t k))) = Inr (set_value (db_view db (current_db db) t k))"
    "db_view db (current_db db) t k = Some (the (db_view db (current_db db) t k))"
    by (auto simp: deref_def set_value_def kind_value_def)
qed

lemma union_members: "set (fold (\<lambda>m acc. fst (set_insert m acc)) s acc) = set acc \<union> set s"
  "distinct acc \<Longrightarrow> distinct (fold (\<lambda>m acc. fst (set_insert m acc)) s acc)"
  by (induction s arbitrary: acc) (auto simp: set_insert_ok)

lemma diff_members:
  assumes "distinct acc"
  shows "set (fold (\<lambda>m acc. fst (set_erase m acc)) s acc) = set acc - set s"
    "distinct (fold (\<lambda>m acc. fst (set_erase m acc)) s acc)"
  using assms by (induction s arbitrary: acc) (auto simp: set_erase_ok)

lemma intersect_members: "set (intersect_step s acc) = set acc \<inter> set s" "distinct (intersect_step s acc)"
proof -
  have "set (fold (\<lambda>elem temp. if set_has elem s then fst (set_insert elem temp) else temp) acc temp) =
      set temp \<union> (set acc \<inter> set s) \<and>
    (distinct temp \<longrightarrow> distinct (fold (\<lambda>elem temp. if set_has elem s then fst (set_insert elem temp) else temp) acc temp))" for temp
    by (induction acc arbitrary: temp) (auto simp: set_insert_ok set_has_iff)
  from this [of "[]"] show "set (intersect_step s acc) = set acc \<inter> set s" "distinct (intersect_step s acc)"
    by (simp_all add: intersect_step_def)
qed

lemma union_loop:
  assumes ok: "\<forall>t k obj. db_view db (current_db db) t k = Some obj \<longrightarrow> obj_ok obj"
    and mono: "\<And>i. clk e i \<le> clk e (Suc i)" and d: "same_from db (clk e n) d" "distinct acc"
  shows "\<exists>acc' d'. fold_r (union_step e) (enumerate n ks) (acc, d) = Inr (acc', d') \<and> same_from db (clk e (n + length ks)) d' \<and>
    distinct acc' \<and> set acc' = set acc \<union> (\<Union>(i, k) \<in> set (enumerate n ks). set_of (db_view db (current_db db) (clk e i) k))"
  using d
proof (induction ks arbitrary: n d acc)
  case (Cons k ks)
  let ?v = "db_view db (current_db db) (clk e n) k"
  obtain p where p: "find_as IsSet (clk e n) k d = (p, if has_kind IsSet ?v then ?v else None)" "same_from db (clk e n) p"
    using find_as_same [OF Cons.prems(1) order_refl] by blast
  define acc1 where "acc1 = fold (\<lambda>m acc. fst (set_insert m acc)) (set_value ?v) acc"
  have "union_step e (n, k) (acc, d) = Inr (acc1, p)"
  proof (cases "has_kind IsSet ?v")
    case True
    then show ?thesis using set_deref [OF ok True]
      by (auto simp: union_step_def p(1) acc1_def deref_def split: option.splits)
  next
    case False
    then show ?thesis using sk.value_absent [OF False] by (auto simp: union_step_def p(1) acc1_def set_value_def)
  qed
  then show ?case
    using Cons.IH [OF same_from_mono [OF p(2) mono], of acc1] union_members [where s = "set_value ?v" and acc = acc] Cons.prems(2)
    by (auto simp: acc1_def set_of_def Un_assoc)
qed simp

lemma diff_loop:
  assumes ok: "\<forall>t k obj. db_view db (current_db db) t k = Some obj \<longrightarrow> obj_ok obj"
    and mono: "\<And>i. clk e i \<le> clk e (Suc i)" and d: "same_from db (clk e n) d" "distinct acc"
  shows "\<exists>acc' d'. fold_r (diff_step e) (enumerate n ks) (acc, d) = Inr (acc', d') \<and> same_from db (clk e (n + length ks)) d' \<and>
    distinct acc' \<and> set acc' = set acc - (\<Union>(i, k) \<in> set (enumerate n ks). set_of (db_view db (current_db db) (clk e i) k))"
  using d
proof (induction ks arbitrary: n d acc)
  case (Cons k ks)
  let ?v = "db_view db (current_db db) (clk e n) k"
  obtain p where p: "find_as IsSet (clk e n) k d = (p, if has_kind IsSet ?v then ?v else None)" "same_from db (clk e n) p"
    using find_as_same [OF Cons.prems(1) order_refl] by blast
  define acc1 where "acc1 = fold (\<lambda>m acc. fst (set_erase m acc)) (set_value ?v) acc"
  have "diff_step e (n, k) (acc, d) = Inr (acc1, p)"
  proof (cases "has_kind IsSet ?v")
    case True
    then show ?thesis using set_deref [OF ok True]
      by (auto simp: diff_step_def p(1) acc1_def deref_def split: option.splits)
  next
    case False
    then show ?thesis using sk.value_absent [OF False] by (auto simp: diff_step_def p(1) acc1_def set_value_def)
  qed
  then show ?case
    using Cons.IH [OF same_from_mono [OF p(2) mono], of acc1] diff_members [OF Cons.prems(2), of "set_value ?v"]
    by (auto simp: acc1_def set_of_def)
qed simp

lemma find_sets_loop:
  assumes ok: "\<forall>t k obj. db_view db (current_db db) t k = Some obj \<longrightarrow> obj_ok obj"
    and mono: "\<And>i. clk e i \<le> clk e (Suc i)" and d: "same_from db (clk e n) d"
  shows "\<exists>d'. same_from db (clk e (n + length ks)) d' \<and>
    (if \<forall>(i, k) \<in> set (enumerate n ks). has_kind IsSet (db_view db (current_db db) (clk e i) k)
     then \<exists>objs. find_sets e (enumerate n ks) d = (d', Some objs) \<and>
       deref_all objs = Inr (map (\<lambda>(i, k). set_value (db_view db (current_db db) (clk e i) k)) (enumerate n ks))
     else find_sets e (enumerate n ks) d = (d', None))"
  using d
proof (induction ks arbitrary: n d)
  case (Cons k ks)
  let ?v = "db_view db (current_db db) (clk e n) k"
  obtain p where p: "find_as IsSet (clk e n) k d = (p, if has_kind IsSet ?v then ?v else None)" "same_from db (clk e n) p"
    using find_as_same [OF Cons.prems order_refl] by blast
  have le: "clk e n \<le> clk e (n + m)" for m by (rule lift_Suc_mono_le [of "clk e", OF mono]) simp
  show ?case
  proof (cases "has_kind IsSet ?v")
    case True
    note D = set_deref [OF ok True]
    from D(2) obtain obj where "?v = Some obj" by blast
    with True D(1) p(1) have f: "find_as IsSet (clk e n) k d = (p, Some obj)" "deref (GetSetObj obj) = Inr (set_value ?v)"
      by simp_all
    obtain d' where "same_from db (clk e (Suc n + length ks)) d'" and
      "if \<forall>(i, k) \<in> set (enumerate (Suc n) ks). has_kind IsSet (db_view db (current_db db) (clk e i) k)
       then \<exists>objs. find_sets e (enumerate (Suc n) ks) p = (d', Some objs) \<and>
         deref_all objs = Inr (map (\<lambda>(i, k). set_value (db_view db (current_db db) (clk e i) k)) (enumerate (Suc n) ks))
       else find_sets e (enumerate (Suc n) ks) p = (d', None)"
      using Cons.IH [OF same_from_mono [OF p(2) mono]] by blast
    with True f show ?thesis
      by (intro exI [of _ d'], cases "\<forall>(i, k) \<in> set (enumerate (Suc n) ks). has_kind IsSet (db_view db (current_db db) (clk e i) k)")
        (auto simp: deref_def)
  next
    case False
    then show ?thesis using p same_from_mono [OF p(2) le, of "Suc (length ks)"] by auto
  qed
qed simp

lemma same_from_refl: "db_inv db \<Longrightarrow> same_from db t db"
  by (simp add: same_from_def)

lemma SInter_set:
  assumes w: "world_all db_ok w" "GetDB w = Some db" and a: "AllKeysSameShard e (c # ks) 1 w" "ks \<noteq> []"
    and mono: "\<And>i. clk e i \<le> clk e (Suc i)"
  shows "\<exists>l w'. SInter e (c # ks) w = Inr (bulk_array l, w') \<and> distinct l \<and>
    set l = (\<Inter>(i, k) \<in> set (enumerate 1 ks). set_of (visible w (clk e i) k)) \<and> unchanged w (clk e (Suc (length ks))) w'"
proof -
  have i: "world_inv w" using w(1) by (simp add: world_in_def)
  note D = GetDB_inv(1) [OF i w(2)] and V = GetDB_visible [OF i w(2)]
  let ?s = "\<lambda>(i, k). set_value (visible w (clk e i) k)"
  have ok: "\<forall>t k obj. db_view db (current_db db) t k = Some obj \<longrightarrow> obj_ok obj"
    using visible_obj_ok [OF w] V by metis
  obtain k ks' where ks: "ks = k # ks'" using a(2) by (cases ks) auto
  obtain d' where d': "same_from db (clk e (1 + length ks)) d'" and
      f: "if \<forall>(i, k) \<in> set (enumerate 1 ks). has_kind IsSet (db_view db (current_db db) (clk e i) k)
       then \<exists>objs. find_sets e (enumerate 1 ks) db = (d', Some objs) \<and>
         deref_all objs = Inr (map (\<lambda>(i, k). set_value (db_view db (current_db db) (clk e i) k)) (enumerate 1 ks))
       else find_sets e (enumerate 1 ks) db = (d', None)"
    using find_sets_loop [OF ok mono same_from_refl [OF D]] by blast
  have u: "unchanged w (clk e (Suc (length ks))) (put_db d' w)"
    using d' by (simp add: unchanged_def same_from_def put_db_visible [OF i w(2)] V)
  have run: "SInter e (c # ks) w = with_db (\<lambda>db. let (db, objs) = find_sets e (enumerate 1 ks) db
        in case objs of None \<Rightarrow> Inr (MakeArray 0, db)
           | Some objs \<Rightarrow> bind_r (deref_all objs) (\<lambda>sets. Inr (bulk_array (fold intersect_step (tl sets) (hd sets)), db))) w"
    using a by (simp add: SInter_def ks)
  show ?thesis
  proof (cases "\<forall>(i, k) \<in> set (enumerate 1 ks). has_kind IsSet (db_view db (current_db db) (clk e i) k)")
    case True
    define l where "l = fold intersect_step (map ?s (enumerate 2 ks')) (?s (1, k))"
    have r: "SInter e (c # ks) w = Inr (bulk_array l, put_db d' w)"
      using f True V unfolding run by (auto simp: with_db_def w(2) ks l_def numeral_2_eq_2 split: if_splits)
    have "set (fold intersect_step (map ?s xs) acc) = set acc \<inter> (\<Inter>(i, k) \<in> set xs. set_of (visible w (clk e i) k)) \<and>
        (distinct acc \<longrightarrow> distinct (fold intersect_step (map ?s xs) acc))" for xs acc
      by (induction xs arbitrary: acc) (auto simp: intersect_members set_of_def)
    moreover have "distinct (set_value (visible w (clk e 1) k))"
      by (rule set_value_distinct [OF visible_obj_ok [OF w]])
    ultimately have "distinct l" "set l = (\<Inter>(i, k) \<in> set (enumerate 1 ks). set_of (visible w (clk e i) k))"
      by (simp_all add: l_def ks set_of_def numeral_2_eq_2)
    with r u show ?thesis by blast
  next
    case False
    then have "find_sets e (enumerate 1 ks) db = (d', None)" using f by (simp only: if_False)
    then have r: "SInter e (c # ks) w = Inr (bulk_array [], put_db d' w)"
      unfolding run by (simp add: with_db_def w(2) bulk_array_def)
    from False obtain i k where "(i, k) \<in> set (enumerate 1 ks)" "\<not> has_kind IsSet (visible w (clk e i) k)"
      by (auto simp: V)
    with sk.value_absent [of "visible w (clk e i) k"]
    have "(\<Inter>(i, k) \<in> set (enumerate 1 ks). set_of (visible w (clk e i) k)) = {}"
      by (force simp: set_of_def set_value_def)
    with r u show ?thesis by (metis distinct.simps(1) empty_set)
  qed
qed

lemma SUnion_set:
  assumes w: "world_all db_ok w" "GetDB w = Some db" and a: "AllKeysSameShard e (c # ks) 1 w" "ks \<noteq> []"
    and mono: "\<And>i. clk e i \<le> clk e (Suc i)"
  shows "\<exists>l w'. SUnion e (c # ks) w = Inr (bulk_array l, w') \<and> distinct l \<and>
    set l = (\<Union>(i, k) \<in> set (enumerate 1 ks). set_of (visible w (clk e i) k)) \<and> unchanged w (clk e (Suc (length ks))) w'"
proof -
  have i: "world_inv w" using w(1) by (simp add: world_in_def)
  note D = GetDB_inv(1) [OF i w(2)] and V = GetDB_visible [OF i w(2)]
  have ok: "\<forall>t k obj. db_view db (current_db db) t k = Some obj \<longrightarrow> obj_ok obj"
    using visible_obj_ok [OF w] V by metis
  obtain l d' where f: "fold_r (union_step e) (enumerate 1 ks) ([], db) = Inr (l, d')"
    and l: "same_from db (clk e (1 + length ks)) d'" "distinct l"
      "set l = set [] \<union> (\<Union>(i, k) \<in> set (enumerate 1 ks). set_of (db_view db (current_db db) (clk e i) k))"
    using union_loop [OF ok mono same_from_refl [OF D], where n = 1 and acc = "[]" and ks = ks] by auto
  have "unchanged w (clk e (Suc (length ks))) (put_db d' w)"
    using l(1) by (simp add: unchanged_def same_from_def put_db_visible [OF i w(2)] V)
  moreover have "SUnion e (c # ks) w = Inr (bulk_array l, put_db d' w)"
    using a f by (cases ks) (simp_all add: SUnion_def with_db_def w(2))
  ultimately show ?thesis using l(2,3) by (auto simp: V)
qed

lemma SDiff_set:
  assumes w: "world_all db_ok w" "GetDB w = Some db" and a: "AllKeysSameShard e (c # k # ks) 1 w"
    and mono: "\<And>i. clk e i \<le> clk e (Suc i)"
  shows "\<exists>l w'. SDiff e (c # k # ks) w = Inr (bulk_array l, w') \<and> distinct l \<and>
    set l = set_of (visible w (clk e 1) k) - (\<Union>(i, k) \<in> set (enumerate 2 ks). set_of (visible w (clk e i) k)) \<and>
    unchanged w (clk e (Suc (Suc (length ks)))) w'"
proof (cases "has_kind IsSet (visible w (clk e 1) k)")
  case True
  have i: "world_inv w" using w(1) by (simp add: world_in_def)
  note D = GetDB_inv(1) [OF i w(2)] and V = GetDB_visible [OF i w(2)]
  have ok: "\<forall>t k obj. db_view db (current_db db) t k = Some obj \<longrightarrow> obj_ok obj"
    using visible_obj_ok [OF w] V by metis
  let ?p = "PruneExpiredInDB (current_db db) k (clk e 1) db" and ?s = "set_value (visible w (clk e 1) k)"
  obtain obj s where o: "visible w (clk e 1) k = Some obj" "IsSet obj" "GetSetObj obj = Some s"
    and run: "\<And>(absent :: string) f. with_db (lookup_as IsSet (clk e 1) k absent f) w =
       bind_r (f obj ?p) (\<lambda>(r, db). Inr (r, put_db db w))"
    by (rule sk.found_world [OF w True]) simp_all
  have s: "?s = s" using o by (simp add: set_value_def kind_value_def)
  have d: "distinct s" unfolding s [symmetric] by (rule set_value_distinct [OF visible_obj_ok [OF w]])
  have p: "same_from db (clk e 2) ?p"
    using prune_current [OF D, where k = k and now = "clk e 1"] mono [of 1] by (simp add: same_from_def numeral_2_eq_2)
  obtain l d' where f: "fold_r (diff_step e) (enumerate 2 ks) (s, ?p) = Inr (l, d')"
    and l: "same_from db (clk e (2 + length ks)) d'" "distinct l"
      "set l = set s - (\<Union>(i, k) \<in> set (enumerate 2 ks). set_of (db_view db (current_db db) (clk e i) k))"
    using diff_loop [OF ok mono p d] by blast
  have "unchanged w (clk e (Suc (Suc (length ks)))) (put_db d' w)"
    using l(1) by (simp add: unchanged_def same_from_def put_db_visible [OF i w(2)] V)
  moreover have "SDiff e (c # k # ks) w = Inr (bulk_array l, put_db d' w)"
    using a f run by (simp add: SDiff_def deref_def o(3) del: One_nat_def)
  ultimately show ?thesis using l(2,3) by (auto simp: V [symmetric] set_of_def s simp del: One_nat_def)
next
  case False
  have i: "world_inv w" using w(1) by (simp add: world_in_def)
  let ?w = "put_db (PruneExpiredInDB (current_db db) k (clk e 1) db) w"
  have "SDiff e (c # k # ks) w = Inr (bulk_array [], ?w)"
    using False by (simp add: SDiff_def lookup_world [OF i w(2)] Let_def bulk_array_def del: One_nat_def)
  moreover have "clk e 1 \<le> clk e (Suc (Suc (length ks)))" by (rule lift_Suc_mono_le [of "clk e", OF mono]) simp
  then have "unchanged w (clk e (Suc (Suc (length ks)))) ?w"
    using unchanged_pruned(2) [OF i w(2), where k = k and t = "clk e 1"] by (auto simp: unchanged_def)
  moreover have "set_of (visible w (clk e 1) k) = {}" using sk.value_absent [OF False] by (simp add: set_of_def set_value_def)
  ultimately show ?thesis by (metis Diff_empty distinct.simps(1) empty_Diff empty_set)
qed

section \<open>Properties of the set commands\<close>

text \<open>
  C28: on well-formed databases the set commands are operations on a finite set of strings: SADD
  adds the members and counts the new ones, SREM removes members, counts them, and deletes the key
  when none is left, SISMEMBER and SCARD only read; no other key changes.
\<close>

theorem set_commands_refine_set:
  assumes "world_all db_ok w" "GetDB w = Some db" "NanoObj_eq k k" "clk e 0 \<le> clk e 1" "clk e 1 \<le> clk e 2"
    "ms \<noteq> []" "S = set_of (visible w (clk e 0) k)"
  shows "(SAdd e (c # k # ms) w = Inl BadAlloc \<or>
      (\<exists>obj w'. SAdd e (c # k # ms) w = Inr (MakeInteger (int (card (ToString ` set ms - S))), w') \<and>
         stored_as IsSet w (clk e 0) (clk e 2) k obj w' \<and> set_of (Some obj) = S \<union> ToString ` set ms)) \<and>
    (\<exists>w'. SRem e (c # k # ms) w = Inr (MakeInteger (int (card (ToString ` set ms \<inter> S))), w') \<and>
      (if \<not> has_kind IsSet (visible w (clk e 0) k) then unchanged w (clk e 0) w'
       else if S \<subseteq> ToString ` set ms then removed w (clk e 1) k w'
       else \<exists>obj. stored_as IsSet w (clk e 0) (clk e 1) k obj w' \<and> set_of (Some obj) = S - ToString ` set ms)) \<and>
    (\<exists>w'. SIsMember e [c, k, m] w = Inr (MakeInteger (if ToString m \<in> S then 1 else 0), w') \<and> unchanged w (clk e 0) w') \<and>
    (\<exists>w'. SCard e [c, k] w = Inr (MakeInteger (int (card S)), w') \<and> unchanged w (clk e 0) w')"
  using SAdd_set [OF assms, of c] SRem_set [OF assms(1,2,4,6,7), of c] SIsMember_set [OF assms(1,2), of e c k m]
    SCard_set [OF assms(1,2), of e c k] unfolding assms(7) by blast

theorem set_commands_refine_set_witness:
  "\<exists>db w'. db_get db 0 (FromKey ''s'') = Some (RobjObj (Robj (Some (SetTable [''a'', ''b''])) 0 OBJ_SET OBJ_ENCODING_HASHTABLE)) \<and>
     SCard (env_at 5) [FromKey ''SCARD'', FromKey ''s''] (legacy_world db) = Inr (MakeInteger 2, w')"
proof -
  let ?o = "RobjObj (Robj (Some (SetTable [''a'', ''b''])) 0 OBJ_SET OBJ_ENCODING_HASHTABLE)" and ?k = "FromKey ''s''"
  obtain db where db: "small (Suc 0) db" "db_ok db" "current_db db = 0" "db_get db 0 ?k = Some ?o"
    "world_all db_ok (legacy_world db)" "GetDB (legacy_world db) = Some db" "\<And>t. visible (legacy_world db) t ?k = Some ?o"
    by (rule one_object [of ?o "''s''"]) simp_all
  have s: "set_of (Some ?o) = {''a'', ''b''}"
    by (simp add: set_of_def set_value_def kind_value_def IsSet_def)
  have "\<exists>w'. SCard (env_at 5) [FromKey ''SCARD'', ?k] (legacy_world db) = Inr (MakeInteger (int (card {''a'', ''b''})), w')"
    using set_commands_refine_set [OF db(5,6) FromKey_refl [of "''s''"], where e = "env_at 5" and ms = "[?k]"
        and S = "{''a'', ''b''}" and c = "FromKey ''SCARD''"]
    unfolding env_at_clk db(7) s by auto
  then show ?thesis using db(4) by auto
qed



end
