(* ===== verification/List_Family.thy ===== *)
theory List_Family
  imports Keyed_Containers
begin

text \<open>
  The list commands of \<open>src/command/list_family.cc\<close>.  A list is a \<open>std::deque\<close> of objects.
\<close>

section \<open>Handlers\<close>

definition poke_list :: "nano_obj \<Rightarrow> nano_obj \<Rightarrow> nano_obj list \<Rightarrow> database \<Rightarrow> database" where
  "poke_list key obj l db = Database_Poke key (SetObj (ListDeque l) obj) db"

text \<open>Writing the list back, and deleting the key when the list has become empty.\<close>

definition poke_list_or_del :: "int \<Rightarrow> nano_obj \<Rightarrow> nano_obj \<Rightarrow> nano_obj list \<Rightarrow> database \<Rightarrow> database" where
  "poke_list_or_del now key obj l db =
     (let db = poke_list key obj l db in if l = [] then fst (Database_Del now key db) else db)"

text \<open>The common shape of LPUSH and RPUSH.\<close>

definition push_body :: "(nano_obj \<Rightarrow> nano_obj list \<Rightarrow> nano_obj list) \<Rightarrow> env \<Rightarrow> nano_obj list \<Rightarrow> database \<Rightarrow> (string \<times> database) result" where
  "push_body push e args db =
     bind_r (open_as IsList (SetObj (ListDeque []) FromList) (clk e) (args ! 1) db) (\<lambda>(list_obj, db).
     bind_r (deref (GetListObj list_obj)) (\<lambda>l.
       let l = fold (\<lambda>a. push (NanoObj_copy a)) (drop 2 args) l
       in Inr (MakeInteger (int (length l)), poke_list (args ! 1) list_obj l db)))"

definition LPush :: handler where
  "LPush e args w =
     (if length args < 3 then Inr (arity_error ''LPUSH'', w)
      else with_db (push_body (\<lambda>a l. a # l) e args) w)"

definition RPush :: handler where
  "RPush e args w =
     (if length args < 3 then Inr (arity_error ''RPUSH'', w)
      else with_db (push_body (\<lambda>a l. l @ [a]) e args) w)"

text \<open>
  The common shape of LPOP and RPOP: \<open>front\<close> and \<open>pop\<close> are \<open>front()\<close> and \<open>pop_front()\<close>, or
  \<open>back()\<close> and \<open>pop_back()\<close>.
\<close>

fun pop_loop :: "(nano_obj list \<Rightarrow> nano_obj) \<Rightarrow> (nano_obj list \<Rightarrow> nano_obj list) \<Rightarrow> nat \<Rightarrow> nano_obj list \<Rightarrow> string list \<times> nano_obj list" where
  "pop_loop front pop 0 l = ([], l)"
| "pop_loop front pop (Suc n) l =
     (if l = [] then ([], l)
      else let (out, l') = pop_loop front pop n (pop l) in (ToString (front l) # out, l'))"

definition pop_body ::
    "(nano_obj list \<Rightarrow> nano_obj) \<Rightarrow> (nano_obj list \<Rightarrow> nano_obj list) \<Rightarrow> env \<Rightarrow> nano_obj list \<Rightarrow> database \<Rightarrow> (string \<times> database) result" where
  "pop_body front pop e args =
     lookup_as IsList (clk e 0) (args ! 1) MakeNullBulkString (\<lambda>obj db.
       bind_r (deref (GetListObj obj)) (\<lambda>l.
         if l = [] then Inr (MakeNullBulkString, db)
         else
           let run = (\<lambda>cnt.
                 if cnt = 1 then
                   Inr (MakeBulkString (ToString (front l)), poke_list_or_del (clk e 1) (args ! 1) obj (pop l) db)
                 else
                   let (out, l') = pop_loop front pop (nat cnt) l
                   in Inr (MakeArray cnt @ concat (map MakeBulkString out), poke_list_or_del (clk e 1) (args ! 1) obj l' db))
           in if length args = 3 then
                (case ParseLongLong (ToString (args ! 2)) of
                   None \<Rightarrow> Inr (MakeError ''count is not a valid positive integer'', db)
                 | Some cnt \<Rightarrow>
                     if cnt < 0 then Inr (MakeError ''count is not a valid positive integer'', db) else run cnt)
              else run 1))"

definition LPop :: handler where
  "LPop e args w =
     (if length args < 2 \<or> length args > 3 then Inr (arity_error ''LPOP'', w)
      else with_db (pop_body hd tl e args) w)"

definition RPop :: handler where
  "RPop e args w =
     (if length args < 2 \<or> length args > 3 then Inr (arity_error ''RPOP'', w)
      else with_db (pop_body last butlast e args) w)"

definition LLen :: handler where
  "LLen e args w =
     (if length args \<noteq> 2 then Inr (arity_error ''LLEN'', w)
      else with_db (lookup_as IsList (clk e 0) (args ! 1) (MakeInteger 0) (\<lambda>obj db.
        bind_r (deref (GetListObj obj)) (\<lambda>l. Inr (MakeInteger (int (length l)), db)))) w)"

definition not_an_integer :: string where
  "not_an_integer = MakeError ''value is not an integer or out of range''"

text \<open>A negative index counts from the end.\<close>

definition from_end :: "int \<Rightarrow> nano_obj list \<Rightarrow> int" where
  "from_end index l = (if index < 0 then index + int (length l) else index)"

definition LIndex :: handler where
  "LIndex e args w =
     (if length args \<noteq> 3 then Inr (arity_error ''LINDEX'', w)
      else with_db (lookup_as IsList (clk e 0) (args ! 1) MakeNullBulkString (\<lambda>obj db.
        (case ParseLongLong (ToString (args ! 2)) of
           None \<Rightarrow> Inr (not_an_integer, db)
         | Some index \<Rightarrow> bind_r (deref (GetListObj obj)) (\<lambda>l.
             let index = from_end index l
             in if index < 0 \<or> index \<ge> int (length l) then Inr (MakeNullBulkString, db)
                else Inr (MakeBulkString (ToString (l ! nat index)), db))))) w)"

definition LSet :: handler where
  "LSet e args w =
     (if length args \<noteq> 4 then Inr (arity_error ''LSET'', w)
      else with_db (lookup_as IsList (clk e 0) (args ! 1) (MakeError ''no such key'') (\<lambda>obj db.
        (case ParseLongLong (ToString (args ! 2)) of
           None \<Rightarrow> Inr (not_an_integer, db)
         | Some index \<Rightarrow> bind_r (deref (GetListObj obj)) (\<lambda>l.
             let index = from_end index l
             in if index < 0 \<or> index \<ge> int (length l) then Inr (MakeError ''index out of range'', db)
                else Inr (OkResponse, poke_list (args ! 1) obj (l[nat index := NanoObj_copy (args ! 3)]) db))))) w)"

text \<open>The bounds of LRANGE and LTRIM.\<close>

definition range_start :: "int \<Rightarrow> int \<Rightarrow> int" where
  "range_start start len = (if start < 0 then (if start + len < 0 then 0 else start + len) else start)"

definition range_stop :: "int \<Rightarrow> int \<Rightarrow> int" where
  "range_stop stop len = (if stop < 0 then (if stop + len < 0 then - 1 else stop + len) else stop)"

definition LRange :: handler where
  "LRange e args w =
     (if length args \<noteq> 4 then Inr (arity_error ''LRANGE'', w)
      else with_db (lookup_as IsList (clk e 0) (args ! 1) (MakeArray 0) (\<lambda>obj db.
        (case (ParseLongLong (ToString (args ! 2)), ParseLongLong (ToString (args ! 3))) of
           (Some start, Some stop) \<Rightarrow> bind_r (deref (GetListObj obj)) (\<lambda>l.
             let len = int (length l);
                 start = range_start start len;
                 stop = range_stop stop len
             in if start \<ge> len then Inr (MakeArray 0, db)
                else
                  let stop = (if stop \<ge> len then len - 1 else stop)
                  in if start > stop then Inr (MakeArray 0, db)
                     else Inr (MakeArray (stop - start + 1) @
                            concat (map (\<lambda>i. MakeBulkString (ToString (l ! nat i))) [start..stop]), db))
         | _ \<Rightarrow> Inr (not_an_integer, db)))) w)"

definition LTrim :: handler where
  "LTrim e args w =
     (if length args \<noteq> 4 then Inr (arity_error ''LTRIM'', w)
      else with_db (lookup_as IsList (clk e 0) (args ! 1) OkResponse (\<lambda>obj db.
        (case (ParseLongLong (ToString (args ! 2)), ParseLongLong (ToString (args ! 3))) of
           (Some start, Some stop) \<Rightarrow> bind_r (deref (GetListObj obj)) (\<lambda>l.
             let len = int (length l);
                 start = range_start start len;
                 stop = range_stop stop len
             in if start \<ge> len \<or> start > stop then Inr (OkResponse, fst (Database_Del (clk e 1) (args ! 1) db))
                else
                  let stop = (if stop \<ge> len then len - 1 else stop)
                  in Inr (OkResponse,
                       poke_list (args ! 1) obj (map (\<lambda>i. NanoObj_copy (l ! nat i)) [start..stop]) db))
         | _ \<Rightarrow> Inr (not_an_integer, db)))) w)"

text \<open>
  The loops of LREM from the front, with or without a limit; the loop from the end is the one over
  the reversed list.
\<close>

fun lrem_loop :: "nat option \<Rightarrow> string \<Rightarrow> nano_obj list \<Rightarrow> nano_obj list \<times> nat" where
  "lrem_loop lim v [] = ([], 0)"
| "lrem_loop lim v (x # xs) =
     (if lim = Some 0 then (x # xs, 0)
      else if ToString x = v then
        let (ys, removed) = lrem_loop (map_option (\<lambda>n. n - 1) lim) v xs in (ys, removed + 1)
      else let (ys, removed) = lrem_loop lim v xs in (x # ys, removed))"

definition lrem :: "int \<Rightarrow> string \<Rightarrow> nano_obj list \<Rightarrow> nano_obj list \<times> nat" where
  "lrem cnt v l =
     (if cnt = 0 then lrem_loop None v l
      else if cnt > 0 then lrem_loop (Some (nat cnt)) v l
      else let (ys, removed) = lrem_loop (Some (nat (- cnt))) v (rev l) in (rev ys, removed))"

definition LRem :: handler where
  "LRem e args w =
     (if length args \<noteq> 4 then Inr (arity_error ''LREM'', w)
      else with_db (lookup_as IsList (clk e 0) (args ! 1) (MakeInteger 0) (\<lambda>obj db.
        (case ParseLongLong (ToString (args ! 2)) of
           None \<Rightarrow> Inr (not_an_integer, db)
         | Some cnt \<Rightarrow> bind_r (deref (GetListObj obj)) (\<lambda>l.
             let (l, removed) = lrem cnt (ToString (args ! 3)) l
             in Inr (MakeInteger (int removed), poke_list_or_del (clk e 1) (args ! 1) obj l db))))) w)"

text \<open>\<open>std::find_if\<close>: the position of the first element with a string.\<close>

fun find_elem :: "string \<Rightarrow> nano_obj list \<Rightarrow> nat option" where
  "find_elem pivot [] = None"
| "find_elem pivot (x # xs) = (if ToString x = pivot then Some 0 else map_option Suc (find_elem pivot xs))"

definition insert_at :: "nat \<Rightarrow> nano_obj \<Rightarrow> nano_obj list \<Rightarrow> nano_obj list" where
  "insert_at i x l = take i l @ x # drop i l"

definition LInsert :: handler where
  "LInsert e args w =
     (if length args \<noteq> 5 then Inr (arity_error ''LINSERT'', w)
      else with_db (lookup_as IsList (clk e 0) (args ! 1) (MakeInteger 0) (\<lambda>obj db.
        let whr = ToString (args ! 2)
        in if whr \<noteq> ''BEFORE'' \<and> whr \<noteq> ''AFTER'' then Inr (MakeError ''syntax error'', db)
           else bind_r (deref (GetListObj obj)) (\<lambda>l.
             case find_elem (ToString (args ! 3)) l of
               None \<Rightarrow> Inr (MakeInteger (- 1), db)
             | Some i \<Rightarrow>
                 let l' = insert_at (if whr = ''BEFORE'' then i else i + 1) (FromKey (ToString (args ! 4))) l
                 in Inr (MakeInteger (int (length l')), poke_list (args ! 1) obj l' db)))) w)"

section \<open>The contract of the databases\<close>

lemma pop_loop_sub:
  assumes "\<And>l. l \<noteq> [] \<Longrightarrow> set (pop l) \<subseteq> set l"
  shows "set (snd (pop_loop front pop n l)) \<subseteq> set l"
proof (induction n arbitrary: l)
  case (Suc n)
  show ?case
  proof (cases "l = []")
    case False
    have "set (snd (pop_loop front pop (Suc n) l)) = set (snd (pop_loop front pop n (pop l)))"
      using False by (simp add: Let_def case_prod_unfold)
    with Suc [of "pop l"] assms [OF False] show ?thesis by blast
  qed simp
qed simp

lemma lrem_loop_sub: "set (fst (lrem_loop lim v l)) \<subseteq> set l"
  by (induction lim v l rule: lrem_loop.induct) (auto simp: Let_def case_prod_unfold)

lemma lrem_sub: "set (fst (lrem cnt v l)) \<subseteq> set l"
  using lrem_loop_sub [of None v l] lrem_loop_sub [of "Some (nat cnt)" v l] lrem_loop_sub [of "Some (nat (- cnt))" v "rev l"]
  by (simp add: lrem_def Let_def case_prod_unfold)

lemma fold_push_set:
  assumes "\<And>a l. set (push a l) = insert a (set l)"
  shows "set (fold (\<lambda>a. push (NanoObj_copy a)) args l) = set l \<union> NanoObj_copy ` set args"
  by (induction args arbitrary: l) (auto simp: assms)

context db_contract
begin

lemma poke_list_P:
  assumes "P db" "V obj" "GetListObj obj = Some l"
    and "\<And>x. x \<in> set l' \<Longrightarrow> x \<in> set l \<or> (\<exists>a s. x = NanoObj_copy a \<and> (K a \<or> a \<in> set l) \<or> x = FromKey s)"
  shows "P (poke_list key obj l' db)"
  unfolding poke_list_def by (rule P_Poke [OF assms(1) V_put_list [OF assms(2-4)]])

lemma poke_list_intro:
  assumes "P db" "V obj" "GetListObj obj \<noteq> None"
    and "\<And>x. x \<in> set l' \<Longrightarrow> x \<in> set (the (GetListObj obj)) \<or>
      (\<exists>a s. x = NanoObj_copy a \<and> (K a \<or> a \<in> set (the (GetListObj obj))) \<or> x = FromKey s)"
  shows "P (poke_list key obj l' db)"
  using assms poke_list_P [of db obj "the (GetListObj obj)" l'] by auto

lemma poke_list_or_del_P:
  assumes "P db" "V obj" "GetListObj obj = Some l" "set l' \<subseteq> set l"
  shows "P (poke_list_or_del now key obj l' db)"
proof -
  have p: "P (poke_list key obj l' db)" by (rule poke_list_P [OF assms(1-3)]) (use assms(4) in auto)
  show ?thesis using p P_Del [OF p, of now key] by (cases "l' = []") (simp_all add: poke_list_or_del_def Let_def)
qed

lemma poke_del_intro:
  "P db \<Longrightarrow> V obj \<Longrightarrow> GetListObj obj \<noteq> None \<Longrightarrow> set l' \<subseteq> set (the (GetListObj obj)) \<Longrightarrow>
     P (poke_list_or_del now key obj l' db)"
  using poke_list_or_del_P by fastforce

lemma push_body_P:
  assumes "P db" "list_all K args" "2 < length args" "push_body push e args db = Inr (r, db')"
    and "\<And>a l. set (push a l) = insert a (set l)"
  shows "P db'"
proof -
  obtain obj d l where o: "open_as IsList (SetObj (ListDeque []) FromList) (clk e) (args ! 1) db = Inr (obj, d)"
    "GetListObj obj = Some l" "db' = poke_list (args ! 1) obj (fold (\<lambda>a. push (NanoObj_copy a)) (drop 2 args) l) d"
    using assms(4) by (auto simp: push_body_def Let_def elim!: bind_r_InrE)
  have k: "K (args ! 1)" using assms(2,3) by (simp add: arg_K)
  have "K a" if "a \<in> set (drop 2 args)" for a using assms(2) in_set_dropD [OF that] by (simp add: list_all_iff)
  then show ?thesis unfolding o(3)
    by (intro poke_list_P [OF open_as_P [OF assms(1) k V_list o(1)] o(2)]) (auto simp: fold_push_set [OF assms(5)])
qed

lemma LPush_keeps: "keeps W P K LPush" and RPush_keeps: "keeps W P K RPush"
  by (rule keepsI; auto simp: LPush_def RPush_def split: if_splits elim!: with_db_all [rotated] push_body_P [rotated 3])+

lemma pop_body_P:
  assumes "P db" "pop_body front pop e args db = Inr (r, db')" "\<And>l. l \<noteq> [] \<Longrightarrow> set (pop l) \<subseteq> set l"
  shows "P db'"
  using assms(1,2) pop_loop_sub [OF assms(3), THEN subsetD] assms(3) [THEN subsetD]
  by (auto simp: pop_body_def Let_def case_prod_unfold split: if_split_asm option.split_asm
      elim!: lookup_as_P [rotated] bind_r_InrE intro!: poke_del_intro)

lemma LPop_keeps: "keeps W P K LPop" and RPop_keeps: "keeps W P K RPop"
  by (rule keepsI; auto simp: LPop_def RPop_def split: if_splits elim!: with_db_all [rotated] pop_body_P [rotated]
      dest: list.set_sel(2) in_set_butlastD)+

lemma LLen_keeps: "keeps W P K LLen" and LIndex_keeps: "keeps W P K LIndex" and LRange_keeps: "keeps W P K LRange"
  by (rule keepsI; auto simp: LLen_def LIndex_def LRange_def Let_def split: if_split_asm option.split_asm
      elim!: with_db_all [rotated] lookup_as_P [rotated] bind_r_InrE)+

lemma LSet_keeps: "keeps W P K LSet"
proof (rule keepsI)
  fix e args w r w'
  assume a: "list_all K args" and w: "world_in W P w" and r: "LSet e args w = Inr (r, w')"
  have poke: "P (poke_list key obj (l[i := NanoObj_copy (args ! 3)]) d)"
    if "P d" "V obj" "GetListObj obj = Some l" "length args = 4" for d obj l i key
    using that arg_K [OF a, of 3] by (intro poke_list_P [OF that(1-3)]) (auto dest!: set_update_subset_insert [THEN subsetD])
  show "world_in W P w'"
    using r w by (auto simp: LSet_def Let_def split: if_split_asm option.split_asm
        elim!: with_db_all [rotated] lookup_as_P [rotated] bind_r_InrE intro!: poke)
qed

lemma LTrim_keeps: "keeps W P K LTrim"
proof (rule keepsI)
  fix e args w r w'
  assume w: "world_in W P w" and r: "LTrim e args w = Inr (r, w')"
  have poke: "P (poke_list key obj (map (\<lambda>i. NanoObj_copy (l ! nat i)) [range_start s n..t]) d)"
    if "P d" "V obj" "GetListObj obj = Some l" "t < int (length l)" for d obj l s n t key
  proof (rule poke_list_P [OF that(1-3)])
    fix x
    assume "x \<in> set (map (\<lambda>i. NanoObj_copy (l ! nat i)) [range_start s n..t])"
    then obtain i where i: "x = NanoObj_copy (l ! nat i)" "i \<le> t" "range_start s n \<le> i" by auto
    moreover have "nat i < length l" using i(2,3) that(4) by (auto simp: range_start_def split: if_splits)
    ultimately show "x \<in> set l \<or> (\<exists>a s. x = NanoObj_copy a \<and> (K a \<or> a \<in> set l) \<or> x = FromKey s)"
      using nth_mem by blast
  qed
  show "world_in W P w'"
    using r w by (auto simp: LTrim_def Let_def P_Del split: if_split_asm option.split_asm
        elim!: with_db_all [rotated] lookup_as_P [rotated] bind_r_InrE intro!: poke)
qed

lemma LRem_keeps: "keeps W P K LRem"
  by (rule keepsI) (auto simp: LRem_def Let_def case_prod_unfold split: if_split_asm option.split_asm
      elim!: with_db_all [rotated] lookup_as_P [rotated] bind_r_InrE intro!: poke_del_intro dest!: lrem_sub [THEN subsetD])

lemma LInsert_keeps: "keeps W P K LInsert"
  by (rule keepsI) (auto simp: LInsert_def Let_def insert_at_def split: if_split_asm option.split_asm
      elim!: with_db_all [rotated] lookup_as_P [rotated] bind_r_InrE intro!: poke_list_intro dest!: in_set_takeD in_set_dropD)

end

section \<open>Lists as seen by a client\<close>

interpretation lk: container_kind IsList GetListObj ListDeque "SetObj (ListDeque []) FromList" "[]"
proof
  show "IsList (SetObj (ListDeque []) FromList)" "GetListObj (SetObj (ListDeque []) FromList) = Some []"
    by (simp_all add: FromList_def InitRobj_def IsList_def)
  show "IsList (SetObj (ListDeque c) obj) = IsList obj" for c obj by (simp add: IsList_def SetObj_type)
  show "GetListObj (SetObj (ListDeque c) obj) = Some c" if "IsList obj" for c obj
    using SetObj_robj [OF that [unfolded IsList_def], of "ListDeque c"] by auto
  show "GetListObj obj \<noteq> None" if o: "obj_ok obj" "IsList obj" for obj
  proof -
    obtain c sz enc where c: "obj = RobjObj (Robj (Some c) sz OBJ_LIST enc)" "container_ok OBJ_LIST c"
      using obj_ok_robj [OF o(1) o(2) [unfolded IsList_def]] by blast
    then show ?thesis by (cases c) (simp_all add: OBJ_HASH_def OBJ_SET_def OBJ_LIST_def)
  qed
qed

text \<open>The strings that a key holds, in order; none if the key holds no list.\<close>

definition list_value :: "nano_obj option \<Rightarrow> nano_obj list" where
  "list_value v = the (GetListObj (kind_value IsList (SetObj (ListDeque []) FromList) v))"

definition list_of :: "nano_obj option \<Rightarrow> string list" where
  "list_of v = map ToString (list_value v)"

lemma list_of_put: "list_of (Some (SetObj (ListDeque l) (kind_value IsList (SetObj (ListDeque []) FromList) v))) = map ToString l"
  by (simp add: list_of_def list_value_def lk.put_value)

lemma list_value_ok:
  assumes "\<And>obj. v = Some obj \<Longrightarrow> obj_ok obj"
  shows "list_all scalar_ok (list_value v)"
proof (cases "has_kind IsList v")
  case True
  then obtain obj where obj: "v = Some obj" "IsList obj" by (auto simp: has_kind_def split: option.splits)
  with lk.get_kind [OF assms [OF obj(1)] obj(2)] list_elems_ok [OF assms [OF obj(1)]] show ?thesis
    by (auto simp: list_value_def kind_value_def list_all_iff)
next
  case False
  then show ?thesis by (simp add: list_value_def lk.value_absent)
qed

lemma push_world:
  assumes w: "world_all db_ok w" "GetDB w = Some db" and k: "NanoObj_eq k k"
    and t: "clk e 0 \<le> clk e 1" "clk e 1 \<le> clk e 2" and v: "list_all scalar_ok vs"
    and L: "L = list_of (visible w (clk e 0) k)"
    and push: "\<And>l. map ToString (fold push vs l) = pushed (map ToString l)"
  shows "with_db (push_body push e (c # k # vs)) w = Inl BadAlloc \<or>
    (\<exists>obj w'. with_db (push_body push e (c # k # vs)) w = Inr (MakeInteger (int (length (pushed L))), w') \<and>
       stored_as IsList w (clk e 0) (clk e 2) k obj w' \<and> list_of (Some obj) = pushed L)"
proof -
  have i: "world_inv w" using w(1) by (simp add: world_in_def)
  let ?v = "visible w (clk e 0) k" and ?f = "fold push vs"
  let ?g = "\<lambda>l. MakeInteger (int (length (?f l)))"
  obtain l where l: "GetListObj (kind_value IsList (SetObj (ListDeque []) FromList) ?v) = Some l" by (rule lk.visible_get [OF w])
  have L': "L = map ToString l" using l by (simp add: L list_of_def list_value_def)
  have cp: "fold (\<lambda>a. push (NanoObj_copy a)) vs l = ?f l" for l
    using v by (induction vs arbitrary: l) auto
  have b: "push_body push e (c # k # vs) = (\<lambda>db. bind_r (open_as IsList (SetObj (ListDeque []) FromList) (clk e) k db)
      (\<lambda>(obj, db). bind_r (deref (GetListObj obj)) (\<lambda>l. Inr (?g l, Database_Poke k (SetObj (ListDeque (?f l)) obj) db))))"
    by (simp add: fun_eq_iff push_body_def poke_list_def Let_def cp)
  have "length (?f l) = length (pushed L)" using push [of l] by (metis L' length_map)
  moreover have "list_of (Some (SetObj (ListDeque (?f l)) (kind_value IsList (SetObj (ListDeque []) FromList) ?v))) = pushed L"
    by (simp add: list_of_put push L')
  ultimately show ?thesis
    unfolding b using lk.open_world [OF i w(2) k t l, where reply = ?g and f = ?f, OF refl] by auto
qed

lemma RPush_list:
  assumes w: "world_all db_ok w" "GetDB w = Some db" and k: "NanoObj_eq k k"
    and t: "clk e 0 \<le> clk e 1" "clk e 1 \<le> clk e 2" and v: "list_all scalar_ok vs" "vs \<noteq> []"
    and L: "L = list_of (visible w (clk e 0) k)"
  shows "RPush e (c # k # vs) w = Inl BadAlloc \<or>
    (\<exists>obj w'. RPush e (c # k # vs) w = Inr (MakeInteger (int (length (L @ map ToString vs))), w') \<and>
       stored_as IsList w (clk e 0) (clk e 2) k obj w' \<and> list_of (Some obj) = L @ map ToString vs)"
proof -
  have "map ToString (fold (\<lambda>a l. l @ [a]) vs l) = map ToString l @ map ToString vs" for l
    by (induction vs arbitrary: l) auto
  from push_world [OF w k t v(1) L this, of c] v(2) show ?thesis by (cases vs) (simp_all add: RPush_def)
qed

lemma LPush_list:
  assumes w: "world_all db_ok w" "GetDB w = Some db" and k: "NanoObj_eq k k"
    and t: "clk e 0 \<le> clk e 1" "clk e 1 \<le> clk e 2" and v: "list_all scalar_ok vs" "vs \<noteq> []"
    and L: "L = list_of (visible w (clk e 0) k)"
  shows "LPush e (c # k # vs) w = Inl BadAlloc \<or>
    (\<exists>obj w'. LPush e (c # k # vs) w = Inr (MakeInteger (int (length (rev (map ToString vs) @ L))), w') \<and>
       stored_as IsList w (clk e 0) (clk e 2) k obj w' \<and> list_of (Some obj) = rev (map ToString vs) @ L)"
proof -
  have "map ToString (fold (\<lambda>a l. a # l) vs l) = rev (map ToString vs) @ map ToString l" for l
    by (induction vs arbitrary: l) auto
  from push_world [OF w k t v(1) L this, of c] v(2) show ?thesis by (cases vs) (simp_all add: LPush_def)
qed

text \<open>The effect of a command that leaves the list \<open>L\<close> at a key, which is deleted when empty.\<close>

definition list_left :: "world \<Rightarrow> int \<Rightarrow> int \<Rightarrow> nano_obj \<Rightarrow> string list \<Rightarrow> world \<Rightarrow> bool" where
  "list_left w t t' k L w' \<longleftrightarrow>
     (if L = [] then removed w t' k w' else \<exists>obj. stored_as IsList w t t' k obj w' \<and> list_of (Some obj) = L)"

lemma pop_world:
  assumes w: "world_all db_ok w" "GetDB w = Some db" and t: "clk e 0 \<le> clk e 1"
    and L: "L = list_of (visible w (clk e 0) k)"
    and front: "\<And>l. l \<noteq> [] \<Longrightarrow> ToString (front l) = front' (map ToString l)"
    and pop: "\<And>l. map ToString (pop l) = pop' (map ToString l)"
  shows "if L = [] then \<exists>w'. with_db (pop_body front pop e [c, k]) w = Inr (MakeNullBulkString, w') \<and> unchanged w (clk e 0) w'
    else \<exists>w'. with_db (pop_body front pop e [c, k]) w = Inr (MakeBulkString (front' L), w') \<and>
       list_left w (clk e 0) (clk e 1) k (pop' L) w'"
proof (cases "has_kind IsList (visible w (clk e 0) k)")
  case True
  have i: "world_inv w" using w(1) by (simp add: world_in_def)
  let ?p = "PruneExpiredInDB (current_db db) k (clk e 0) db"
  obtain obj l where o: "visible w (clk e 0) k = Some obj" "IsList obj" "GetListObj obj = Some l"
    and run: "\<And>(absent :: string) f. with_db (lookup_as IsList (clk e 0) k absent f) w =
       bind_r (f obj ?p) (\<lambda>(r, db). Inr (r, put_db db w))"
    by (rule lk.found_world [OF w True]) simp_all
  have l: "L = map ToString l" using o by (simp add: L list_of_def list_value_def kind_value_def)
  have kv: "kind_value IsList (SetObj (ListDeque []) FromList) (visible w (clk e 0) k) = obj" using o by (simp add: kind_value_def)
  show ?thesis
  proof (cases "l = []")
    case True
    then show ?thesis using unchanged_pruned(2) [OF i w(2)] run o(3) l by (simp add: pop_body_def deref_def)
  next
    case False
    have "pop l = [] \<longleftrightarrow> pop' L = []" using pop [of l] l by (metis map_is_Nil_conv)
    moreover have "list_of (Some (SetObj (ListDeque (pop l)) obj)) = pop' L" using list_of_put [of "pop l" "visible w (clk e 0) k"] pop l
      by (simp add: kv)
    ultimately show ?thesis
      using run False front [OF False] poke_pruned [OF i w(2) True t] poke_del [OF i w(2) t] l
      by (auto simp: pop_body_def deref_def o(3) poke_list_or_del_def poke_list_def Let_def list_left_def simp del: One_nat_def)
  qed
next
  case False
  have i: "world_inv w" using w(1) by (simp add: world_in_def)
  have "L = []" using lk.value_absent [OF False] by (simp add: L list_of_def list_value_def)
  then show ?thesis using False unchanged_pruned [OF i w(2)] by (auto simp: pop_body_def lookup_world [OF i w(2)] Let_def)
qed

lemma LLen_list:
  assumes "world_all db_ok w" "GetDB w = Some db"
  shows "\<exists>w'. LLen e [c, k] w = Inr (MakeInteger (int (length (list_of (visible w (clk e 0) k)))), w') \<and> unchanged w (clk e 0) w'"
  using lk.read_world [OF assms, of "clk e 0" k "\<lambda>l. MakeInteger (int (length l))"]
  by (auto simp: LLen_def list_of_def list_value_def)

text \<open>The elements of a list between two positions; a negative position counts from the end.\<close>

definition list_slice :: "int \<Rightarrow> int \<Rightarrow> 'a list \<Rightarrow> 'a list" where
  "list_slice start stop l =
     (let pos = (\<lambda>i. if i < 0 then i + int (length l) else i)
      in map (\<lambda>i. l ! i) (filter (\<lambda>i. pos start \<le> int i \<and> int i \<le> pos stop) [0..<length l]))"

lemma list_slice_map: "list_slice a b (map f l) = map f (list_slice a b l)"
  by (simp add: list_slice_def Let_def)

lemma list_slice_range:
  fixes l :: "'a list" and start stop :: int
  defines "len \<equiv> int (length l)"
  defines "a \<equiv> range_start start len" and "b \<equiv> (if range_stop stop len \<ge> len then len - 1 else range_stop stop len)"
  shows "list_slice start stop l = (if a \<ge> len \<or> a > b then [] else map (\<lambda>i. l ! nat i) [a..b])"
proof -
  let ?pos = "\<lambda>i. if i < 0 then i + int (length l) else i"
  let ?is = "filter (\<lambda>i. ?pos start \<le> int i \<and> int i \<le> ?pos stop) [0..<length l]"
  have f: "?is = filter (\<lambda>i. a \<le> int i \<and> int i \<le> b) [0..<length l]"
    by (rule filter_cong) (auto simp: a_def b_def len_def range_start_def range_stop_def)
  show ?thesis
  proof (cases "a \<ge> len \<or> a > b")
    case True
    then have "?is = []" unfolding f by (auto simp: filter_empty_conv len_def)
    with True show ?thesis by (simp add: list_slice_def Let_def)
  next
    case False
    have a0: "0 \<le> a" by (simp add: a_def range_start_def len_def)
    have b: "b < len" using False a0 by (simp add: b_def split: if_splits)
    have "set ?is = set (map nat [a..b])"
    proof (rule set_eqI)
      fix x
      show "x \<in> set ?is \<longleftrightarrow> x \<in> set (map nat [a..b])"
        unfolding f using a0 b by (auto simp: len_def image_iff intro!: bexI [of _ "int x"])
    qed
    moreover have "sorted (map nat [a..b])" "distinct (map nat [a..b])"
      using a0 by (auto simp: sorted_map distinct_map inj_on_def intro!: sorted_wrt_mono_rel [OF _ sorted_upto])
    moreover have "sorted ?is" by (rule sorted_wrt_filter) simp
    ultimately have "?is = map nat [a..b]" by (intro sorted_distinct_set_unique) (simp_all only: distinct_filter distinct_upt)
    with False show ?thesis by (simp add: list_slice_def Let_def)
  qed
qed

lemma LRange_list:
  assumes w: "world_all db_ok w" "GetDB w = Some db"
    and a: "ParseLongLong (ToString x) = Some start" "ParseLongLong (ToString y) = Some stop"
  shows "\<exists>w'. LRange e [c, k, x, y] w = Inr (bulk_array (list_slice start stop (list_of (visible w (clk e 0) k))), w') \<and>
    unchanged w (clk e 0) w'"
proof -
  let ?g = "\<lambda>l. bulk_array (map ToString (list_slice start stop l))"
  have g: "(let len = int (length l); start = range_start start len; stop = range_stop stop len
        in if start \<ge> len then Inr (MakeArray 0, db)
           else let stop = (if stop \<ge> len then len - 1 else stop)
                in if start > stop then Inr (MakeArray 0, db)
                   else Inr (MakeArray (stop - start + 1) @
                          concat (map (\<lambda>i. MakeBulkString (ToString (l ! nat i))) [start..stop]), db)) =
      (Inr (?g l, db) :: (string \<times> database) result)" for l db
    using list_slice_range [of start stop l] by (auto simp: Let_def bulk_array_def comp_def)
  have e: "?g [] = MakeArray 0" by (simp add: list_slice_def bulk_array_def)
  have "LRange e [c, k, x, y] w = with_db (lookup_as IsList (clk e 0) k (?g []) (\<lambda>obj db.
      bind_r (deref (GetListObj obj)) (\<lambda>l. Inr (?g l, db)))) w"
    unfolding e LRange_def using a by (simp add: g del: bind_r.simps)
  with lk.read_world [OF w, of "clk e 0" k ?g] show ?thesis by (auto simp: list_of_def list_value_def list_slice_map)
qed

lemma del_pruned:
  assumes w: "world_inv w" "GetDB w = Some db" and t: "t \<le> t'"
  shows "removed w t' k (put_db (fst (Database_Del t' k (PruneExpiredInDB (current_db db) k t db))) w)"
proof -
  let ?i = "current_db db" and ?q = "PruneExpiredInDB (current_db db) k t db"
  note i = GetDB_inv(1) [OF w] and V = GetDB_visible [OF w]
  note P = prune_current [OF i, where k = k and now = t]
  note D = Del_ok [OF P(1) prod.collapse [symmetric], where now = t' and k = k]
  have "db_view (fst (Database_Del t' k ?q)) ?i now k' = (if NanoObj_eq k k' then None else db_view db ?i now k')"
    if "t' \<le> now" for now k'
    using D(4) [OF that, of ?i k'] P(2) P(3) [of now ?i k'] that t by auto
  moreover have "world_inv (put_db (fst (Database_Del t' k ?q)) w)" by (rule put_db_inv [OF w(1) D(1)])
  ultimately show ?thesis by (simp add: removed_def put_db_visible [OF w] V)
qed

lemma LTrim_list:
  assumes w: "world_all db_ok w" "GetDB w = Some db" and t: "clk e 0 \<le> clk e 1"
    and a: "ParseLongLong (ToString x) = Some start" "ParseLongLong (ToString y) = Some stop"
  shows "\<exists>w'. LTrim e [c, k, x, y] w = Inr (OkResponse, w') \<and>
    (if has_kind IsList (visible w (clk e 0) k)
     then list_left w (clk e 0) (clk e 1) k (list_slice start stop (list_of (visible w (clk e 0) k))) w'
     else unchanged w (clk e 0) w')"
proof (cases "has_kind IsList (visible w (clk e 0) k)")
  case True
  have i: "world_inv w" using w(1) by (simp add: world_in_def)
  let ?p = "PruneExpiredInDB (current_db db) k (clk e 0) db" and ?v = "visible w (clk e 0) k"
  obtain obj l where o: "?v = Some obj" "IsList obj" "GetListObj obj = Some l"
    and run: "\<And>(absent :: string) f. with_db (lookup_as IsList (clk e 0) k absent f) w =
       bind_r (f obj ?p) (\<lambda>(r, db). Inr (r, put_db db w))"
    by (rule lk.found_world [OF w True]) simp_all
  have lv: "list_value ?v = l" and kv: "kind_value IsList (SetObj (ListDeque []) FromList) ?v = obj"
    using o by (simp_all add: list_value_def kind_value_def)
  have sc: "list_all scalar_ok l" unfolding lv [symmetric] by (rule list_value_ok [OF visible_obj_ok [OF w]])
  let ?a = "range_start start (int (length l))" and ?s = "range_stop stop (int (length l))"
  let ?b = "if ?s \<ge> int (length l) then int (length l) - 1 else ?s"
  note S = list_slice_range [of start stop l]
  show ?thesis
  proof (cases "?a \<ge> int (length l) \<or> ?a > ?s")
    case gone: True
    then have "list_slice start stop l = []" using S by auto
    then have "list_slice start stop (list_of ?v) = []" by (simp add: list_of_def lv list_slice_map)
    moreover have "LTrim e [c, k, x, y] w = Inr (OkResponse, put_db (fst (Database_Del (clk e 1) k ?p)) w)"
      using gone a run by (simp add: LTrim_def deref_def o(3) Let_def del: One_nat_def)
    ultimately show ?thesis using True del_pruned [OF i w(2) t] by (simp add: list_left_def)
  next
    case False
    let ?l = "map (\<lambda>i. l ! nat i) [?a..?b]"
    have a0: "0 \<le> ?a" by (simp add: range_start_def)
    have sl: "list_slice start stop l = ?l" using S False by auto
    have ne: "?l \<noteq> []" using False by auto
    have "NanoObj_copy (l ! nat i) = l ! nat i" if "i \<in> set [?a..?b]" for i
      using that a0 False sc by (auto simp: list_all_length split: if_splits)
    then have cp: "map (\<lambda>i. NanoObj_copy (l ! nat i)) [?a..?b] = ?l" by simp
    have "LTrim e [c, k, x, y] w = Inr (OkResponse, put_db (Database_Poke k (SetObj (ListDeque ?l) obj) ?p) w)"
      unfolding cp [symmetric] using False a run
      by (simp add: LTrim_def deref_def o(3) Let_def poke_list_def del: One_nat_def)
    moreover have "list_of (Some (SetObj (ListDeque ?l) obj)) = list_slice start stop (list_of ?v)"
      using list_of_put [of ?l ?v] by (simp add: kv list_of_def [of ?v] lv list_slice_map sl)
    moreover have "list_slice start stop (list_of ?v) \<noteq> []" using ne by (simp add: list_of_def lv list_slice_map sl)
    ultimately show ?thesis using True poke_pruned [OF i w(2) True t] unfolding list_left_def by metis
  qed
next
  case False
  have i: "world_inv w" using w(1) by (simp add: world_in_def)
  then show ?thesis using False unchanged_pruned [OF i w(2)] by (auto simp: LTrim_def lookup_world [OF i w(2)] Let_def)
qed

section \<open>Properties of the list commands\<close>

text \<open>
  C30: on well-formed databases the list commands are operations on a double-ended sequence of
  strings: RPUSH appends, LPUSH prepends one after the other, LPOP and RPOP take an end and delete
  the key when nothing is left, and LLEN answers the length; no other key changes.
\<close>

theorem list_commands_refine_deque:
  assumes "world_all db_ok w" "GetDB w = Some db" "NanoObj_eq k k" "clk e 0 \<le> clk e 1" "clk e 1 \<le> clk e 2"
    "list_all scalar_ok vs" "vs \<noteq> []" "L = list_of (visible w (clk e 0) k)"
  shows "(RPush e (c # k # vs) w = Inl BadAlloc \<or>
      (\<exists>obj w'. RPush e (c # k # vs) w = Inr (MakeInteger (int (length (L @ map ToString vs))), w') \<and>
         stored_as IsList w (clk e 0) (clk e 2) k obj w' \<and> list_of (Some obj) = L @ map ToString vs)) \<and>
    (LPush e (c # k # vs) w = Inl BadAlloc \<or>
      (\<exists>obj w'. LPush e (c # k # vs) w = Inr (MakeInteger (int (length (rev (map ToString vs) @ L))), w') \<and>
         stored_as IsList w (clk e 0) (clk e 2) k obj w' \<and> list_of (Some obj) = rev (map ToString vs) @ L)) \<and>
    (if L = [] then (\<exists>w'. LPop e [c, k] w = Inr (MakeNullBulkString, w') \<and> unchanged w (clk e 0) w') \<and>
        (\<exists>w'. RPop e [c, k] w = Inr (MakeNullBulkString, w') \<and> unchanged w (clk e 0) w')
     else (\<exists>w'. LPop e [c, k] w = Inr (MakeBulkString (hd L), w') \<and> list_left w (clk e 0) (clk e 1) k (tl L) w') \<and>
        (\<exists>w'. RPop e [c, k] w = Inr (MakeBulkString (last L), w') \<and> list_left w (clk e 0) (clk e 1) k (butlast L) w')) \<and>
    (\<exists>w'. LLen e [c, k] w = Inr (MakeInteger (int (length L)), w') \<and> unchanged w (clk e 0) w')"
  using RPush_list [OF assms, of c] LPush_list [OF assms, of c] LLen_list [OF assms(1,2), of e c k, folded assms(8)]
    pop_world [OF assms(1,2,4,8), of hd hd tl tl c] pop_world [OF assms(1,2,4,8), of last last butlast butlast c]
  by (simp add: LPop_def RPop_def hd_map last_map map_tl map_butlast split: if_splits del: One_nat_def)

theorem list_commands_refine_deque_witness:
  "\<exists>db w'. db_get db 0 (FromKey ''l'') = Some (RobjObj (Robj (Some (ListDeque [FromKey ''a'', FromKey ''b''])) 0 OBJ_LIST OBJ_ENCODING_RAW)) \<and>
     LPop (env_at 5) [FromKey ''LPOP'', FromKey ''l''] (legacy_world db) = Inr (MakeBulkString ''a'', w')"
proof -
  let ?o = "RobjObj (Robj (Some (ListDeque [FromKey ''a'', FromKey ''b''])) 0 OBJ_LIST OBJ_ENCODING_RAW)" and ?k = "FromKey ''l''"
  obtain db where db: "small (Suc 0) db" "db_ok db" "current_db db = 0" "db_get db 0 ?k = Some ?o"
    "world_all db_ok (legacy_world db)" "GetDB (legacy_world db) = Some db" "\<And>t. visible (legacy_world db) t ?k = Some ?o"
    by (rule one_object [of ?o "''l''"]) (simp_all add: FromKey_ok)
  have s: "list_of (Some ?o) = [''a'', ''b'']"
    by (simp add: list_of_def list_value_def kind_value_def IsList_def ToString_FromKey_short)
  have "\<exists>w'. LPop (env_at 5) [FromKey ''LPOP'', ?k] (legacy_world db) = Inr (MakeBulkString (hd [''a'', ''b'']), w')"
    using list_commands_refine_deque [OF db(5,6) FromKey_refl [of "''l''"], where e = "env_at 5" and vs = "[?k]"
        and L = "[''a'', ''b'']" and c = "FromKey ''LPOP''"]
    unfolding env_at_clk db(7) s by (auto simp: FromKey_ok)
  then show ?thesis using db(4) by auto
qed

text \<open>
  C31: LRANGE answers, and LTRIM keeps, exactly the elements whose index lies between the two given
  positions, where a negative position counts from the end; LTRIM deletes the key when there are none.
\<close>

theorem list_slices:
  assumes "world_all db_ok w" "GetDB w = Some db" "clk e 0 \<le> clk e 1" "ParseLongLong (ToString x) = Some start"
    "ParseLongLong (ToString y) = Some stop" "L = list_of (visible w (clk e 0) k)"
  shows "(\<exists>w'. LRange e [c, k, x, y] w = Inr (bulk_array (list_slice start stop L), w') \<and> unchanged w (clk e 0) w') \<and>
    (\<exists>w'. LTrim e [c, k, x, y] w = Inr (OkResponse, w') \<and>
      (if has_kind IsList (visible w (clk e 0) k) then list_left w (clk e 0) (clk e 1) k (list_slice start stop L) w'
       else unchanged w (clk e 0) w'))"
  using LRange_list [OF assms(1,2,4,5)] LTrim_list [OF assms(1-5)] unfolding assms(6) by blast

theorem list_slices_witness:
  "\<exists>db w'. db_get db 0 (FromKey ''l'') = Some (RobjObj (Robj (Some (ListDeque [FromKey ''a'', FromKey ''b''])) 0 OBJ_LIST OBJ_ENCODING_RAW)) \<and>
     LRange (env_at 5) [FromKey ''LRANGE'', FromKey ''l'', IntObj 1, IntObj (- 1)] (legacy_world db) = Inr (bulk_array [''b''], w')"
proof -
  let ?o = "RobjObj (Robj (Some (ListDeque [FromKey ''a'', FromKey ''b''])) 0 OBJ_LIST OBJ_ENCODING_RAW)" and ?k = "FromKey ''l''"
  obtain db where db: "small (Suc 0) db" "db_ok db" "current_db db = 0" "db_get db 0 ?k = Some ?o"
    "world_all db_ok (legacy_world db)" "GetDB (legacy_world db) = Some db" "\<And>t. visible (legacy_world db) t ?k = Some ?o"
    by (rule one_object [of ?o "''l''"]) (simp_all add: FromKey_ok)
  have s: "list_of (Some ?o) = [''a'', ''b'']"
    by (simp add: list_of_def list_value_def kind_value_def IsList_def ToString_FromKey_short)
  have p: "ParseLongLong (ToString (IntObj 1)) = Some 1" "ParseLongLong (ToString (IntObj (- 1))) = Some (- 1)"
    by (simp_all add: ParseLongLong_to_string INT64_MAX_def INT64_MIN_def)
  have sl: "list_slice 1 (- 1) [''a'', ''b''] = [''b'']" by (simp add: list_slice_def)
  have c: "clk (env_at 5) 0 \<le> clk (env_at 5) 1" by simp
  have "\<exists>w'. LRange (env_at 5) [FromKey ''LRANGE'', ?k, IntObj 1, IntObj (- 1)] (legacy_world db) =
      Inr (bulk_array (list_slice 1 (- 1) [''a'', ''b'']), w')"
    using list_slices [OF db(5,6) c p refl, where k = ?k and c = "FromKey ''LRANGE''"] by (auto simp: db(7) s)
  then show ?thesis using db(4) unfolding sl by blast
qed

end
