(* ===== verification/Rdb_Serializer.thy ===== *)
theory Rdb_Serializer
  imports Nano_Obj
begin

unbundle bit_operations_syntax

text \<open>
  The writer of dump files: \<open>src/core/rdb_serializer.cc\<close>, \<open>include/core/rdb_serializer.h\<close> and
  \<open>include/core/rdb_defs.h\<close>.  A byte is a \<open>char\<close>.  \<open>std::error_code\<close> is \<open>errc option\<close>, where
  \<open>None\<close> is success; an operation is a function from the serializer to its error code and the new
  serializer, because the bytes written before an error stay written.

  The sink is the file behind \<open>FileSink\<close>: \<open>append_error s n\<close> is what the \<open>n\<close>-th call of
  \<open>Append\<close> answers, and the bytes of the successful calls are kept in order.  Multi-byte fields
  are written in the byte order of the machine, which is little-endian.
\<close>

section \<open>The format\<close>

datatype errc = bad_file_descriptor | invalid_argument | io_error | not_supported

definition kNrdbMagic :: string where "kNrdbMagic = ''NRDB0001''"

definition NRDB_OPCODE_DB_SELECT :: nat where "NRDB_OPCODE_DB_SELECT = 0xF0"
definition NRDB_OPCODE_DB_SIZE :: nat where "NRDB_OPCODE_DB_SIZE = 0xF1"
definition NRDB_OPCODE_EXPIRE_MS :: nat where "NRDB_OPCODE_EXPIRE_MS = 0xFD"
definition NRDB_OPCODE_EOF :: nat where "NRDB_OPCODE_EOF = 0xFF"
definition NRDB_OBJ_STRING :: nat where "NRDB_OBJ_STRING = 0"
definition NRDB_OBJ_INT :: nat where "NRDB_OBJ_INT = 1"
definition NRDB_OBJ_HASH :: nat where "NRDB_OBJ_HASH = 2"
definition NRDB_OBJ_SET :: nat where "NRDB_OBJ_SET = 3"
definition NRDB_OBJ_LIST :: nat where "NRDB_OBJ_LIST = 4"
definition NRDB_OBJ_ZSET :: nat where "NRDB_OBJ_ZSET = 5"

named_theorems nrdb_consts "the opcodes of the format"

declare NRDB_OPCODE_DB_SELECT_def [nrdb_consts] NRDB_OPCODE_DB_SIZE_def [nrdb_consts]
  NRDB_OPCODE_EXPIRE_MS_def [nrdb_consts] NRDB_OPCODE_EOF_def [nrdb_consts]
  NRDB_OBJ_STRING_def [nrdb_consts] NRDB_OBJ_INT_def [nrdb_consts] NRDB_OBJ_HASH_def [nrdb_consts]
  NRDB_OBJ_SET_def [nrdb_consts] NRDB_OBJ_LIST_def [nrdb_consts] NRDB_OBJ_ZSET_def [nrdb_consts]

section \<open>The checksum\<close>

definition crc_bit :: "32 word \<Rightarrow> 32 word" where
  "crc_bit c = (drop_bit 1 c) XOR (0xEDB88320 AND - (c AND 1))"

definition crc_byte :: "char \<Rightarrow> 32 word \<Rightarrow> 32 word" where
  "crc_byte b c = (crc_bit ^^ 8) (c XOR of_char b)"

definition BuildCrc32 :: "32 word \<Rightarrow> string \<Rightarrow> 32 word" where
  "BuildCrc32 crc data = fold crc_byte data (crc XOR 0xFFFFFFFF) XOR 0xFFFFFFFF"

section \<open>Writing\<close>

record rdb_serializer =
  has_sink :: bool
  append_error :: "nat \<Rightarrow> errc option"
  append_calls :: nat
  sink_bytes :: string
  ser_shard_id :: nat
  ser_num_shards :: nat
  last_dbid :: nat
  ser_checksum :: "32 word"

type_synonym save = "rdb_serializer \<Rightarrow> errc option \<times> rdb_serializer"

definition RdbSerializer_new :: "bool \<Rightarrow> (nat \<Rightarrow> errc option) \<Rightarrow> nat \<Rightarrow> nat \<Rightarrow> rdb_serializer" where
  "RdbSerializer_new sink errors shard_id num_shards =
     \<lparr>has_sink = sink, append_error = errors, append_calls = 0, sink_bytes = [], ser_shard_id = shard_id,
      ser_num_shards = num_shards, last_dbid = 2 ^ 32 - 1, ser_checksum = 0\<rparr>"

text \<open>The early return of \<open>if (ec) return ec;\<close> between two steps.\<close>

definition and_then :: "save \<Rightarrow> save \<Rightarrow> save" where
  "and_then f g s = (case f s of (Some ec, s) \<Rightarrow> (Some ec, s) | (None, s) \<Rightarrow> g s)"

primrec save_all :: "('a \<Rightarrow> save) \<Rightarrow> 'a list \<Rightarrow> save" where
  "save_all f [] s = (None, s)"
| "save_all f (x # xs) s = and_then (f x) (save_all f xs) s"

definition save_fail :: "errc \<Rightarrow> save" where
  "save_fail ec s = (Some ec, s)"

definition WriteRaw :: "string \<Rightarrow> save" where
  "WriteRaw buf s =
     (if \<not> has_sink s then (Some bad_file_descriptor, s)
      else if buf = [] then (None, s)
      else
        let ec = append_error s (append_calls s);
            s = s\<lparr>append_calls := append_calls s + 1\<rparr>
        in case ec of
             Some ec \<Rightarrow> (Some ec, s)
           | None \<Rightarrow> (None, s\<lparr>sink_bytes := sink_bytes s @ buf, ser_checksum := BuildCrc32 (ser_checksum s) buf\<rparr>))"

definition WriteOpcode :: "nat \<Rightarrow> save" where
  "WriteOpcode opcode = WriteRaw [char_of opcode]"

text \<open>The loop that fills \<open>buf\<close> in \<open>SaveLen\<close>.\<close>

fun len_bytes :: "nat \<Rightarrow> string" where
  "len_bytes len =
     (if len div 128 = 0 then [char_of (len mod 128)]
      else char_of (len mod 128 + 128) # len_bytes (len div 128))"

declare len_bytes.simps [simp del]

definition SaveLen :: "nat \<Rightarrow> save" where
  "SaveLen len = WriteRaw (len_bytes len)"

definition SaveString :: "string \<Rightarrow> save" where
  "SaveString val = and_then (SaveLen (length val)) (WriteRaw val)"

text \<open>The \<open>n\<close> bytes of an unsigned integer in memory.\<close>

definition le_bytes :: "nat \<Rightarrow> nat \<Rightarrow> string" where
  "le_bytes n v = map (\<lambda>i. char_of (v div 256 ^ i mod 256)) [0..<n]"

definition SaveIntObject :: "nano_obj \<Rightarrow> save" where
  "SaveIntObject obj = WriteRaw (le_bytes 8 (nat (AsInt obj mod 2 ^ 64)))"

definition SaveHashObject :: "nano_obj \<Rightarrow> save" where
  "SaveHashObject obj =
     (case GetHashObj obj of
        None \<Rightarrow> save_fail invalid_argument
      | Some hash \<Rightarrow> and_then (SaveLen (length hash))
          (save_all (\<lambda>(field, value). and_then (SaveString field) (SaveString value)) hash))"

definition SaveSetObject :: "nano_obj \<Rightarrow> save" where
  "SaveSetObject obj =
     (case GetSetObj obj of
        None \<Rightarrow> save_fail invalid_argument
      | Some s \<Rightarrow> and_then (SaveLen (length s)) (save_all SaveString s))"

definition item_string :: "nano_obj \<Rightarrow> string" where
  "item_string item = (if IsString item then GetStringView item else ToString item)"

definition SaveListObject :: "nano_obj \<Rightarrow> save" where
  "SaveListObject obj =
     (case GetListObj obj of
        None \<Rightarrow> save_fail invalid_argument
      | Some l \<Rightarrow> and_then (SaveLen (length l)) (save_all (\<lambda>item. SaveString (item_string item)) l))"

definition SaveZsetObject :: "nano_obj \<Rightarrow> save" where
  "SaveZsetObject obj = save_fail not_supported"

definition SaveObjectTypeOpcode :: "nano_obj \<Rightarrow> save" where
  "SaveObjectTypeOpcode obj =
     (if IsInt obj then WriteOpcode NRDB_OBJ_INT
      else if GetType obj = OBJ_STRING then WriteOpcode NRDB_OBJ_STRING
      else if GetType obj = OBJ_HASH then WriteOpcode NRDB_OBJ_HASH
      else if GetType obj = OBJ_SET then WriteOpcode NRDB_OBJ_SET
      else if GetType obj = OBJ_LIST then WriteOpcode NRDB_OBJ_LIST
      else if GetType obj = OBJ_ZSET then WriteOpcode NRDB_OBJ_ZSET
      else save_fail invalid_argument)"

definition SaveObjectData :: "nano_obj \<Rightarrow> save" where
  "SaveObjectData obj =
     (if IsInt obj then SaveIntObject obj
      else if GetType obj = OBJ_STRING then SaveString (GetStringView obj)
      else if GetType obj = OBJ_HASH then SaveHashObject obj
      else if GetType obj = OBJ_SET then SaveSetObject obj
      else if GetType obj = OBJ_LIST then SaveListObject obj
      else if GetType obj = OBJ_ZSET then SaveZsetObject obj
      else save_fail invalid_argument)"

text \<open>\<open>now_ms\<close> is the reading of the system clock.\<close>

definition SaveHeader :: "nat \<Rightarrow> save" where
  "SaveHeader now_ms s =
     and_then (WriteRaw kNrdbMagic)
    (and_then (WriteRaw (le_bytes 4 (ser_shard_id s)))
    (and_then (WriteRaw (le_bytes 4 (ser_num_shards s)))
    (and_then (WriteRaw (le_bytes 8 now_ms))
              (WriteRaw (le_bytes 2 16))))) (s\<lparr>ser_checksum := 0\<rparr>)"

definition SaveSelectDb :: "nat \<Rightarrow> save" where
  "SaveSelectDb dbid s =
     (if dbid = last_dbid s then (None, s)
      else and_then (WriteOpcode NRDB_OPCODE_DB_SELECT)
          (and_then (SaveLen dbid) (\<lambda>s. (None, s\<lparr>last_dbid := dbid\<rparr>))) s)"

definition SaveEntry :: "nano_obj \<Rightarrow> nano_obj \<Rightarrow> int \<Rightarrow> nat \<Rightarrow> save" where
  "SaveEntry key value expire_ms dbid =
     and_then (SaveSelectDb dbid)
    (and_then (if expire_ms > 0 then and_then (WriteOpcode NRDB_OPCODE_EXPIRE_MS) (SaveLen (nat expire_ms))
               else (\<lambda>s. (None, s)))
    (and_then (SaveObjectTypeOpcode value)
    (and_then (SaveString (GetStringView key)) (SaveObjectData value))))"

definition SaveFooter :: save where
  "SaveFooter =
     and_then (WriteOpcode NRDB_OPCODE_EOF) (\<lambda>s. WriteRaw (le_bytes 4 (unat (ser_checksum s))) s)"

section \<open>Lengths and fields\<close>

lemma len_bytes_bound: "len < 128 ^ Suc n \<Longrightarrow> length (len_bytes len) \<le> Suc n"
proof (induction n arbitrary: len)
  case (Suc n)
  then have "len div 128 < 128 ^ Suc n" by (simp add: less_mult_imp_div_less)
  from Suc.IH [OF this] show ?case by (subst len_bytes.simps) simp
qed (subst len_bytes.simps, simp)

text \<open>The buffer of ten bytes in \<open>SaveLen\<close> is large enough for every 64-bit length.\<close>

lemma len_bytes_fit: "len \<le> UINT64_MAX \<Longrightarrow> length (len_bytes len) \<le> 10"
  using len_bytes_bound [of len 9] by (simp add: UINT64_MAX_def)

lemma BuildCrc32_append: "BuildCrc32 (BuildCrc32 crc xs) ys = BuildCrc32 crc (xs @ ys)"
  by (simp add: BuildCrc32_def xor.assoc)

lemma BuildCrc32_Nil: "BuildCrc32 crc [] = crc"
  by (simp add: BuildCrc32_def xor.assoc)

text \<open>An operation that succeeds by appending given bytes, on a sink that accepts everything.\<close>

definition good_sink :: "rdb_serializer \<Rightarrow> bool" where
  "good_sink s \<longleftrightarrow> has_sink s \<and> append_error s = (\<lambda>_. None)"

definition emits :: "save \<Rightarrow> string \<Rightarrow> bool" where
  "emits f bytes \<longleftrightarrow> (\<forall>s. good_sink s \<longrightarrow>
     (\<exists>n. f s = (None, s\<lparr>append_calls := n, sink_bytes := sink_bytes s @ bytes, ser_checksum := BuildCrc32 (ser_checksum s) bytes\<rparr>)))"

named_theorems emits_intros "bytes emitted by the operations of the serializer"

lemma good_sink_update [simp]:
  "good_sink (s\<lparr>append_calls := n, sink_bytes := bs, ser_checksum := c\<rparr>) = good_sink s"
  "good_sink (s\<lparr>last_dbid := d\<rparr>) = good_sink s" "good_sink (s\<lparr>ser_checksum := c\<rparr>) = good_sink s"
  by (simp_all add: good_sink_def)

lemma emits_WriteRaw [emits_intros]: "emits (WriteRaw buf) buf"
proof -
  have "\<exists>n. s = s\<lparr>append_calls := n\<rparr>" for s :: rdb_serializer by (rule exI [of _ "append_calls s"]) simp
  then show ?thesis by (auto simp: emits_def WriteRaw_def good_sink_def Let_def BuildCrc32_Nil)
qed

lemma emits_none [emits_intros]: "emits (\<lambda>s. (None, s)) []"
proof -
  have "\<exists>n. s = s\<lparr>append_calls := n\<rparr>" for s :: rdb_serializer by (rule exI [of _ "append_calls s"]) simp
  then show ?thesis by (auto simp: emits_def BuildCrc32_Nil)
qed

lemma emits_and_then [emits_intros]:
  assumes "emits f xs" "emits g ys"
  shows "emits (and_then f g) (xs @ ys)"
  unfolding emits_def
proof (intro allI impI)
  fix s
  assume s: "good_sink s"
  obtain n where f: "f s = (None, s\<lparr>append_calls := n, sink_bytes := sink_bytes s @ xs, ser_checksum := BuildCrc32 (ser_checksum s) xs\<rparr>)"
    using assms(1) s by (auto simp: emits_def)
  let ?s = "s\<lparr>append_calls := n, sink_bytes := sink_bytes s @ xs, ser_checksum := BuildCrc32 (ser_checksum s) xs\<rparr>"
  obtain m where "g ?s = (None, ?s\<lparr>append_calls := m, sink_bytes := sink_bytes ?s @ ys, ser_checksum := BuildCrc32 (ser_checksum ?s) ys\<rparr>)"
    using assms(2) s unfolding emits_def by (metis good_sink_update(1))
  then show "\<exists>n. and_then f g s = (None, s\<lparr>append_calls := n, sink_bytes := sink_bytes s @ xs @ ys,
      ser_checksum := BuildCrc32 (ser_checksum s) (xs @ ys)\<rparr>)"
    by (auto simp: and_then_def f BuildCrc32_append)
qed

lemma emits_save_all [emits_intros]: "(\<And>x. x \<in> set xs \<Longrightarrow> emits (f x) (b x)) \<Longrightarrow> emits (save_all f xs) (concat (map b xs))"
proof (induction xs)
  case Nil
  have "save_all f [] = (\<lambda>s. (None, s))" by (simp add: fun_eq_iff)
  then show ?case by (simp add: emits_none)
next
  case (Cons x xs)
  have "save_all f (x # xs) = and_then (f x) (save_all f xs)" by (simp add: fun_eq_iff)
  with Cons show ?case by (simp add: emits_and_then)
qed

section \<open>The bytes of an entry\<close>

definition string_bytes :: "string \<Rightarrow> string" where
  "string_bytes s = len_bytes (length s) @ s"

lemma emits_SaveString [emits_intros]: "emits (SaveString s) (string_bytes s)"
  unfolding SaveString_def SaveLen_def string_bytes_def by (intro emits_intros)

fun value_bytes :: "nano_obj \<Rightarrow> string" where
  "value_bytes (IntObj v) = le_bytes 8 (nat (v mod 2 ^ 64))"
| "value_bytes (RobjObj (Robj (Some (HashTable h)) sz ty enc)) =
     len_bytes (length h) @ concat (map (\<lambda>(f, v). string_bytes f @ string_bytes v) h)"
| "value_bytes (RobjObj (Robj (Some (SetTable s)) sz ty enc)) =
     len_bytes (length s) @ concat (map string_bytes s)"
| "value_bytes (RobjObj (Robj (Some (ListDeque l)) sz ty enc)) =
     len_bytes (length l) @ concat (map (\<lambda>x. string_bytes (item_string x)) l)"
| "value_bytes obj = string_bytes (GetStringView obj)"

fun value_opcode :: "nano_obj \<Rightarrow> nat" where
  "value_opcode (IntObj v) = NRDB_OBJ_INT"
| "value_opcode (RobjObj (Robj (Some (HashTable h)) sz ty enc)) = NRDB_OBJ_HASH"
| "value_opcode (RobjObj (Robj (Some (SetTable s)) sz ty enc)) = NRDB_OBJ_SET"
| "value_opcode (RobjObj (Robj (Some (ListDeque l)) sz ty enc)) = NRDB_OBJ_LIST"
| "value_opcode obj = NRDB_OBJ_STRING"

lemma emits_value:
  assumes "obj_ok v"
  shows "emits (SaveObjectTypeOpcode v) [char_of (value_opcode v)]" "emits (SaveObjectData v) (value_bytes v)"
proof -
  have "emits (SaveObjectTypeOpcode v) [char_of (value_opcode v)] \<and> emits (SaveObjectData v) (value_bytes v)"
  proof (cases v)
    case (RobjObj r)
    obtain c sz ty enc where r: "r = Robj (Some c) sz ty enc" "container_ok ty c"
      using assms RobjObj by (cases v rule: obj_ok.cases) auto
    have p: "(\<lambda>(f, v). and_then (SaveString f) (SaveString v)) = (\<lambda>p. and_then (SaveString (fst p)) (SaveString (snd p)))"
      "(\<lambda>(f, v). string_bytes f @ string_bytes v) = (\<lambda>p. string_bytes (fst p) @ string_bytes (snd p))"
      by auto
    show ?thesis
      using r(2) unfolding RobjObj r(1)
      by (cases c) (auto simp: SaveObjectTypeOpcode_def SaveObjectData_def WriteOpcode_def SaveHashObject_def
          SaveSetObject_def SaveListObject_def SaveLen_def obj_consts p intro!: emits_intros)
  qed (auto simp: SaveObjectTypeOpcode_def SaveObjectData_def WriteOpcode_def SaveIntObject_def intro!: emits_intros)
  then show "emits (SaveObjectTypeOpcode v) [char_of (value_opcode v)]" "emits (SaveObjectData v) (value_bytes v)" by auto
qed

end
