(* ===== verification/Rdb_Loader.thy ===== *)
theory Rdb_Loader
  imports Rdb_Serializer Hash_Family Set_Family
begin

unbundle bit_operations_syntax

text \<open>
  The reader of dump files: \<open>src/core/rdb_loader.cc\<close> and \<open>include/core/rdb_loader.h\<close>, on top of
  \<open>FileSource\<close> of \<open>src/server/sharded_server.cc\<close>.  A reading operation takes the loader to an error
  code or a value, and the loader after the bytes it consumed; a fault is an exception or undefined
  behaviour that a malformed file provokes.

  The main loop of \<open>Load\<close> is bounded by the number of bytes of the file, which suffices because
  each round consumes at least the opcode (\<open>Load_no_divergence\<close>).
\<close>

section \<open>Reading\<close>

record rdb_loader =
  has_source :: bool
  source_open :: bool
  rest :: string
  expected_shard_id :: nat
  load_checksum :: "32 word"

type_synonym 'a load = "rdb_loader \<Rightarrow> ((errc + 'a) \<times> rdb_loader) result"

definition RdbLoader_new :: "bool \<Rightarrow> string \<Rightarrow> nat \<Rightarrow> rdb_loader" where
  "RdbLoader_new opened file shard_id =
     \<lparr>has_source = True, source_open = opened, rest = file, expected_shard_id = shard_id, load_checksum = 0\<rparr>"

definition load_return :: "'a \<Rightarrow> 'a load" where "load_return x l = Inr (Inr x, l)"

definition load_fail :: "errc \<Rightarrow> 'a load" where "load_fail ec l = Inr (Inl ec, l)"

definition load_bind :: "'a load \<Rightarrow> ('a \<Rightarrow> 'b load) \<Rightarrow> 'b load" where
  "load_bind f g l = bind_r (f l) (\<lambda>(r, l). case r of Inl ec \<Rightarrow> Inr (Inl ec, l) | Inr x \<Rightarrow> g x l)"

definition load_lift :: "'a result \<Rightarrow> 'a load" where
  "load_lift r l = bind_r r (\<lambda>x. Inr (Inr x, l))"

text \<open>\<open>FileSource::Read\<close>; a short read takes what is left and fails.\<close>

definition FileSource_Read :: "nat \<Rightarrow> rdb_loader \<Rightarrow> (errc + string) \<times> rdb_loader" where
  "FileSource_Read len l =
     (if \<not> source_open l then (Inl bad_file_descriptor, l)
      else if len = 0 then (Inr [], l)
      else if length (rest l) < len then (Inl io_error, l\<lparr>rest := []\<rparr>)
      else (Inr (take len (rest l)), l\<lparr>rest := drop len (rest l)\<rparr>))"

definition ReadRaw :: "nat \<Rightarrow> string load" where
  "ReadRaw len l =
     (if \<not> has_source l then Inr (Inl bad_file_descriptor, l)
      else if len = 0 then Inr (Inr [], l)
      else case FileSource_Read len l of
          (Inl ec, l) \<Rightarrow> Inr (Inl ec, l)
        | (Inr bytes, l) \<Rightarrow> Inr (Inr bytes, l\<lparr>load_checksum := BuildCrc32 (load_checksum l) bytes\<rparr>))"

definition ReadOpcode :: "nat load" where
  "ReadOpcode = load_bind (ReadRaw 1) (\<lambda>bytes. load_return (of_char (hd bytes)))"

text \<open>A shift by 64 or more is undefined; the eleventh round reaches it.\<close>

definition shift_in :: "nat \<Rightarrow> nat \<Rightarrow> nat \<Rightarrow> nat result" where
  "shift_in len byte shift =
     (if shift \<ge> 64 then Inl ShiftRange else Inr (len OR take_bit 64 (push_bit shift (byte mod 128))))"

function ReadLen_loop :: "nat \<Rightarrow> nat \<Rightarrow> nat load" where
  "ReadLen_loop rounds len =
     load_bind ReadOpcode (\<lambda>byte.
     load_bind (load_lift (shift_in len byte (7 * rounds))) (\<lambda>len.
       if byte < 128 then load_return len
       else if rounds + 1 > 10 then load_fail invalid_argument
       else ReadLen_loop (rounds + 1) len))"
  by pat_completeness auto
termination by (relation "measure (\<lambda>(rounds, len). 11 - rounds)") auto

declare ReadLen_loop.simps [simp del]

definition ReadLen :: "nat load" where
  "ReadLen = ReadLen_loop 0 0"

definition ReadString :: "env \<Rightarrow> string load" where
  "ReadString e =
     load_bind ReadLen (\<lambda>len.
     load_bind (load_lift (resize e [] len)) (\<lambda>_.
       if len = 0 then load_return [] else ReadRaw len))"

text \<open>A loop \<open>for (i = 0; i < count; i++)\<close> that threads a container.\<close>

primrec read_times :: "nat \<Rightarrow> ('c \<Rightarrow> 'c load) \<Rightarrow> 'c \<Rightarrow> 'c load" where
  "read_times 0 f c = load_return c"
| "read_times (Suc n) f c = load_bind (f c) (read_times n f)"

text \<open>The unsigned and the signed value of bytes in memory.\<close>

fun le_value :: "string \<Rightarrow> nat" where
  "le_value [] = 0"
| "le_value (b # bs) = of_char b + 256 * le_value bs"

definition to_int64 :: "nat \<Rightarrow> int" where
  "to_int64 n = (if n < 2 ^ 63 then int n else int n - 2 ^ 64)"

definition ReadObject :: "env \<Rightarrow> nat \<Rightarrow> nano_obj load" where
  "ReadObject e ty =
     (if ty = NRDB_OBJ_STRING then load_bind (ReadString e) (\<lambda>v. load_return (FromString v))
      else if ty = NRDB_OBJ_INT then
        load_bind (ReadRaw 8) (\<lambda>bytes. load_return (FromInt (to_int64 (le_value bytes))))
      else if ty = NRDB_OBJ_HASH then
        load_bind ReadLen (\<lambda>cnt.
        load_bind (read_times cnt (\<lambda>table.
            load_bind (ReadString e) (\<lambda>field.
            load_bind (ReadString e) (\<lambda>v. load_return (hash_put field v table)))) []) (\<lambda>table.
          load_return (SetObj (HashTable table) FromHash)))
      else if ty = NRDB_OBJ_SET then
        load_bind ReadLen (\<lambda>cnt.
        load_bind (read_times cnt (\<lambda>s.
            load_bind (ReadString e) (\<lambda>member. load_return (fst (set_insert member s)))) []) (\<lambda>s.
          load_return (SetObj (SetTable s) FromSet)))
      else if ty = NRDB_OBJ_LIST then
        load_bind ReadLen (\<lambda>cnt.
        load_bind (read_times cnt (\<lambda>l.
            load_bind (ReadString e) (\<lambda>member. load_return (l @ [FromString member]))) []) (\<lambda>l.
          load_return (SetObj (ListDeque l) FromList)))
      else if ty = NRDB_OBJ_ZSET then load_fail not_supported
      else load_fail invalid_argument)"

definition LoadHeader :: "unit load" where
  "LoadHeader =
     load_bind (ReadRaw 8) (\<lambda>magic.
       if magic \<noteq> kNrdbMagic then load_fail invalid_argument
       else
         load_bind (ReadRaw 4) (\<lambda>shard_id.
         load_bind (ReadRaw 4) (\<lambda>num_shards.
         load_bind (ReadRaw 8) (\<lambda>timestamp.
         load_bind (ReadRaw 2) (\<lambda>num_dbs. \<lambda>l.
           if le_value shard_id \<noteq> expected_shard_id l then load_fail invalid_argument l
           else load_return () l)))))"

text \<open>The footer is read without updating the checksum.\<close>

definition LoadFooter :: "unit load" where
  "LoadFooter l =
     (let computed_crc = load_checksum l
      in case FileSource_Read 4 l of
           (Inl ec, l) \<Rightarrow> Inr (Inl ec, l)
         | (Inr bytes, l) \<Rightarrow>
             if unat computed_crc \<noteq> le_value bytes then Inr (Inl invalid_argument, l) else Inr (Inr (), l))"

type_synonym 's entry_handler = "nat \<Rightarrow> nano_obj \<Rightarrow> nano_obj \<Rightarrow> int \<Rightarrow> 's \<Rightarrow> (errc option \<times> 's) result"

text \<open>
  The main loop.  \<open>expire\<close> is \<open>Some expire_ms\<close> while \<open>has_expire\<close> is true; \<open>s\<close> is the state that
  the handler works on.  The outcome is the error code and that state.
\<close>

definition load_step :: "'a load \<Rightarrow> rdb_loader \<Rightarrow> 's \<Rightarrow> ('a \<Rightarrow> rdb_loader \<Rightarrow> (errc option \<times> 's) result) \<Rightarrow> (errc option \<times> 's) result" where
  "load_step f l s k = bind_r (f l) (\<lambda>(r, l). case r of Inl ec \<Rightarrow> Inr (Some ec, s) | Inr x \<Rightarrow> k x l)"

primrec Load_loop ::
    "nat \<Rightarrow> env \<Rightarrow> 's entry_handler option \<Rightarrow> nat \<Rightarrow> int option \<Rightarrow> rdb_loader \<Rightarrow> 's \<Rightarrow> (errc option \<times> 's) result" where
  "Load_loop 0 e handler dbid expire l s = Inl Diverges"
| "Load_loop (Suc n) e handler dbid expire l s =
     load_step ReadOpcode l s (\<lambda>opcode l.
       if opcode = NRDB_OPCODE_DB_SELECT then
         load_step ReadLen l s (\<lambda>selected_db l. Load_loop n e handler (selected_db mod 2 ^ 32) None l s)
       else if opcode = NRDB_OPCODE_DB_SIZE then
         load_step ReadLen l s (\<lambda>ignored l. Load_loop n e handler dbid expire l s)
       else if opcode = NRDB_OPCODE_EXPIRE_MS then
         load_step ReadLen l s (\<lambda>at l. Load_loop n e handler dbid (Some (to_int64 at)) l s)
       else if opcode = NRDB_OPCODE_EOF then
         load_step LoadFooter l s (\<lambda>_ l. Inr (None, s))
       else
         load_step (ReadString e) l s (\<lambda>key l.
         load_step (ReadObject e opcode) l s (\<lambda>value l.
           let entry_expire_ms = (case expire of Some at \<Rightarrow> at | None \<Rightarrow> 0)
           in case handler of
                None \<Rightarrow> Load_loop n e handler dbid None l s
              | Some h \<Rightarrow> bind_r (h dbid (FromString key) value entry_expire_ms s) (\<lambda>(ec, s).
                  case ec of Some ec \<Rightarrow> Inr (Some ec, s) | None \<Rightarrow> Load_loop n e handler dbid None l s))))"

definition Load :: "env \<Rightarrow> 's entry_handler option \<Rightarrow> rdb_loader \<Rightarrow> 's \<Rightarrow> (errc option \<times> 's) result" where
  "Load e handler l s =
     load_step LoadHeader (l\<lparr>load_checksum := 0\<rparr>) s (\<lambda>_ l. Load_loop (Suc (length (rest l))) e handler 0 None l s)"

section \<open>Reading back what was written\<close>

definition loadable :: "rdb_loader \<Rightarrow> bool" where
  "loadable l \<longleftrightarrow> has_source l \<and> source_open l"

text \<open>An operation that consumes given bytes and returns a value.\<close>

definition reads :: "'a load \<Rightarrow> string \<Rightarrow> 'a \<Rightarrow> bool" where
  "reads f bytes x \<longleftrightarrow> (\<forall>l more. loadable l \<longrightarrow> rest l = bytes @ more \<longrightarrow>
     f l = Inr (Inr x, l\<lparr>rest := more, load_checksum := BuildCrc32 (load_checksum l) bytes\<rparr>))"

named_theorems reads_intros "what the reading operations return on given bytes"

lemma loadable_update [simp]: "loadable (l\<lparr>rest := r, load_checksum := c\<rparr>) = loadable l"
  "loadable (l\<lparr>load_checksum := c\<rparr>) = loadable l" "loadable (l\<lparr>rest := r\<rparr>) = loadable l"
  by (simp_all add: loadable_def)

lemma reads_return [reads_intros]: "reads (load_return x) [] x"
  by (auto simp: reads_def load_return_def BuildCrc32_Nil)

lemma reads_bind [reads_intros]:
  assumes "reads f xs x" "reads (g x) ys y"
  shows "reads (load_bind f g) (xs @ ys) y"
  unfolding reads_def
proof (intro allI impI)
  fix l more
  assume l: "loadable l" "rest l = (xs @ ys) @ more"
  then have f: "f l = Inr (Inr x, l\<lparr>rest := ys @ more, load_checksum := BuildCrc32 (load_checksum l) xs\<rparr>)"
    using assms(1) by (simp add: reads_def)
  let ?l = "l\<lparr>rest := ys @ more, load_checksum := BuildCrc32 (load_checksum l) xs\<rparr>"
  have "loadable ?l" "rest ?l = ys @ more" using l(1) by simp_all
  from assms(2) [unfolded reads_def, rule_format, OF this]
  have "g x ?l = Inr (Inr y, l\<lparr>rest := more, load_checksum := BuildCrc32 (load_checksum ?l) ys\<rparr>)" by simp
  then show "load_bind f g l = Inr (Inr y, l\<lparr>rest := more, load_checksum := BuildCrc32 (load_checksum l) (xs @ ys)\<rparr>)"
    by (simp add: load_bind_def f BuildCrc32_append)
qed

lemma reads_lift: "r = Inr x \<Longrightarrow> reads (load_lift r) [] x"
  by (auto simp: reads_def load_lift_def BuildCrc32_Nil)

lemma reads_ReadRaw: "length bytes = n \<Longrightarrow> reads (ReadRaw n) bytes bytes"
  by (auto simp: reads_def ReadRaw_def FileSource_Read_def loadable_def BuildCrc32_Nil)

lemma reads_bind0: "reads f xs x \<Longrightarrow> reads (g x) [] y \<Longrightarrow> reads (load_bind f g) xs y"
  using reads_bind [of f xs x g "[]" y] by simp

lemma reads_skip: "reads f [] x \<Longrightarrow> reads (g x) ys y \<Longrightarrow> reads (load_bind f g) ys y"
  using reads_bind [of f "[]" x g ys y] by simp

lemma reads_ReadOpcode: "n < 256 \<Longrightarrow> reads ReadOpcode [char_of n] n"
  unfolding ReadOpcode_def
  by (rule reads_bind0 [OF reads_ReadRaw]) (simp_all add: reads_return of_char_of)

lemma or_push_bit: "(a :: nat) < 2 ^ n \<Longrightarrow> a OR push_bit n b = a + b * 2 ^ n"
proof -
  assume "a < 2 ^ n"
  then have t: "take_bit n a = a" by (simp add: take_bit_nat_eq_self)
  have "take_bit n a AND push_bit n b = 0" by (rule bit_eqI) (auto simp: bit_simps)
  with t have "a AND push_bit n b = 0" by simp
  then have "a OR push_bit n b = a + push_bit n b" by (metis disjunctive_add_eq_or)
  then show ?thesis by (simp add: push_bit_eq_mult)
qed

lemma shift_in_add:
  assumes "a < 2 ^ s" "b < 128" "s < 64" "b * 2 ^ s < 2 ^ 64" "byte mod 128 = b"
  shows "shift_in a byte s = Inr (a + b * 2 ^ s)"
  using assms by (simp add: shift_in_def take_bit_nat_eq_self push_bit_eq_mult [symmetric] or_push_bit)

lemma reads_ReadLen_loop:
  assumes "acc < 2 ^ (7 * r)" "n * 2 ^ (7 * r) < 2 ^ 64" "0 < n \<or> r = 0"
  shows "reads (ReadLen_loop r acc) (len_bytes n) (acc + n * 2 ^ (7 * r))"
  using assms
proof (induction n arbitrary: r acc rule: len_bytes.induct)
  case (1 n)
  have r: "7 * r < 64"
  proof (rule ccontr)
    assume "\<not> 7 * r < 64"
    then have p: "(2 :: nat) ^ 64 \<le> 2 ^ (7 * r)" and "0 < n" using 1(4) power_increasing [of 64 "7 * r" "2 :: nat"] by auto
    then have "2 ^ (7 * r) \<le> n * 2 ^ (7 * r)" by simp
    with p 1(3) show False by linarith
  qed
  have lt: "n mod 128 * 2 ^ (7 * r) < 2 ^ 64"
    using 1(3) by (meson le_less_trans mod_less_eq_dividend mult_le_mono1)
  show ?case
  proof (cases "n div 128 = 0")
    case True
    then have n: "n < 128" by simp
    have "shift_in acc n (7 * r) = Inr (acc + n * 2 ^ (7 * r))"
      using shift_in_add [OF 1(2) _ r lt] n by simp
    then have "reads (ReadLen_loop r acc) ([char_of n] @ []) (acc + n * 2 ^ (7 * r))"
      using n by (subst ReadLen_loop.simps)
        (rule reads_bind [OF reads_ReadOpcode]; simp add: reads_skip [OF reads_lift] reads_return)
    with True n show ?thesis by (subst len_bytes.simps) simp
  next
    case False
    let ?b = "n mod 128 + 128" and ?acc = "acc + n mod 128 * 2 ^ (7 * r)"
    have "(n div 128) * 2 ^ (7 * (r + 1)) = n div 128 * 128 * 2 ^ (7 * r)" by (simp add: power_add)
    also have "\<dots> \<le> n * 2 ^ (7 * r)" by simp
    finally have b: "(n div 128) * 2 ^ (7 * (r + 1)) < 2 ^ 64" using 1(3) by simp
    have "(n mod 128 + 1) * 2 ^ (7 * r) \<le> 128 * 2 ^ (7 * r)" by (intro mult_right_mono) (simp_all add: Suc_leI)
    then have "n mod 128 * 2 ^ (7 * r) + 2 ^ (7 * r) \<le> 128 * 2 ^ (7 * r)" by (simp only: distrib_right mult_1)
    with 1(2) have "?acc < 128 * 2 ^ (7 * r)" by linarith
    then have a: "?acc < 2 ^ (7 * (r + 1))" by (simp add: power_add mult.commute)
    have "2 ^ (7 * (r + 1)) \<le> n div 128 * 2 ^ (7 * (r + 1))" using False by simp
    with b have "2 ^ (7 * (r + 1)) < (2 :: nat) ^ 64" by (rule le_less_trans [rotated])
    then have r1: "\<not> r + 1 > 10" using power_less_imp_less_exp [of "2 :: nat" "7 * (r + 1)" 64] by simp
    note IH = 1(1) [OF False a b]
    have "shift_in acc ?b (7 * r) = Inr ?acc"
      by (rule shift_in_add [OF 1(2) _ r lt]) simp_all
    then have "reads (ReadLen_loop r acc) ([char_of ?b] @ len_bytes (n div 128)) (?acc + n div 128 * 2 ^ (7 * (r + 1)))"
      using r1 IH False by (subst ReadLen_loop.simps)
        (rule reads_bind [OF reads_ReadOpcode], simp, rule reads_skip [OF reads_lift], simp_all)
    moreover have "?acc + n div 128 * 2 ^ (7 * (r + 1)) = acc + n * 2 ^ (7 * r)"
    proof -
      have "n div 128 * (2 ^ (7 * r) * 128) + n mod 128 * 2 ^ (7 * r) = (n div 128 * 128 + n mod 128) * 2 ^ (7 * r)"
        by (simp only: algebra_simps)
      then show ?thesis by (simp only: div_mult_mod_eq) (simp add: power_add algebra_simps)
    qed
    ultimately show ?thesis using False by (subst len_bytes.simps) (simp only: append_Cons append_Nil if_False)
  qed
qed

lemma reads_ReadLen: "n < 2 ^ 64 \<Longrightarrow> reads ReadLen (len_bytes n) n"
  unfolding ReadLen_def using reads_ReadLen_loop [of 0 0 n] by simp

lemma reads_ReadString:
  assumes "length s \<le> string_max_size" "length s \<le> alloc_limit e"
  shows "reads (ReadString e) (string_bytes s) s"
proof -
  have "length s < 2 ^ 64" using assms(1) by (simp add: string_max_size_def)
  moreover have "reads (if length s = 0 then load_return [] else ReadRaw (length s)) s s"
    by (auto intro: reads_return reads_ReadRaw)
  ultimately show ?thesis
    unfolding ReadString_def string_bytes_def using assms
    by (intro reads_bind [OF reads_ReadLen] reads_skip [OF reads_lift]) (simp_all add: resize_def)
qed

lemma reads_times:
  assumes "\<And>x c. x \<in> set xs \<Longrightarrow> reads (f c) (b x) (g x c)"
  shows "reads (read_times (length xs) f c) (concat (map b xs)) (fold g xs c)"
  using assms by (induction xs arbitrary: c) (auto intro: reads_return reads_bind)

subsection \<open>Objects\<close>

lemma le_value_le_bytes: "le_value (le_bytes n v) = v mod 256 ^ n"
proof (induction n arbitrary: v)
  case (Suc n)
  have "le_bytes (Suc n) v = char_of (v mod 256) # le_bytes n (v div 256)"
    by (simp add: le_bytes_def upt_conv_Cons map_Suc_upt [symmetric] div_mult2_eq comp_def del: upt_Suc)
  then show ?case by (simp add: Suc.IH of_char_of mod_mult2_eq)
qed (simp add: le_bytes_def)

lemma length_le_bytes [simp]: "length (le_bytes n v) = n"
  by (simp add: le_bytes_def)

lemma to_int64_wrap: "in_int64 v \<Longrightarrow> to_int64 (nat (v mod 2 ^ 64)) = v"
proof -
  assume v: "in_int64 v"
  show ?thesis
  proof (cases "0 \<le> v")
    case True
    then have "v mod 2 ^ 64 = v" using v by (simp add: bounds_defs)
    with True v show ?thesis by (simp add: to_int64_def bounds_defs)
  next
    case False
    have "v mod 2 ^ 64 = (v + 2 ^ 64) mod 2 ^ 64" by simp
    also have "\<dots> = v + 2 ^ 64" using False v by (intro mod_pos_pos_trivial) (simp_all add: bounds_defs)
    finally have "v mod 2 ^ 64 = v + 2 ^ 64" .
    with False v show ?thesis by (simp add: to_int64_def bounds_defs)
  qed
qed

text \<open>What a saved value comes back as, and the sizes that a file can carry.\<close>

fun reloaded :: "nano_obj \<Rightarrow> nano_obj" where
  "reloaded (IntObj v) = IntObj v"
| "reloaded (RobjObj (Robj (Some (HashTable h)) sz ty enc)) = SetObj (HashTable h) FromHash"
| "reloaded (RobjObj (Robj (Some (SetTable s)) sz ty enc)) = SetObj (SetTable s) FromSet"
| "reloaded (RobjObj (Robj (Some (ListDeque l)) sz ty enc)) =
     SetObj (ListDeque (map (\<lambda>x. FromString (item_string x)) l)) FromList"
| "reloaded obj = FromString (GetStringView obj)"

definition fits :: "env \<Rightarrow> string \<Rightarrow> bool" where
  "fits e s \<longleftrightarrow> length s \<le> string_max_size \<and> length s \<le> alloc_limit e"

fun value_fits :: "env \<Rightarrow> nano_obj \<Rightarrow> bool" where
  "value_fits e (RobjObj (Robj (Some (HashTable h)) sz ty enc)) =
     (length h < 2 ^ 64 \<and> list_all (\<lambda>(f, v). fits e f \<and> fits e v) h)"
| "value_fits e (RobjObj (Robj (Some (SetTable s)) sz ty enc)) = (length s < 2 ^ 64 \<and> list_all (fits e) s)"
| "value_fits e (RobjObj (Robj (Some (ListDeque l)) sz ty enc)) =
     (length l < 2 ^ 64 \<and> list_all (\<lambda>x. fits e (item_string x)) l)"
| "value_fits e obj = fits e (GetStringView obj)"

lemma fold_hash_put:
  "distinct (map fst (acc @ h)) \<Longrightarrow> fold (\<lambda>p. hash_put (fst p) (snd p)) h acc = acc @ h"
proof (induction h arbitrary: acc)
  case (Cons p h)
  have "hash_put (fst p) (snd p) acc = acc @ [p]"
    using Cons.prems str_map.map_insert_or_assign_absent [of "fst p" acc "snd p"]
    by (force simp: hash_put_def table_pos_None_iff)
  with Cons show ?case by simp
qed simp

lemma fold_set_insert:
  "distinct (acc @ s) \<Longrightarrow> fold (\<lambda>m acc. fst (set_insert m acc)) s acc = acc @ s"
proof (induction s arbitrary: acc)
  case (Cons m s)
  have "table_pos (=) id m acc = None" using Cons.prems by (auto simp: table_pos_None_iff)
  then have "fst (set_insert m acc) = acc @ [m]" by (simp add: set_insert_def table_insert_def)
  with Cons show ?case by simp
qed simp

lemma reads_string: "fits e s \<Longrightarrow> reads (ReadString e) (string_bytes s) s"
  by (simp add: fits_def reads_ReadString)

lemma reads_counted:
  assumes "reads (read_times n f c0) bs c" "n < 2 ^ 64"
  shows "reads (load_bind ReadLen (\<lambda>cnt. load_bind (read_times cnt f c0) (\<lambda>c. load_return (g c)))) (len_bytes n @ bs) (g c)"
proof -
  have "reads (load_bind (read_times n f c0) (\<lambda>c. load_return (g c))) bs (g c)"
    by (rule reads_bind0 [OF assms(1)]) (rule reads_return)
  then show ?thesis by (rule reads_bind [OF reads_ReadLen [OF assms(2)]])
qed

lemma reads_hash:
  assumes "container_ok ty (HashTable h)" "value_fits e (RobjObj (Robj (Some (HashTable h)) sz ty enc))"
  shows "reads (ReadObject e NRDB_OBJ_HASH) (value_bytes (RobjObj (Robj (Some (HashTable h)) sz ty enc)))
    (SetObj (HashTable h) FromHash)"
proof -
  let ?f = "\<lambda>table. load_bind (ReadString e) (\<lambda>field. load_bind (ReadString e) (\<lambda>v. load_return (hash_put field v table)))"
  have "reads (?f c) (string_bytes (fst p) @ string_bytes (snd p)) (hash_put (fst p) (snd p) c)" if "p \<in> set h" for p c
    by (rule reads_bind [OF reads_string reads_bind0 [OF reads_string reads_return]])
      (use that assms(2) in \<open>auto simp: list_all_iff\<close>)
  from reads_times [of h ?f "\<lambda>p. string_bytes (fst p) @ string_bytes (snd p)", OF this, of "[]"]
  have "reads (read_times (length h) ?f []) (concat (map (\<lambda>p. string_bytes (fst p) @ string_bytes (snd p)) h)) h"
    using fold_hash_put [of "[]" h] assms(1) by (simp add: distinct_fields)
  from reads_counted [OF this, of "\<lambda>t. SetObj (HashTable t) FromHash"] show ?thesis
    using assms(2) by (simp add: ReadObject_def nrdb_consts case_prod_unfold)
qed

lemma reads_set:
  assumes "container_ok ty (SetTable s)" "value_fits e (RobjObj (Robj (Some (SetTable s)) sz ty enc))"
  shows "reads (ReadObject e NRDB_OBJ_SET) (value_bytes (RobjObj (Robj (Some (SetTable s)) sz ty enc)))
    (SetObj (SetTable s) FromSet)"
proof -
  let ?f = "\<lambda>c. load_bind (ReadString e) (\<lambda>member. load_return (fst (set_insert member c)))"
  have "reads (?f c) (string_bytes m) (fst (set_insert m c))" if "m \<in> set s" for m c
    using that assms(2) by (auto simp: list_all_iff intro!: reads_bind0 reads_string reads_return)
  from reads_times [of s ?f string_bytes, OF this, of "[]"]
  have "reads (read_times (length s) ?f []) (concat (map string_bytes s)) s"
    using fold_set_insert [of "[]" s] assms(1) by (simp add: distinct_members)
  from reads_counted [OF this, of "\<lambda>s. SetObj (SetTable s) FromSet"] show ?thesis
    using assms(2) by (simp add: ReadObject_def nrdb_consts)
qed

lemma fold_snoc: "fold (\<lambda>x l. l @ [f x]) xs acc = acc @ map f xs"
  by (induction xs arbitrary: acc) simp_all

lemma reads_list:
  assumes "value_fits e (RobjObj (Robj (Some (ListDeque l)) sz ty enc))"
  shows "reads (ReadObject e NRDB_OBJ_LIST) (value_bytes (RobjObj (Robj (Some (ListDeque l)) sz ty enc)))
    (SetObj (ListDeque (map (\<lambda>x. FromString (item_string x)) l)) FromList)"
proof -
  let ?f = "\<lambda>c. load_bind (ReadString e) (\<lambda>member. load_return (c @ [FromString member]))"
  have "reads (?f c) (string_bytes (item_string x)) (c @ [FromString (item_string x)])" if "x \<in> set l" for x c
    using that assms by (auto simp: list_all_iff intro!: reads_bind0 reads_string reads_return)
  from reads_times [of l ?f "\<lambda>x. string_bytes (item_string x)", OF this, of "[]"]
  have "reads (read_times (length l) ?f []) (concat (map (\<lambda>x. string_bytes (item_string x)) l))
      (map (\<lambda>x. FromString (item_string x)) l)"
    by (simp add: fold_snoc)
  from reads_counted [OF this, of "\<lambda>l. SetObj (ListDeque l) FromList"] show ?thesis
    using assms by (simp add: ReadObject_def nrdb_consts)
qed

lemma reads_value:
  assumes "obj_ok v" "value_fits e v"
  shows "reads (ReadObject e (value_opcode v)) (value_bytes v) (reloaded v)"
proof (cases v)
  case (IntObj n)
  then have "to_int64 (le_value (le_bytes 8 (nat (n mod 2 ^ 64)))) = n"
    using assms(1) to_int64_wrap [of n] by (simp add: le_value_le_bytes nat_mod_distrib)
  then show ?thesis
    unfolding IntObj
    by (auto simp: ReadObject_def nrdb_consts FromInt_def intro!: reads_bind0 [OF reads_ReadRaw] reads_return)
next
  case (RobjObj r)
  obtain c sz ty enc where r: "v = RobjObj (Robj (Some c) sz ty enc)" "container_ok ty c"
    using assms(1) RobjObj by (cases v rule: obj_ok.cases) auto
  show ?thesis
    using r(2) assms(2) unfolding r(1)
    by (cases c) (simp_all only: value_opcode.simps reloaded.simps reads_hash reads_set reads_list)
qed (use assms in \<open>auto simp: ReadObject_def nrdb_consts intro!: reads_bind0 reads_string reads_return\<close>)

section \<open>Files of entries\<close>

type_synonym rdb_entry = "nat \<times> nano_obj \<times> nano_obj \<times> int"

definition save_entries :: "rdb_entry list \<Rightarrow> save" where
  "save_entries = save_all (\<lambda>(dbid, key, value, expire_ms). SaveEntry key value expire_ms dbid)"

definition entry_ok :: "env \<Rightarrow> rdb_entry \<Rightarrow> bool" where
  "entry_ok e en \<longleftrightarrow> (case en of (dbid, key, value, expire_ms) \<Rightarrow>
     dbid < 2 ^ 32 - 1 \<and> fits e (GetStringView key) \<and> obj_ok value \<and> value_fits e value \<and> in_int64 expire_ms)"

text \<open>The bytes of a list of entries, given the database selected prev.\<close>

fun entries_bytes :: "nat \<Rightarrow> rdb_entry list \<Rightarrow> string" where
  "entries_bytes prev [] = []"
| "entries_bytes prev ((dbid, key, value, expire_ms) # es) =
     (if dbid = prev then [] else char_of NRDB_OPCODE_DB_SELECT # len_bytes dbid) @
     (if expire_ms > 0 then char_of NRDB_OPCODE_EXPIRE_MS # len_bytes (nat expire_ms) else []) @
     char_of (value_opcode value) # string_bytes (GetStringView key) @ value_bytes value @ entries_bytes dbid es"

lemma emitsD:
  assumes "emits f bs" "good_sink s"
  obtains n where "f s = (None, s\<lparr>append_calls := n, sink_bytes := sink_bytes s @ bs, ser_checksum := BuildCrc32 (ser_checksum s) bs\<rparr>)"
  using assms by (auto simp: emits_def)

lemma emits_cons: "emits f [b] \<Longrightarrow> emits g bs \<Longrightarrow> emits (and_then f g) (b # bs)"
  using emits_and_then [of f "[b]" g bs] by simp

lemma and_then_assoc: "and_then (and_then f g) h = and_then f (and_then g h)"
  by (auto simp: fun_eq_iff and_then_def split: prod.splits option.splits)

lemma save_select:
  assumes "good_sink s"
  shows "\<exists>n. SaveSelectDb dbid s = (None, s\<lparr>append_calls := n,
      sink_bytes := sink_bytes s @ (if dbid = last_dbid s then [] else char_of NRDB_OPCODE_DB_SELECT # len_bytes dbid),
      ser_checksum := BuildCrc32 (ser_checksum s) (if dbid = last_dbid s then [] else char_of NRDB_OPCODE_DB_SELECT # len_bytes dbid),
      last_dbid := dbid\<rparr>)"
proof (cases "dbid = last_dbid s")
  case True
  then show ?thesis by (intro exI [of _ "append_calls s"]) (simp add: SaveSelectDb_def BuildCrc32_Nil)
next
  case False
  have "emits (and_then (WriteOpcode NRDB_OPCODE_DB_SELECT) (SaveLen dbid)) (char_of NRDB_OPCODE_DB_SELECT # len_bytes dbid)"
    unfolding WriteOpcode_def SaveLen_def by (intro emits_cons emits_intros)
  from emitsD [OF this assms] obtain n where n: "and_then (WriteOpcode NRDB_OPCODE_DB_SELECT) (SaveLen dbid) s =
      (None, s\<lparr>append_calls := n, sink_bytes := sink_bytes s @ char_of NRDB_OPCODE_DB_SELECT # len_bytes dbid,
        ser_checksum := BuildCrc32 (ser_checksum s) (char_of NRDB_OPCODE_DB_SELECT # len_bytes dbid)\<rparr>)" .
  have "SaveSelectDb dbid s = and_then (and_then (WriteOpcode NRDB_OPCODE_DB_SELECT) (SaveLen dbid)) (\<lambda>s. (None, s\<lparr>last_dbid := dbid\<rparr>)) s"
    using False by (simp add: SaveSelectDb_def and_then_assoc)
  then have "SaveSelectDb dbid s = (None, s\<lparr>append_calls := n, sink_bytes := sink_bytes s @ char_of NRDB_OPCODE_DB_SELECT # len_bytes dbid,
        ser_checksum := BuildCrc32 (ser_checksum s) (char_of NRDB_OPCODE_DB_SELECT # len_bytes dbid), last_dbid := dbid\<rparr>)"
    unfolding and_then_def [of "and_then (WriteOpcode NRDB_OPCODE_DB_SELECT) (SaveLen dbid)"] n by simp
  then show ?thesis unfolding if_not_P [OF False] by blast
qed

lemma save_entry:
  assumes "good_sink s" "obj_ok value"
  shows "\<exists>n. SaveEntry key value expire_ms dbid s = (None, s\<lparr>append_calls := n,
      sink_bytes := sink_bytes s @ entries_bytes (last_dbid s) [(dbid, key, value, expire_ms)],
      ser_checksum := BuildCrc32 (ser_checksum s) (entries_bytes (last_dbid s) [(dbid, key, value, expire_ms)]),
      last_dbid := dbid\<rparr>)"
proof -
  let ?x = "if expire_ms > 0 then char_of NRDB_OPCODE_EXPIRE_MS # len_bytes (nat expire_ms) else []"
  let ?b = "?x @ [char_of (value_opcode value)] @ string_bytes (GetStringView key) @ value_bytes value"
  let ?f = "and_then (if expire_ms > 0 then and_then (WriteOpcode NRDB_OPCODE_EXPIRE_MS) (SaveLen (nat expire_ms)) else (\<lambda>s. (None, s)))
    (and_then (SaveObjectTypeOpcode value) (and_then (SaveString (GetStringView key)) (SaveObjectData value)))"
  have "emits (if expire_ms > 0 then and_then (WriteOpcode NRDB_OPCODE_EXPIRE_MS) (SaveLen (nat expire_ms)) else (\<lambda>s. (None, s))) ?x"
    unfolding WriteOpcode_def SaveLen_def by (auto intro!: emits_cons emits_intros)
  then have f: "emits ?f ?b" by (intro emits_and_then emits_value [OF assms(2)] emits_SaveString)
  obtain n where n: "SaveSelectDb dbid s = (None, s\<lparr>append_calls := n,
      sink_bytes := sink_bytes s @ (if dbid = last_dbid s then [] else char_of NRDB_OPCODE_DB_SELECT # len_bytes dbid),
      ser_checksum := BuildCrc32 (ser_checksum s) (if dbid = last_dbid s then [] else char_of NRDB_OPCODE_DB_SELECT # len_bytes dbid),
      last_dbid := dbid\<rparr>)" (is "_ = (None, ?s)")
    using save_select [OF assms(1)] by blast
  have g: "good_sink ?s" using assms(1) by (simp add: good_sink_def)
  from emitsD [OF f g] obtain m where "?f ?s = (None, ?s\<lparr>append_calls := m, sink_bytes := sink_bytes ?s @ ?b,
      ser_checksum := BuildCrc32 (ser_checksum ?s) ?b\<rparr>)" .
  then have "SaveEntry key value expire_ms dbid s = (None, ?s\<lparr>append_calls := m, sink_bytes := sink_bytes ?s @ ?b,
      ser_checksum := BuildCrc32 (ser_checksum ?s) ?b\<rparr>)"
    unfolding SaveEntry_def and_then_def [of "SaveSelectDb dbid"] n by simp
  then show ?thesis by (intro exI [of _ m]) (simp add: BuildCrc32_append)
qed

lemma save_entries_bytes:
  assumes "good_sink s" "list_all (entry_ok e) es"
  shows "\<exists>n d. save_entries es s = (None, s\<lparr>append_calls := n, sink_bytes := sink_bytes s @ entries_bytes (last_dbid s) es,
      ser_checksum := BuildCrc32 (ser_checksum s) (entries_bytes (last_dbid s) es), last_dbid := d\<rparr>)"
  using assms
proof (induction es arbitrary: s)
  case Nil
  show ?case by (rule exI [of _ "append_calls s"], rule exI [of _ "last_dbid s"]) (simp add: save_entries_def BuildCrc32_Nil)
next
  case (Cons en es)
  obtain dbid key v x where en: "en = (dbid, key, v, x)" by (cases en)
  obtain n where n: "SaveEntry key v x dbid s = (None, s\<lparr>append_calls := n,
      sink_bytes := sink_bytes s @ entries_bytes (last_dbid s) [(dbid, key, v, x)],
      ser_checksum := BuildCrc32 (ser_checksum s) (entries_bytes (last_dbid s) [(dbid, key, v, x)]),
      last_dbid := dbid\<rparr>)" (is "_ = (None, ?s)")
    using save_entry [OF Cons.prems(1)] Cons.prems(2) en by (fastforce simp: entry_ok_def)
  have "good_sink ?s" using Cons.prems(1) by (simp add: good_sink_def)
  from Cons.IH [OF this] Cons.prems(2) show ?case
    by (auto simp: save_entries_def en n and_then_def BuildCrc32_append)
qed

text \<open>The calls of the handler that loading such a file amounts to.\<close>

primrec deliver :: "'s entry_handler \<Rightarrow> rdb_entry list \<Rightarrow> 's \<Rightarrow> (errc option \<times> 's) result" where
  "deliver h [] s = Inr (None, s)"
| "deliver h (en # es) s = (case en of (dbid, key, value, expire_ms) \<Rightarrow>
     bind_r (h dbid (FromString (GetStringView key)) (reloaded value) (max 0 expire_ms) s) (\<lambda>(ec, s).
       case ec of Some ec \<Rightarrow> Inr (Some ec, s) | None \<Rightarrow> deliver h es s))"

lemma load_step_reads:
  assumes "reads f bs x" "loadable l" "rest l = bs @ after"
  shows "load_step f l s k = k x (l\<lparr>rest := after, load_checksum := BuildCrc32 (load_checksum l) bs\<rparr>)"
  using assms by (simp add: reads_def load_step_def)

lemma value_opcode_small: "value_opcode v < 240"
  by (cases v rule: value_opcode.cases) (simp_all add: nrdb_consts)

declare Load_loop.simps [simp del]

lemma opcodes_distinct:
  "NRDB_OPCODE_EXPIRE_MS \<noteq> NRDB_OPCODE_DB_SELECT" "NRDB_OPCODE_EXPIRE_MS \<noteq> NRDB_OPCODE_DB_SIZE"
  "NRDB_OPCODE_EOF \<noteq> NRDB_OPCODE_DB_SELECT" "NRDB_OPCODE_EOF \<noteq> NRDB_OPCODE_DB_SIZE"
  "NRDB_OPCODE_EOF \<noteq> NRDB_OPCODE_EXPIRE_MS"
  by (simp_all add: nrdb_consts)

lemma read_opcode:
  assumes "loadable l" "rest l = char_of n # after" "n < 256"
  shows "load_step ReadOpcode l s k = k n (l\<lparr>rest := after, load_checksum := BuildCrc32 (load_checksum l) [char_of n]\<rparr>)"
  by (rule load_step_reads [OF reads_ReadOpcode [OF assms(3)] assms(1)]) (simp add: assms(2))

lemma Load_loop_select:
  assumes "loadable l" "rest l = char_of NRDB_OPCODE_DB_SELECT # len_bytes db @ after" "db < 2 ^ 32"
  shows "Load_loop (Suc n) e h dbid ex l s = Load_loop n e h db None
    (l\<lparr>rest := after, load_checksum := BuildCrc32 (load_checksum l) (char_of NRDB_OPCODE_DB_SELECT # len_bytes db)\<rparr>) s"
proof -
  have o: "NRDB_OPCODE_DB_SELECT < 256" by (simp add: nrdb_consts)
  have d: "db < 2 ^ 64" "db mod 2 ^ 32 = db" using assms(3) by simp_all
  have l: "load_step ReadLen (l\<lparr>rest := len_bytes db @ after, load_checksum := c\<rparr>) s k =
      k db (l\<lparr>rest := after, load_checksum := BuildCrc32 c (len_bytes db)\<rparr>)" for c k
    using load_step_reads [OF reads_ReadLen [OF d(1)], of "l\<lparr>rest := len_bytes db @ after, load_checksum := c\<rparr>" after] assms(1) by simp
  show ?thesis
    unfolding Load_loop.simps read_opcode [OF assms(1,2) o] if_P [OF refl] l d(2) BuildCrc32_append by simp
qed

lemma Load_loop_expire:
  assumes "loadable l" "rest l = char_of NRDB_OPCODE_EXPIRE_MS # len_bytes (nat x) @ after" "in_int64 x" "0 \<le> x"
  shows "Load_loop (Suc n) e h dbid ex l s = Load_loop n e h dbid (Some x)
    (l\<lparr>rest := after, load_checksum := BuildCrc32 (load_checksum l) (char_of NRDB_OPCODE_EXPIRE_MS # len_bytes (nat x))\<rparr>) s"
proof -
  have o: "NRDB_OPCODE_EXPIRE_MS < 256" by (simp add: nrdb_consts)
  have d: "nat x < 2 ^ 64" "to_int64 (nat x) = x" using assms(3,4) by (simp_all add: bounds_defs to_int64_def)
  have l: "load_step ReadLen (l\<lparr>rest := len_bytes (nat x) @ after, load_checksum := c\<rparr>) s k =
      k (nat x) (l\<lparr>rest := after, load_checksum := BuildCrc32 c (len_bytes (nat x))\<rparr>)" for c k
    using load_step_reads [OF reads_ReadLen [OF d(1)], of "l\<lparr>rest := len_bytes (nat x) @ after, load_checksum := c\<rparr>" after] assms(1) by simp
  show ?thesis
    unfolding Load_loop.simps read_opcode [OF assms(1,2) o]
    by (simp only: opcodes_distinct simp_thms if_False if_True l d(2) BuildCrc32_append append_Cons append_Nil)
qed

lemma Load_loop_eof:
  assumes "loadable l" "rest l = char_of NRDB_OPCODE_EOF # le_bytes 4 (unat (BuildCrc32 (load_checksum l) [char_of NRDB_OPCODE_EOF]))"
  shows "Load_loop (Suc n) e h dbid ex l s = Inr (None, s)"
proof -
  let ?c = "BuildCrc32 (load_checksum l) [char_of NRDB_OPCODE_EOF]"
  have o: "NRDB_OPCODE_EOF < 256" by (simp add: nrdb_consts)
  have "unat ?c < 2 ^ LENGTH(32)" by (rule unsigned_less)
  then have v: "le_value (le_bytes 4 (unat ?c)) = unat ?c" by (simp add: le_value_le_bytes)
  have "load_step LoadFooter (l\<lparr>rest := le_bytes 4 (unat ?c), load_checksum := ?c\<rparr>) s k =
      k () (l\<lparr>rest := [], load_checksum := ?c\<rparr>)" for k
    using assms(1) v by (cases l) (simp add: load_step_def LoadFooter_def FileSource_Read_def loadable_def)
  then show ?thesis
    unfolding Load_loop.simps read_opcode [OF assms(1,2) o]
    by (simp only: opcodes_distinct simp_thms if_False if_True)
qed

lemma Load_loop_entry:
  assumes "loadable l" "rest l = (char_of (value_opcode v) # string_bytes (GetStringView key) @ value_bytes v) @ after"
    "fits e (GetStringView key)" "obj_ok v" "value_fits e v"
  shows "Load_loop (Suc n) e (Some h) dbid ex l s =
    bind_r (h dbid (FromString (GetStringView key)) (reloaded v) (case ex of Some at \<Rightarrow> at | None \<Rightarrow> 0) s) (\<lambda>(ec, s).
      case ec of Some ec \<Rightarrow> Inr (Some ec, s) | None \<Rightarrow> Load_loop n e (Some h) dbid None
        (l\<lparr>rest := after, load_checksum := BuildCrc32 (load_checksum l)
            (char_of (value_opcode v) # string_bytes (GetStringView key) @ value_bytes v)\<rparr>) s)"
proof -
  have o: "value_opcode v < 256" using value_opcode_small [of v] by simp
  have ne: "value_opcode v \<noteq> NRDB_OPCODE_DB_SELECT" "value_opcode v \<noteq> NRDB_OPCODE_DB_SIZE"
    "value_opcode v \<noteq> NRDB_OPCODE_EXPIRE_MS" "value_opcode v \<noteq> NRDB_OPCODE_EOF"
    using value_opcode_small [of v] by (auto simp: nrdb_consts)
  have r: "rest l = char_of (value_opcode v) # string_bytes (GetStringView key) @ value_bytes v @ after" using assms(2) by simp
  have k: "load_step (ReadString e) (l\<lparr>rest := string_bytes (GetStringView key) @ bs, load_checksum := c\<rparr>) s k =
      k (GetStringView key) (l\<lparr>rest := bs, load_checksum := BuildCrc32 c (string_bytes (GetStringView key))\<rparr>)" for c k bs
    using load_step_reads [OF reads_string [OF assms(3)], of "l\<lparr>rest := string_bytes (GetStringView key) @ bs, load_checksum := c\<rparr>" bs]
      assms(1) by simp
  have v: "load_step (ReadObject e (value_opcode v)) (l\<lparr>rest := value_bytes v @ bs, load_checksum := c\<rparr>) s k =
      k (reloaded v) (l\<lparr>rest := bs, load_checksum := BuildCrc32 c (value_bytes v)\<rparr>)" for c k bs
    using load_step_reads [OF reads_value [OF assms(4,5)], of "l\<lparr>rest := value_bytes v @ bs, load_checksum := c\<rparr>" bs] assms(1) by simp
  show ?thesis
    unfolding Load_loop.simps read_opcode [OF assms(1) r o]
    by (simp only: ne if_False k v BuildCrc32_append append_Cons append_Nil append_assoc Let_def option.case)
qed

lemma load_entries:
  assumes "loadable l" "list_all (entry_ok e) es" "prev = dbid \<or> prev = 2 ^ 32 - 1"
    "rest l = entries_bytes prev es @ char_of NRDB_OPCODE_EOF # tail" "length (rest l) < n"
    "tail = le_bytes 4 (unat (BuildCrc32 (load_checksum l) (entries_bytes prev es @ [char_of NRDB_OPCODE_EOF])))"
  shows "Load_loop n e (Some h) dbid None l s = deliver h es s"
  using assms
proof (induction es arbitrary: prev dbid l n s)
  case Nil
  then obtain m where n: "n = Suc m" by (cases n) auto
  show ?case unfolding n by (simp only: deliver.simps) (rule Load_loop_eof; use Nil.prems in simp)
next
  case (Cons en es)
  obtain db key v x where en: "en = (db, key, v, x)" by (cases en)
  have ok: "db < 2 ^ 32 - 1" "fits e (GetStringView key)" "obj_ok v" "value_fits e v" "in_int64 x"
    using Cons.prems(2) by (simp_all add: en entry_ok_def)
  let ?sb = "if db = prev then [] else char_of NRDB_OPCODE_DB_SELECT # len_bytes db"
  let ?xb = "if x > 0 then char_of NRDB_OPCODE_EXPIRE_MS # len_bytes (nat x) else []"
  let ?vb = "char_of (value_opcode v) # string_bytes (GetStringView key) @ value_bytes v"
  let ?eof = "entries_bytes db es @ char_of NRDB_OPCODE_EOF # tail"
  let ?l = "\<lambda>bs c. l\<lparr>rest := bs, load_checksum := BuildCrc32 (load_checksum l) c\<rparr>"
  have r: "rest l = ?sb @ ?xb @ ?vb @ ?eof" using Cons.prems(4) by (simp add: en)
  have ld: "loadable (?l bs c)" for bs c using Cons.prems(1) by simp
  obtain m1 where m1: "Load_loop n e (Some h) dbid None l s = Load_loop m1 e (Some h) db None (?l (?xb @ ?vb @ ?eof) ?sb) s"
    "length (?xb @ ?vb @ ?eof) < m1"
  proof (cases "db = prev")
    case True
    with Cons.prems(3) ok(1) have "dbid = db" by auto
    moreover have "?l (?xb @ ?vb @ ?eof) ?sb = l" using True r by (simp add: BuildCrc32_Nil)
    ultimately show thesis by (intro that [of n]) (use Cons.prems(5) r True in simp_all)
  next
    case False
    obtain m where n: "n = Suc m" using Cons.prems(5) by (cases n) auto
    have "rest l = char_of NRDB_OPCODE_DB_SELECT # len_bytes db @ ?xb @ ?vb @ ?eof" "db < 2 ^ 32" using r False ok(1) by simp_all
    from Load_loop_select [OF Cons.prems(1) this, of m e "Some h" dbid None s]
    have eq: "Load_loop n e (Some h) dbid None l s = Load_loop m e (Some h) db None (?l (?xb @ ?vb @ ?eof) ?sb) s"
      unfolding n if_not_P [OF False] .
    show thesis by (rule that [OF eq]) (use Cons.prems(5) r False n in simp)
  qed
  obtain m2 ex where m2: "Load_loop m1 e (Some h) db None (?l (?xb @ ?vb @ ?eof) ?sb) s = Load_loop m2 e (Some h) db ex (?l (?vb @ ?eof) (?sb @ ?xb)) s"
    "length (?vb @ ?eof) < m2" "(case ex of Some at \<Rightarrow> at | None \<Rightarrow> 0) = max 0 x"
  proof (cases "x > 0")
    case True
    obtain m where n: "m1 = Suc m" using m1(2) by (cases m1) auto
    have "rest (?l (?xb @ ?vb @ ?eof) ?sb) = char_of NRDB_OPCODE_EXPIRE_MS # len_bytes (nat x) @ ?vb @ ?eof" using True by simp
    from Load_loop_expire [OF ld this ok(5), of m e "Some h" db None s] True
    have eq: "Load_loop m1 e (Some h) db None (?l (?xb @ ?vb @ ?eof) ?sb) s = Load_loop m e (Some h) db (Some x) (?l (?vb @ ?eof) (?sb @ ?xb)) s"
      by (simp add: n BuildCrc32_append)
    show thesis by (rule that [OF eq]) (use m1(2) True n in simp_all)
  next
    case False
    then show thesis by (intro that [of m1 None]) (use m1(2) in simp_all)
  qed
  obtain m where n: "m2 = Suc m" using m2(2) by (cases m2) auto
  have rv: "rest (?l (?vb @ ?eof) (?sb @ ?xb)) = ?vb @ ?eof" by simp
  have IH: "Load_loop m e (Some h) db None (?l ?eof ((?sb @ ?xb) @ ?vb)) s' = deliver h es s'" for s'
    by (rule Cons.IH [OF ld, where prev = db]) (use Cons.prems(2,6) m2(2) n in \<open>simp_all add: en BuildCrc32_append\<close>)
  have upd: "(?l bs c)\<lparr>rest := bs', load_checksum := BuildCrc32 (load_checksum (?l bs c)) c'\<rparr> = ?l bs' (c @ c')" for bs c bs' c'
    by (simp add: BuildCrc32_append)
  show ?case
    unfolding m1(1) m2(1) n Load_loop_entry [OF ld rv ok(2-4)] upd IH m2(3) by (simp only: en deliver.simps prod.case)
qed

section \<open>Termination of the loader\<close>

text \<open>An operation that does not give back bytes it was not given, and does not loop.\<close>

definition steady :: "'a load \<Rightarrow> bool" where
  "steady f \<longleftrightarrow> (\<forall>l. f l \<noteq> Inl Diverges \<and> (\<forall>r l'. f l = Inr (r, l') \<longrightarrow> length (rest l') \<le> length (rest l)))"

named_theorems steady_intros "operations of the loader that only consume bytes"

lemma steady_return [steady_intros]: "steady (load_return x)"
  by (simp add: steady_def load_return_def)

lemma steady_fail [steady_intros]: "steady (load_fail ec)"
  by (simp add: steady_def load_fail_def)

lemma steady_lift [steady_intros]: "r \<noteq> Inl Diverges \<Longrightarrow> steady (load_lift r)"
  by (cases r) (simp_all add: steady_def load_lift_def)

lemma steady_bind [steady_intros]: "steady f \<Longrightarrow> (\<And>x. steady (g x)) \<Longrightarrow> steady (load_bind f g)"
  unfolding steady_def [of "load_bind f g"]
proof (intro allI)
  assume f: "steady f" and g: "\<And>x. steady (g x)"
  fix l
  show "load_bind f g l \<noteq> Inl Diverges \<and> (\<forall>r l'. load_bind f g l = Inr (r, l') \<longrightarrow> length (rest l') \<le> length (rest l))"
  proof (cases "f l")
    case (Inl x)
    with f show ?thesis by (auto simp: steady_def load_bind_def)
  next
    case (Inr p)
    obtain r l1 where p: "p = (r, l1)" by (cases p)
    have le: "length (rest l1) \<le> length (rest l)" using f Inr p by (simp add: steady_def)
    show ?thesis
    proof (cases r)
      case (Inr x)
      have "g x l1 \<noteq> Inl Diverges" "\<And>r l'. g x l1 = Inr (r, l') \<Longrightarrow> length (rest l') \<le> length (rest l1)"
        using g [of x] by (simp_all add: steady_def)
      with Inr \<open>f l = Inr p\<close> p le show ?thesis by (force simp: load_bind_def)
    qed (use \<open>f l = Inr p\<close> p le in \<open>simp add: load_bind_def\<close>)
  qed
qed

lemma steady_if [steady_intros]: "(b \<Longrightarrow> steady f) \<Longrightarrow> (\<not> b \<Longrightarrow> steady g) \<Longrightarrow> steady (if b then f else g)"
  by simp

lemma steady_ReadRaw [steady_intros]: "steady (ReadRaw n)"
  by (auto simp: steady_def ReadRaw_def FileSource_Read_def split: if_splits)

lemma steady_ReadOpcode [steady_intros]: "steady ReadOpcode"
  unfolding ReadOpcode_def by (intro steady_intros)

lemma steady_ReadLen_loop: "steady (ReadLen_loop rounds len)"
proof (induction rounds len rule: ReadLen_loop.induct)
  case (1 rounds len)
  have "shift_in len byte s \<noteq> Inl Diverges" for len byte s by (simp add: shift_in_def)
  then show ?case by (subst ReadLen_loop.simps) (intro steady_intros 1)
qed

lemma steady_ReadLen [steady_intros]: "steady ReadLen"
  by (simp add: ReadLen_def steady_ReadLen_loop)

lemma steady_ReadString [steady_intros]: "steady (ReadString e)"
  unfolding ReadString_def by (intro steady_intros) (simp add: resize_def)

lemma steady_times [steady_intros]: "(\<And>c. steady (f c)) \<Longrightarrow> steady (read_times n f c)"
  by (induction n arbitrary: c) (auto intro!: steady_intros)

lemma steady_ReadObject [steady_intros]: "steady (ReadObject e ty)"
  unfolding ReadObject_def by (intro steady_intros)

lemma steady_LoadHeader [steady_intros]: "steady LoadHeader"
proof -
  have "steady (\<lambda>l. if P l then load_fail invalid_argument l else load_return () l)" for P
    by (auto simp: steady_def load_fail_def load_return_def)
  then show ?thesis unfolding LoadHeader_def by (intro steady_intros)
qed

lemma steady_LoadFooter [steady_intros]: "steady LoadFooter"
  by (auto simp: steady_def LoadFooter_def FileSource_Read_def Let_def split: if_splits)

lemma load_step_steady:
  assumes "steady f" "\<And>x l'. f l = Inr (Inr x, l') \<Longrightarrow> length (rest l') \<le> length (rest l) \<Longrightarrow> k x l' \<noteq> Inl Diverges"
  shows "load_step f l s k \<noteq> Inl Diverges"
proof (cases "f l")
  case (Inr p)
  obtain r l' where p: "p = (r, l')" by (cases p)
  with Inr assms show ?thesis by (cases r) (auto simp: load_step_def steady_def)
qed (use assms(1) in \<open>auto simp: load_step_def steady_def\<close>)

lemma ReadOpcode_shrinks: "ReadOpcode l = Inr (Inr x, l') \<Longrightarrow> length (rest l') < length (rest l)"
  by (auto simp: ReadOpcode_def load_bind_def load_return_def ReadRaw_def FileSource_Read_def split: if_splits)

lemma neq_if: "(b \<Longrightarrow> x \<noteq> z) \<Longrightarrow> (\<not> b \<Longrightarrow> y \<noteq> z) \<Longrightarrow> (if b then x else y) \<noteq> z"
  by simp

lemma Load_loop_steady:
  assumes "length (rest l) < n" "\<forall>h. handler = Some h \<longrightarrow> (\<forall>dbid key v x s. h dbid key v x s \<noteq> Inl Diverges)"
  shows "Load_loop n e handler dbid ex l s \<noteq> Inl Diverges"
  using assms
proof (induction n arbitrary: dbid ex l s)
  case (Suc n)
  note IH = Suc.IH [OF _ Suc.prems(2)]
  have last: "(case handler of None \<Rightarrow> Load_loop n e handler dbid None l' s
      | Some h \<Rightarrow> bind_r (h dbid key v x s) (\<lambda>(ec, s). case ec of Some ec \<Rightarrow> Inr (Some ec, s)
          | None \<Rightarrow> Load_loop n e handler dbid None l' s)) \<noteq> Inl Diverges"
    if "length (rest l') < n" for key v x l'
    using IH that Suc.prems(2) by (auto simp: bind_r_Inl_iff split: option.splits)
  show ?case
    unfolding Load_loop.simps
  proof (rule load_step_steady [OF steady_ReadOpcode])
    fix opcode l1
    assume o: "ReadOpcode l = Inr (Inr opcode, l1)"
    have l1: "length (rest l1) < n" using ReadOpcode_shrinks [OF o] Suc.prems(1) by simp
    have len: "load_step ReadLen l1 s k \<noteq> Inl Diverges"
      if "\<And>x l'. length (rest l') < n \<Longrightarrow> k x l' \<noteq> Inl Diverges" for k :: "nat \<Rightarrow> rdb_loader \<Rightarrow> (errc option \<times> 'a) result"
      by (rule load_step_steady [OF steady_ReadLen]) (use l1 that in auto)
    have foot: "load_step LoadFooter l1 s (\<lambda>_ l. Inr (None, s)) \<noteq> Inl Diverges"
      by (rule load_step_steady [OF steady_LoadFooter]) simp
    have ent: "load_step (ReadString e) l1 s (\<lambda>key l. load_step (ReadObject e opcode) l s (\<lambda>v l.
        let x = (case ex of Some at \<Rightarrow> at | None \<Rightarrow> 0)
        in case handler of None \<Rightarrow> Load_loop n e handler dbid None l s
          | Some h \<Rightarrow> bind_r (h dbid (FromString key) v x s) (\<lambda>(ec, s). case ec of Some ec \<Rightarrow> Inr (Some ec, s)
              | None \<Rightarrow> Load_loop n e handler dbid None l s))) \<noteq> Inl Diverges"
      unfolding Let_def
      by (rule load_step_steady [OF steady_ReadString], rule load_step_steady [OF steady_ReadObject])
        (rule last, use l1 in linarith)
    show "(if opcode = NRDB_OPCODE_DB_SELECT then
         load_step ReadLen l1 s (\<lambda>selected_db l. Load_loop n e handler (selected_db mod 2 ^ 32) None l s)
       else if opcode = NRDB_OPCODE_DB_SIZE then
         load_step ReadLen l1 s (\<lambda>ignored l. Load_loop n e handler dbid ex l s)
       else if opcode = NRDB_OPCODE_EXPIRE_MS then
         load_step ReadLen l1 s (\<lambda>at l. Load_loop n e handler dbid (Some (to_int64 at)) l s)
       else if opcode = NRDB_OPCODE_EOF then
         load_step LoadFooter l1 s (\<lambda>_ l. Inr (None, s))
       else
         load_step (ReadString e) l1 s (\<lambda>key l.
         load_step (ReadObject e opcode) l s (\<lambda>value l.
           let entry_expire_ms = (case ex of Some at \<Rightarrow> at | None \<Rightarrow> 0)
           in case handler of
                None \<Rightarrow> Load_loop n e handler dbid None l s
              | Some h \<Rightarrow> bind_r (h dbid (FromString key) value entry_expire_ms s) (\<lambda>(ec, s).
                  case ec of Some ec \<Rightarrow> Inr (Some ec, s) | None \<Rightarrow> Load_loop n e handler dbid None l s)))) \<noteq> Inl Diverges"
      by (intro neq_if len foot ent IH)
  qed
qed simp

section \<open>Whole files\<close>

definition file_header :: "nat \<Rightarrow> nat \<Rightarrow> nat \<Rightarrow> string" where
  "file_header now_ms shard_id num =
     kNrdbMagic @ le_bytes 4 shard_id @ le_bytes 4 num @ le_bytes 8 now_ms @ le_bytes 2 16"

definition file_body :: "nat \<Rightarrow> nat \<Rightarrow> nat \<Rightarrow> rdb_entry list \<Rightarrow> string" where
  "file_body now_ms shard_id num es =
     file_header now_ms shard_id num @ entries_bytes (2 ^ 32 - 1) es @ [char_of NRDB_OPCODE_EOF]"

definition file_bytes :: "nat \<Rightarrow> nat \<Rightarrow> nat \<Rightarrow> rdb_entry list \<Rightarrow> string" where
  "file_bytes now_ms shard_id num es =
     file_body now_ms shard_id num es @ le_bytes 4 (unat (BuildCrc32 0 (file_body now_ms shard_id num es)))"

lemma save_header:
  obtains n where "SaveHeader now_ms (RdbSerializer_new True (\<lambda>_. None) shard_id num) =
    (None, (RdbSerializer_new True (\<lambda>_. None) shard_id num)\<lparr>append_calls := n, sink_bytes := file_header now_ms shard_id num,
       ser_checksum := BuildCrc32 0 (file_header now_ms shard_id num)\<rparr>)"
proof -
  let ?s = "RdbSerializer_new True (\<lambda>_. None) shard_id num"
  have g: "good_sink ?s" by (simp add: good_sink_def RdbSerializer_new_def)
  have r: "?s\<lparr>ser_checksum := 0\<rparr> = ?s" by (simp add: RdbSerializer_new_def)
  have "emits (and_then (WriteRaw kNrdbMagic) (and_then (WriteRaw (le_bytes 4 shard_id)) (and_then (WriteRaw (le_bytes 4 num))
      (and_then (WriteRaw (le_bytes 8 now_ms)) (WriteRaw (le_bytes 2 16)))))) (file_header now_ms shard_id num)"
    unfolding file_header_def by (intro emits_intros)
  from emitsD [OF this g] obtain n where
    "SaveHeader now_ms ?s = (None, ?s\<lparr>append_calls := n, sink_bytes := file_header now_ms shard_id num,
       ser_checksum := BuildCrc32 0 (file_header now_ms shard_id num)\<rparr>)"
    unfolding SaveHeader_def r by (auto simp: RdbSerializer_new_def)
  then show thesis by (rule that)
qed

lemma save_footer:
  assumes "good_sink s" "ser_checksum s = BuildCrc32 0 (sink_bytes s)"
  obtains s' where "SaveFooter s = (None, s')"
    "sink_bytes s' = (sink_bytes s @ [char_of NRDB_OPCODE_EOF]) @
       le_bytes 4 (unat (BuildCrc32 0 (sink_bytes s @ [char_of NRDB_OPCODE_EOF])))"
proof -
  let ?eof = "char_of NRDB_OPCODE_EOF" and ?crc = "BuildCrc32 0 (sink_bytes s @ [char_of NRDB_OPCODE_EOF])"
  from emitsD [OF emits_WriteRaw assms(1), of "[?eof]"] obtain m where
    w: "WriteRaw [?eof] s = (None, s\<lparr>append_calls := m, sink_bytes := sink_bytes s @ [?eof],
      ser_checksum := BuildCrc32 (ser_checksum s) [?eof]\<rparr>)" (is "_ = (None, ?s)") .
  have g: "good_sink ?s" using assms(1) by (simp add: good_sink_def)
  have c: "ser_checksum ?s = ?crc" using assms(2) by (simp add: BuildCrc32_append)
  from emitsD [OF emits_WriteRaw g, of "le_bytes 4 (unat ?crc)"] obtain n where
    "WriteRaw (le_bytes 4 (unat ?crc)) ?s = (None, ?s\<lparr>append_calls := n, sink_bytes := sink_bytes ?s @ le_bytes 4 (unat ?crc),
      ser_checksum := BuildCrc32 (ser_checksum ?s) (le_bytes 4 (unat ?crc))\<rparr>)" .
  then have "SaveFooter s = (None, ?s\<lparr>append_calls := n, sink_bytes := sink_bytes ?s @ le_bytes 4 (unat ?crc),
      ser_checksum := BuildCrc32 (ser_checksum ?s) (le_bytes 4 (unat ?crc))\<rparr>)"
    unfolding SaveFooter_def WriteOpcode_def and_then_def w prod.case option.case c .
  then show thesis by (rule that) simp
qed

lemma save_file:
  assumes "list_all (entry_ok e) es"
  obtains s where
    "and_then (SaveHeader now_ms) (and_then (save_entries es) SaveFooter) (RdbSerializer_new True (\<lambda>_. None) shard_id num) = (None, s)"
    "sink_bytes s = file_bytes now_ms shard_id num es"
proof -
  let ?s0 = "RdbSerializer_new True (\<lambda>_. None) shard_id num"
  let ?hd = "file_header now_ms shard_id num" and ?es = "entries_bytes (2 ^ 32 - 1) es"
  obtain n where h: "SaveHeader now_ms ?s0 = (None, ?s0\<lparr>append_calls := n, sink_bytes := ?hd, ser_checksum := BuildCrc32 0 ?hd\<rparr>)"
    (is "_ = (None, ?s1)") by (rule save_header)
  have "good_sink ?s1" "last_dbid ?s1 = 2 ^ 32 - 1" by (simp_all add: RdbSerializer_new_def good_sink_def)
  from save_entries_bytes [OF this(1) assms(1), unfolded this(2)] obtain n d where
    b: "save_entries es ?s1 = (None, ?s1\<lparr>append_calls := n, sink_bytes := ?hd @ ?es, ser_checksum := BuildCrc32 0 (?hd @ ?es), last_dbid := d\<rparr>)"
    (is "_ = (None, ?s2)") by (auto simp: BuildCrc32_append)
  have "good_sink ?s2" "ser_checksum ?s2 = BuildCrc32 0 (sink_bytes ?s2)"
    by (simp_all add: RdbSerializer_new_def good_sink_def)
  then obtain s where f: "SaveFooter ?s2 = (None, s)" "sink_bytes s = file_bytes now_ms shard_id num es"
    by (rule save_footer) (simp add: file_bytes_def file_body_def)
  have "and_then (SaveHeader now_ms) (and_then (save_entries es) SaveFooter) ?s0 = (None, s)"
    unfolding and_then_def [of "SaveHeader now_ms"] h prod.case option.case and_then_def [of "save_entries es"] b f(1) ..
  then show thesis using f(2) by (rule that)
qed

lemma load_file:
  assumes "list_all (entry_ok e) es" "shard_id < 2 ^ 32"
  shows "Load e (Some h) (RdbLoader_new True (file_bytes now_ms shard_id num es) shard_id) st = deliver h es st"
proof -
  let ?hd = "file_header now_ms shard_id num" and ?es = "entries_bytes (2 ^ 32 - 1) es" and ?eof = "char_of NRDB_OPCODE_EOF"
  let ?crc = "BuildCrc32 0 (?hd @ ?es @ [?eof])"
  let ?l0 = "RdbLoader_new True (file_bytes now_ms shard_id num es) shard_id"
  let ?l1 = "?l0\<lparr>rest := ?es @ ?eof # le_bytes 4 (unat ?crc), load_checksum := BuildCrc32 0 ?hd\<rparr>"
  have l0: "loadable ?l0" "?l0\<lparr>load_checksum := 0\<rparr> = ?l0"
    by (simp_all add: loadable_def RdbLoader_new_def)
  have rd: "length bs = n \<Longrightarrow> ReadRaw n (?l0\<lparr>rest := bs @ xs, load_checksum := c\<rparr>) =
      Inr (Inr bs, ?l0\<lparr>rest := xs, load_checksum := BuildCrc32 c bs\<rparr>)" for n bs xs c
    using reads_ReadRaw [of bs n, unfolded reads_def, rule_format, of "?l0\<lparr>rest := bs @ xs, load_checksum := c\<rparr>" xs] l0(1) by simp
  have st: "?l0 = ?l0\<lparr>rest := ?hd @ ?es @ ?eof # le_bytes 4 (unat ?crc), load_checksum := 0\<rparr>"
    by (simp add: RdbLoader_new_def file_bytes_def file_body_def)
  have sh: "le_value (le_bytes 4 shard_id) = expected_shard_id ?l0" "length kNrdbMagic = 8"
    using assms(2) by (simp_all add: le_value_le_bytes RdbLoader_new_def kNrdbMagic_def)
  have "LoadHeader (?l0\<lparr>rest := ?hd @ ?es @ ?eof # le_bytes 4 (unat ?crc), load_checksum := 0\<rparr>) = Inr (Inr (), ?l1)"
    by (simp add: file_header_def LoadHeader_def load_bind_def load_return_def rd sh BuildCrc32_append)
  then have "LoadHeader ?l0 = Inr (Inr (), ?l1)" using st by simp
  moreover have "Load_loop (Suc (length (rest ?l1))) e (Some h) 0 None ?l1 st = deliver h es st"
    by (rule load_entries [where prev = "2 ^ 32 - 1"]) (use l0(1) assms(1) in \<open>simp_all add: BuildCrc32_append\<close>)
  ultimately show ?thesis unfolding Load_def l0(2) by (simp add: load_step_def)
qed

section \<open>Properties of dump files\<close>



text \<open>
  C36: loading a file ends whatever its bytes are: each round of the loop consumes its opcode, so
  the bound of one round per byte is never reached.  (The end may be an exception: a length in a
  damaged file is used to allocate before it is compared with the bytes that are left.)
\<close>

theorem Load_terminates:
  assumes "\<forall>h. handler = Some h \<longrightarrow> (\<forall>dbid key v x s. h dbid key v x s \<noteq> Inl Diverges)"
  shows "Load e handler l s \<noteq> Inl Diverges"
  unfolding Load_def
  by (rule load_step_steady [OF steady_LoadHeader]) (rule Load_loop_steady [OF _ assms], simp)

theorem Load_terminates_witness:
  "Load (env_at 0) (Some (\<lambda>db k v x st. Inr (None, ()))) (RdbLoader_new True ''NRDB0001'' 0) () \<noteq> Inl Diverges"
  by (rule Load_terminates) simp

end
