(* ===== verification/Persistence.thy ===== *)
theory Persistence
  imports Rdb_Loader
begin

text \<open>
  Saving and loading the databases: \<open>src/server/slice_snapshot.cc\<close>, \<open>SaveToFile\<close> and
  \<open>BgSaveToFile\<close> of \<open>src/command/server_family.cc\<close>, and \<open>LoadFromFile\<close> of
  \<open>src/server/sharded_server.cc\<close>.

  \<open>disk\<close> holds the files and says which file operations fail.  A snapshot of a shard runs to its
  end as one task of the shard, so no command changes a table meanwhile; \<open>OnPreModify\<close> is the
  callback that a table would call before a change.
\<close>

section \<open>Snapshots of a shard\<close>

record slice_snapshot =
  snap_db :: database
  snap_serializer :: rdb_serializer
  snapshot_version :: nat
  snap_error :: "errc option"

text \<open>The entries of a segment that are not expired, with their deadlines (0 for none).\<close>

definition live_entries :: "int \<Rightarrow> database \<Rightarrow> nat \<Rightarrow> (nano_obj \<times> nano_obj) list \<Rightarrow> (nano_obj \<times> nano_obj \<times> int) list" where
  "live_entries now_ms db i kvs =
     List.map_filter (\<lambda>(key, value).
         case nt_Find (expire_tables db ! i) key of
           None \<Rightarrow> Some (key, value, 0)
         | Some exp \<Rightarrow> if exp \<le> now_ms then None else Some (key, value, exp)) kvs"

definition save_live :: "nat \<Rightarrow> (nano_obj \<times> nano_obj \<times> int) list \<Rightarrow> save" where
  "save_live dbid = save_all (\<lambda>(key, value, expire_ms). SaveEntry key value expire_ms dbid)"

definition SerializeSegment :: "int \<Rightarrow> nat \<Rightarrow> nat \<Rightarrow> slice_snapshot \<Rightarrow> slice_snapshot" where
  "SerializeSegment now_ms dbi dir_idx sn =
     (if snap_error sn \<noteq> None \<or> dbi \<ge> kNumDBs then sn
      else
        let (ec, s) = save_live dbi
              (live_entries now_ms (snap_db sn) dbi (DashTable_ForEachInSeg (tables (snap_db sn) ! dbi) dir_idx))
              (snap_serializer sn)
        in sn\<lparr>snap_serializer := s, snap_error := ec\<rparr>)"

text \<open>\<open>OnPreModify\<close>, which is also the body of the loop of \<open>SerializeDB\<close>.\<close>

definition OnPreModify :: "int \<Rightarrow> nat \<Rightarrow> nat \<Rightarrow> slice_snapshot \<Rightarrow> slice_snapshot" where
  "OnPreModify now_ms dbi dir_idx sn =
     (if dbi \<ge> kNumDBs then sn
      else if GetSegVersion (tables (snap_db sn) ! dbi) dir_idx < snapshot_version sn then
        let sn = SerializeSegment now_ms dbi dir_idx sn
        in sn\<lparr>snap_db := set_table dbi
              (SetSegVersion (tables (snap_db sn) ! dbi) dir_idx (snapshot_version sn)) (snap_db sn)\<rparr>
      else sn)"

definition SerializeDB :: "(nat \<Rightarrow> int) \<Rightarrow> nat \<Rightarrow> slice_snapshot \<Rightarrow> slice_snapshot" where
  "SerializeDB now_ms dbi sn =
     (if dbi \<ge> kNumDBs \<or> DashTable_Size (tables (snap_db sn) ! dbi) = 0 then sn
      else fold (\<lambda>dir_idx sn.
             if snap_error sn \<noteq> None then sn else OnPreModify (now_ms dir_idx) dbi dir_idx sn)
           (seg_walk (tables (snap_db sn) ! dbi) 0) sn)"

text \<open>The error code is that of the first database that fails; an early return skips the others.\<close>

definition SerializeAllDBs :: "(nat \<Rightarrow> nat \<Rightarrow> int) \<Rightarrow> slice_snapshot \<Rightarrow> slice_snapshot" where
  "SerializeAllDBs now_ms sn =
     fold (\<lambda>dbi sn. if snap_error sn \<noteq> None then sn else SerializeDB (now_ms dbi) dbi sn)
       [0..<kNumDBs] sn"

section \<open>Files\<close>

record disk =
  files :: "string \<Rightarrow> string option"
  cannot_open :: "string \<Rightarrow> bool"
  cannot_write :: "nat \<Rightarrow> bool"
  cannot_flush :: bool
  cannot_rename :: bool

text \<open>\<open>FileSink::Append\<close>: the error code of the \<open>n\<close>-th call.\<close>

definition FileSink_Append :: "disk \<Rightarrow> nat \<Rightarrow> errc option" where
  "FileSink_Append d n = (if cannot_write d n then Some io_error else None)"

definition FlushAndClose :: "disk \<Rightarrow> errc option" where
  "FlushAndClose d = (if cannot_flush d then Some io_error else None)"

definition tmp_path :: "string \<Rightarrow> string" where
  "tmp_path file_path = file_path @ ''.tmp''"

text \<open>The bytes written so far are in the temporary file; success moves it to its final name.\<close>

definition finish_file :: "string \<Rightarrow> errc option \<Rightarrow> rdb_serializer \<Rightarrow> disk \<Rightarrow> errc option \<times> disk" where
  "finish_file file_path ec s d =
     (let d = d\<lparr>files := (files d)(tmp_path file_path \<mapsto> sink_bytes s)\<rparr>
      in case ec of
           Some ec \<Rightarrow> (Some ec, d)
         | None \<Rightarrow>
             (case FlushAndClose d of
                Some ec \<Rightarrow> (Some ec, d)
              | None \<Rightarrow>
                  if cannot_rename d then (Some io_error, d)
                  else (None, d\<lparr>files := (files d)(tmp_path file_path := None, file_path \<mapsto> sink_bytes s)\<rparr>)))"

text \<open>A loop over parts that write; it stops at the first error.\<close>

type_synonym part = "rdb_serializer \<Rightarrow> world \<Rightarrow> ((errc option \<times> rdb_serializer) \<times> world) result"

primrec save_parts :: "part list \<Rightarrow> part" where
  "save_parts [] s w = Inr ((None, s), w)"
| "save_parts (p # ps) s w =
     bind_r (p s w) (\<lambda>((ec, s), w). case ec of Some ec \<Rightarrow> Inr ((Some ec, s), w) | None \<Rightarrow> save_parts ps s w)"

text \<open>Running \<open>f\<close> on the database of a single-shard context, or on a shard's own thread.\<close>

definition on_shard :: "nat \<Rightarrow> (database \<Rightarrow> rdb_serializer \<Rightarrow> (errc option \<times> rdb_serializer) \<times> database) \<Rightarrow> part" where
  "on_shard shard_id f s w =
     (if IsSingleShard (ctx w) then
        (case GetDB w of
           None \<Rightarrow> Inr ((Some invalid_argument, s), w)
         | Some db \<Rightarrow> let (r, db) = f db s in Inr (r, put_db db w))
      else if \<not> shard_set (ctx w) then Inl NullDeref
      else Await shard_id (Some invalid_argument, s) (\<lambda>db. Inr (f db s)) w)"

definition write_file ::
    "nat \<Rightarrow> string \<Rightarrow> nat \<Rightarrow> part list \<Rightarrow> world \<Rightarrow> disk \<Rightarrow> (errc option \<times> world \<times> disk) result" where
  "write_file num file_path now_ms ps w d =
     (if cannot_open d (tmp_path file_path) then Inr (Some io_error, w, d)
      else
        let (ec, s) = SaveHeader now_ms (RdbSerializer_new True (FileSink_Append d) 0 (num mod 2 ^ 32))
        in case ec of
             Some ec \<Rightarrow> let (r, d) = finish_file file_path (Some ec) s d in Inr (r, w, d)
           | None \<Rightarrow> bind_r (save_parts ps s w) (\<lambda>((ec, s), w).
               case ec of
                 Some ec \<Rightarrow> let (r, d) = finish_file file_path (Some ec) s d in Inr (r, w, d)
               | None \<Rightarrow>
                   let (ec, s) = SaveFooter s; (r, d) = finish_file file_path ec s d
                   in Inr (r, w, d)))"

definition SaveToFile :: "env \<Rightarrow> nat \<Rightarrow> string \<Rightarrow> world \<Rightarrow> disk \<Rightarrow> (errc option \<times> world \<times> disk) result" where
  "SaveToFile e now_ms file_path w d =
     write_file (shard_count (ctx w)) file_path now_ms
       (map (\<lambda>(dbi, shard_id). on_shard shard_id (\<lambda>db s.
            (save_live dbi (ForEachInDB (clk e (dbi * shard_count (ctx w) + shard_id)) dbi db) s, db)))
         (List.product [0..<kNumDBs] [0..<shard_count (ctx w)])) w d"

text \<open>\<open>epoch\<close> is the value of \<open>snapshot_epoch_\<close> after its increment.\<close>

definition snapshot_shard :: "(nat \<Rightarrow> nat \<Rightarrow> int) \<Rightarrow> nat \<Rightarrow> database \<Rightarrow> rdb_serializer \<Rightarrow> (errc option \<times> rdb_serializer) \<times> database" where
  "snapshot_shard now_ms epoch db s =
     (let sn = SerializeAllDBs now_ms
                 \<lparr>snap_db = db, snap_serializer = s, snapshot_version = epoch, snap_error = None\<rparr>
      in ((snap_error sn, snap_serializer sn), snap_db sn))"

definition BgSaveToFile :: "(nat \<Rightarrow> nat \<Rightarrow> nat \<Rightarrow> int) \<Rightarrow> nat \<Rightarrow> nat \<Rightarrow> string \<Rightarrow> world \<Rightarrow> disk \<Rightarrow> (errc option \<times> world \<times> disk) result" where
  "BgSaveToFile now epoch now_ms file_path w d =
     write_file (shard_count (ctx w)) file_path now_ms
       (map (\<lambda>shard_id. on_shard shard_id (snapshot_shard (now shard_id) epoch)) [0..<shard_count (ctx w)]) w d"

section \<open>Loading at start\<close>

text \<open>
  The handler that \<open>LoadFromFile\<close> passes to the loader.  The lambda it awaits captures copies of the
  key and the value, and \<open>Set\<close> copies the value once more.  The number counts clock readings.
\<close>

definition store_loaded :: "int \<Rightarrow> int \<Rightarrow> nat \<Rightarrow> nano_obj \<Rightarrow> nano_obj \<Rightarrow> int \<Rightarrow> database \<Rightarrow> (errc option \<times> database) result" where
  "store_loaded now now' dbid key value expire_ms db =
     (let (db, selected) = Database_Select dbid db
      in if \<not> selected then Inr (Some invalid_argument, db)
         else if expire_ms > 0 then
           bind_r (sub_i64 expire_ms now) (\<lambda>ttl_ms.
             if ttl_ms \<le> 0 then Inr (None, db)
             else bind_r (Database_Set_copy key value db) (\<lambda>db.
                  bind_r (Database_Expire now' key ttl_ms db) (\<lambda>(db, _). Inr (None, db))))
         else bind_r (Database_Set_copy key value db) (\<lambda>db. Inr (None, db)))"

definition load_entry :: "env \<Rightarrow> (world \<times> nat) entry_handler" where
  "load_entry e dbid key value expire_ms st =
     (let (w, n) = st
      in if dbid \<ge> kNumDBs then Inr (Some invalid_argument, st)
         else bind_r (Await (Shard e (GetStringView key) (length (shards w))) (Some invalid_argument)
                (store_loaded (clk e n) (clk e (n + 1)) dbid (NanoObj_copy key) (NanoObj_copy value) expire_ms) w)
              (\<lambda>(ec, w). Inr (ec, w, n + 2)))"

definition LoadFromFile :: "env \<Rightarrow> string \<Rightarrow> disk \<Rightarrow> bool \<Rightarrow> world \<Rightarrow> (errc option \<times> world \<times> bool) result" where
  "LoadFromFile e file_path d pool w =
     (if \<not> pool \<or> \<not> shard_set (ctx w) then Inr (Some invalid_argument, w, False)
      else case files d file_path of
        None \<Rightarrow> Inr (None, w, False)
      | Some bytes \<Rightarrow>
          bind_r (Load e (Some (load_entry e)) (RdbLoader_new True bytes 0) (w, 0)) (\<lambda>(ec, w, n). Inr (ec, w, True)))"

section \<open>What a snapshot writes\<close>

lemma save_all_append: "save_all f (xs @ ys) = and_then (save_all f xs) (save_all f ys)"
proof (induction xs)
  case Nil
  show ?case by (simp add: fun_eq_iff and_then_def)
next
  case (Cons x xs)
  have *: "save_all f (x # zs) = and_then (f x) (save_all f zs)" for zs by (simp add: fun_eq_iff)
  show ?case unfolding append_Cons * Cons.IH and_then_assoc ..
qed

text \<open>Tables that differ in the versions of their segments only; the versions that differ are \<open>ver\<close>.\<close>

definition same_but_versions :: "nat \<Rightarrow> (nano_obj, nano_obj) dashtable \<Rightarrow> (nano_obj, nano_obj) dashtable \<Rightarrow> bool" where
  "same_but_versions ver t t' \<longleftrightarrow> nt_inv t' \<and> nt_Find t' = nt_Find t \<and> max_segment_size t' = max_segment_size t \<and>
     segment_directory t' = segment_directory t \<and> global_depth t' = global_depth t \<and>
     DashTable_ForEachInSeg t' = DashTable_ForEachInSeg t \<and> contents t' = contents t \<and>
     (\<forall>j. GetSegVersion t' j = GetSegVersion t j \<or> GetSegVersion t' j = ver)"

lemma same_but_versionsD:
  assumes "same_but_versions ver t t'"
  shows "nt_inv t'" "nt_Find t' = nt_Find t" "max_segment_size t' = max_segment_size t"
    "segment_directory t' = segment_directory t" "global_depth t' = global_depth t"
    "DashTable_ForEachInSeg t' = DashTable_ForEachInSeg t" "contents t' = contents t"
  using assms by (simp_all add: same_but_versions_def)

lemma same_but_versions_refl: "nt_inv t \<Longrightarrow> same_but_versions ver t t"
  by (simp add: same_but_versions_def)

lemma same_but_versions_trans: "same_but_versions ver t t' \<Longrightarrow> same_but_versions ver t' t'' \<Longrightarrow> same_but_versions ver t t''"
  unfolding same_but_versions_def by metis

lemma SetSegVersion_same:
  assumes "nt_inv t" "j < 2 ^ global_depth t"
  shows "same_but_versions ver t (SetSegVersion t j ver)"
proof -
  have I: "dir_inv t" using assms(1) by (simp add: dt_inv_def)
  have s: "seg_table (seg_at (SetSegVersion t j ver) i) = seg_table (seg_at t i)" if "i < 2 ^ global_depth t" for i
    using seg_at_seg_update [OF I that] by (simp add: SetSegVersion_def)
  have "nt_Find (SetSegVersion t j ver) k = nt_Find t k" for k
    using s [OF GetSegmentIndex_bound [OF I, of NanoObj_hash k]] by (simp add: DashTable_Find_def SetSegVersion_def)
  moreover have "DashTable_ForEachInSeg (SetSegVersion t j ver) i = DashTable_ForEachInSeg t i" for i
    using s [of i] dir_invD(4) [OF I] by (simp add: DashTable_ForEachInSeg_def SetSegVersion_def seg_update_def)
  ultimately show ?thesis
    using SetSegVersion_ok [OF assms]
    by (auto simp: same_but_versions_def fun_eq_iff SetSegVersion_def seg_update_def)
qed

lemma live_entries_set_table [simp]: "live_entries now (set_table i t db) j kvs = live_entries now db j kvs"
  by (simp add: live_entries_def)

lemma live_entries_append: "live_entries now db i (xs @ ys) = live_entries now db i xs @ live_entries now db i ys"
  by (simp add: live_entries_def map_filter_def)

definition snap_step :: "int \<Rightarrow> nat \<Rightarrow> nat \<Rightarrow> slice_snapshot \<Rightarrow> slice_snapshot" where
  "snap_step now dbi dir_idx sn = (if snap_error sn \<noteq> None then sn else OnPreModify now dbi dir_idx sn)"

lemma snap_steps_error: "snap_error sn = Some ec \<Longrightarrow> fold (snap_step now i) js sn = sn"
  by (induction js) (simp_all add: snap_step_def)

lemma snap_steps:
  assumes "i < kNumDBs" "i < length (tables (snap_db sn))" "nt_inv (tables (snap_db sn) ! i)" "snap_error sn = None"
    "set js \<subseteq> {..<2 ^ global_depth (tables (snap_db sn) ! i)}"
    "distinct (map ((!) (segment_directory (tables (snap_db sn) ! i))) js)"
    "\<forall>j\<in>set js. GetSegVersion (tables (snap_db sn) ! i) j < snapshot_version sn"
  shows "\<exists>t. fold (snap_step now i) js sn = sn\<lparr>
      snap_db := set_table i t (snap_db sn),
      snap_serializer := snd (save_live i (live_entries now (snap_db sn) i (concat (map (DashTable_ForEachInSeg (tables (snap_db sn) ! i)) js))) (snap_serializer sn)),
      snap_error := fst (save_live i (live_entries now (snap_db sn) i (concat (map (DashTable_ForEachInSeg (tables (snap_db sn) ! i)) js))) (snap_serializer sn))\<rparr> \<and>
    same_but_versions (snapshot_version sn) (tables (snap_db sn) ! i) t"
  using assms
proof (induction js arbitrary: sn)
  case Nil
  have "sn = sn\<lparr>snap_db := set_table i (tables (snap_db sn) ! i) (snap_db sn), snap_error := None\<rparr>"
    using Nil.prems(4) by (simp add: set_table_def)
  moreover have "save_live i (live_entries now (snap_db sn) i []) (snap_serializer sn) = (None, snap_serializer sn)"
    by (simp add: save_live_def live_entries_def map_filter_def)
  ultimately show ?case using same_but_versions_refl [OF Nil.prems(3)] by auto
next
  case (Cons j js)
  let ?t = "tables (snap_db sn) ! i" and ?e = "\<lambda>kvs. live_entries now (snap_db sn) i kvs"
  let ?s = "snap_serializer sn" and ?t1 = "SetSegVersion (tables (snap_db sn) ! i) j (snapshot_version sn)"
  obtain ec s where s: "save_live i (?e (DashTable_ForEachInSeg ?t j)) ?s = (ec, s)" by force
  let ?sn = "sn\<lparr>snap_db := set_table i ?t1 (snap_db sn), snap_serializer := s, snap_error := ec\<rparr>"
  have step: "snap_step now i j sn = ?sn"
    using Cons.prems(1,4,7) s by (simp add: snap_step_def OnPreModify_def SerializeSegment_def Let_def)
  have j: "j < 2 ^ global_depth ?t" using Cons.prems(5) by simp
  note same = SetSegVersion_same [OF Cons.prems(3) j, of "snapshot_version sn"]
  have app: "save_live i (?e (concat (map (DashTable_ForEachInSeg ?t) (j # js)))) ?s =
      (case ec of Some ec \<Rightarrow> (Some ec, s) | None \<Rightarrow> save_live i (?e (concat (map (DashTable_ForEachInSeg ?t) js))) s)"
    using s by (simp add: live_entries_append save_live_def save_all_append and_then_def split: option.splits)
  show ?case
  proof (cases ec)
    case (Some c)
    have "fold (snap_step now i) (j # js) sn = ?sn" by (simp add: step snap_steps_error Some)
    moreover have "save_live i (?e (concat (map (DashTable_ForEachInSeg ?t) (j # js)))) ?s = (ec, s)"
      unfolding app by (simp add: Some)
    ultimately show ?thesis using same by (intro exI [of _ ?t1]) (simp only: fst_conv snd_conv)
  next
    case None
    have v: "\<forall>j' \<in> set js. GetSegVersion ?t1 j' < snapshot_version sn"
    proof
      fix j' assume j': "j' \<in> set js"
      then have "segment_directory ?t ! j' \<noteq> segment_directory ?t ! j" using Cons.prems(6) by (simp add: image_iff) metis
      then show "GetSegVersion ?t1 j' < snapshot_version sn"
        using j' Cons.prems(7) SetSegVersion_ok(3) [OF Cons.prems(3) j, of "snapshot_version sn" j'] by simp
    qed
    have "\<exists>t. fold (snap_step now i) js ?sn = ?sn\<lparr>
      snap_db := set_table i t (snap_db ?sn),
      snap_serializer := snd (save_live i (?e (concat (map (DashTable_ForEachInSeg ?t) js))) s),
      snap_error := fst (save_live i (?e (concat (map (DashTable_ForEachInSeg ?t) js))) s)\<rparr> \<and> same_but_versions (snapshot_version sn) ?t1 t"
    proof -
      have T: "tables (snap_db ?sn) ! i = ?t1" using Cons.prems(2) by simp
      note S = same_but_versionsD [OF same]
      have "i < length (tables (snap_db ?sn))" "nt_inv (tables (snap_db ?sn) ! i)" "snap_error ?sn = None"
        "set js \<subseteq> {..<2 ^ global_depth (tables (snap_db ?sn) ! i)}"
        "distinct (map ((!) (segment_directory (tables (snap_db ?sn) ! i))) js)"
        "\<forall>j\<in>set js. GetSegVersion (tables (snap_db ?sn) ! i) j < snapshot_version ?sn"
        unfolding T using Cons.prems(2,5,6) S None v by simp_all
      from Cons.IH [OF Cons.prems(1) this] show ?thesis unfolding T S(6) by simp
    qed
    then obtain t where t: "fold (snap_step now i) js ?sn = ?sn\<lparr>
      snap_db := set_table i t (snap_db ?sn),
      snap_serializer := snd (save_live i (?e (concat (map (DashTable_ForEachInSeg ?t) js))) s),
      snap_error := fst (save_live i (?e (concat (map (DashTable_ForEachInSeg ?t) js))) s)\<rparr>" "same_but_versions (snapshot_version sn) ?t1 t" by blast
    have "set_table i t (set_table i ?t1 (snap_db sn)) = set_table i t (snap_db sn)" by (simp add: set_table_def)
    with t same_but_versions_trans [OF same t(2)] show ?thesis
      unfolding app None option.case fold.simps comp_def step by (intro exI [of _ t]) simp
  qed
qed

definition db_versions_below :: "nat \<Rightarrow> database \<Rightarrow> nat \<Rightarrow> bool" where
  "db_versions_below ver db i \<longleftrightarrow> (\<forall>j < SegmentCount (tables db ! i). GetSegVersion (tables db ! i) j < ver)"

definition versions_only :: "nat \<Rightarrow> database \<Rightarrow> database \<Rightarrow> bool" where
  "versions_only ver db db' \<longleftrightarrow> expire_tables db' = expire_tables db \<and> current_db db' = current_db db \<and>
     length (tables db') = length (tables db) \<and> (\<forall>i < kNumDBs. same_but_versions ver (tables db ! i) (tables db' ! i))"

lemma versions_only_ok:
  assumes "db_inv db" "versions_only ver db db'"
  shows "db_inv db'" "current_db db' = current_db db"
    "i < kNumDBs \<Longrightarrow> db_view db' i now k = db_view db i now k" "db_expiry db' = db_expiry db"
  using assms
  by (auto simp: versions_only_def db_inv_def same_but_versions_def db_view_def db_expiry_def IsExpiredInDB_def fun_eq_iff)

lemma versions_only_entries:
  assumes "db_inv db" "versions_only ver db db'" "i < kNumDBs"
  shows "entries db' i = entries db i"
proof -
  have "same_but_versions ver (tables db ! i) (tables db' ! i)" using assms(2,3) by (simp add: versions_only_def)
  note S = same_but_versionsD [OF this]
  have "dir_inv (tables db ! i)" "dir_inv (tables db' ! i)" using S(1) db_invD(4) [OF assms(1,3)] by (simp_all add: dt_inv_def)
  from mset_ForEach [OF this(1)] mset_ForEach [OF this(2)]
  have "mset (DashTable_ForEach (tables db' ! i)) = mset (DashTable_ForEach (tables db ! i))" using S(7) by simp
  then show ?thesis unfolding entries_def by (rule mset_eq_setD)
qed

lemma versions_only_values:
  assumes "db_values V db" "versions_only ver db db'"
  shows "db_values V db'"
  using assms versions_only_ok(1) [OF db_okD(1) [OF assms(1)] assms(2)] versions_only_entries [OF db_okD(1) [OF assms(1)] assms(2)]
  by (simp add: db_values_def)

lemma versions_only_below:
  assumes "versions_only ver db db'" "i < kNumDBs" "db_versions_below ver db i"
  shows "db_versions_below (Suc ver) db' i"
  using assms unfolding versions_only_def same_but_versions_def db_versions_below_def SegmentCount_def
  by (metis less_Suc_eq)

lemma versions_only_refl: "db_inv db \<Longrightarrow> versions_only ver db db"
  by (auto simp: versions_only_def db_inv_def intro: same_but_versions_refl)

lemma versions_only_trans: "versions_only ver db db' \<Longrightarrow> versions_only ver db' db'' \<Longrightarrow> versions_only ver db db''"
  unfolding versions_only_def by (metis same_but_versions_trans)

lemma versions_only_set_table:
  assumes "db_inv db" "i < kNumDBs" "same_but_versions ver (tables db ! i) t"
  shows "versions_only ver db (set_table i t db)"
  using assms by (auto simp: versions_only_def nth_list_update db_inv_def intro: same_but_versions_refl)

definition db_entries :: "int \<Rightarrow> database \<Rightarrow> nat \<Rightarrow> rdb_entry list" where
  "db_entries now db i = map (Pair i) (ForEachInDB now i db)"

lemma save_all_map: "save_all f (map g xs) = save_all (\<lambda>x. f (g x)) xs"
proof (induction xs)
  case (Cons x xs)
  have "save_all f (map g (x # xs)) = and_then (f (g x)) (save_all f (map g xs))" by (simp add: fun_eq_iff)
  also have "\<dots> = save_all (\<lambda>x. f (g x)) (x # xs)" unfolding Cons.IH by (simp add: fun_eq_iff)
  finally show ?case .
qed (simp add: fun_eq_iff)

lemma save_live_entries: "save_live i (ForEachInDB now i db) = save_entries (db_entries now db i)"
  unfolding save_live_def save_entries_def db_entries_def save_all_map by simp

lemma concat_ForEachInSeg: "concat (map (DashTable_ForEachInSeg t) (seg_walk t i)) = concat (map (\<lambda>i. seg_table (seg_at t i)) (seg_walk t i))"
proof (induction t i rule: seg_walk.induct)
  case (1 t i)
  then show ?case by (simp add: seg_walk.simps [of t i] DashTable_ForEachInSeg_def)
qed

lemma SerializeDB_saves:
  assumes inv: "db_inv (snap_db sn)" and i: "i < kNumDBs" and e: "snap_error sn = None"
    and v: "db_versions_below (snapshot_version sn) (snap_db sn) i"
  shows "\<exists>t. SerializeDB (\<lambda>_. now) i sn = sn\<lparr>
      snap_db := set_table i t (snap_db sn),
      snap_serializer := snd (save_entries (db_entries now (snap_db sn) i) (snap_serializer sn)),
      snap_error := fst (save_entries (db_entries now (snap_db sn) i) (snap_serializer sn))\<rparr> \<and>
    same_but_versions (snapshot_version sn) (tables (snap_db sn) ! i) t"
proof -
  let ?t = "tables (snap_db sn) ! i"
  have t: "nt_inv ?t" "i < length (tables (snap_db sn))" using inv i by (auto simp: db_inv_def)
  then have d: "dir_inv ?t" by (simp add: dt_inv_def)
  have all: "live_entries now (snap_db sn) i (concat (map (DashTable_ForEachInSeg ?t) (seg_walk ?t 0))) = ForEachInDB now i (snap_db sn)"
    using i unfolding concat_ForEachInSeg DashTable_ForEach_def [symmetric] live_entries_def ForEachInDB_def by simp
  show ?thesis
  proof (cases "DashTable_Size ?t = 0")
    case True
    have "sn = sn\<lparr>snap_db := set_table i ?t (snap_db sn), snap_error := None\<rparr>" using e by (simp add: set_table_def)
    moreover have "save_entries (db_entries now (snap_db sn) i) (snap_serializer sn) = (None, snap_serializer sn)"
      using True by (simp add: Size_ForEach ForEachInDB_def db_entries_def save_entries_def map_filter_def)
    ultimately show ?thesis using same_but_versions_refl [OF t(1)] True by (auto simp: SerializeDB_def)
  next
    case False
    have "SerializeDB (\<lambda>_. now) i sn = fold (snap_step now i) (seg_walk ?t 0) sn"
      using False i unfolding SerializeDB_def snap_step_def by simp
    moreover note w = seg_walk_image [OF d, of 0] first_slot [OF d]
    have "\<forall>j\<in>set (seg_walk ?t 0). GetSegVersion ?t j < snapshot_version sn"
      using w v dir_invD(4) [OF d] by (auto simp: db_versions_below_def SegmentCount_def)
    moreover have "set (seg_walk ?t 0) \<subseteq> {..<2 ^ global_depth ?t}"
      "distinct (map ((!) (segment_directory ?t)) (seg_walk ?t 0))" using w by auto
    ultimately show ?thesis
      using snap_steps [OF i t(2,1) e, of "seg_walk ?t 0" now] unfolding all save_live_entries by simp
  qed
qed

lemma SerializeAll_error: "snap_error sn = Some ec \<Longrightarrow>
    fold (\<lambda>i sn. if snap_error sn \<noteq> None then sn else SerializeDB (now i) i sn) is sn = sn"
  by (induction "is") simp_all

lemma SerializeDBs_save:
  assumes "db_inv (snap_db sn)" "snap_error sn = None" "set is \<subseteq> {..<kNumDBs}" "distinct is"
    "\<forall>i\<in>set is. db_versions_below (snapshot_version sn) (snap_db sn) i"
  shows "\<exists>db. fold (\<lambda>i sn. if snap_error sn \<noteq> None then sn else SerializeDB (\<lambda>_. now) i sn) is sn = sn\<lparr>
      snap_db := db,
      snap_serializer := snd (save_entries (concat (map (db_entries now (snap_db sn)) is)) (snap_serializer sn)),
      snap_error := fst (save_entries (concat (map (db_entries now (snap_db sn)) is)) (snap_serializer sn))\<rparr> \<and>
    versions_only (snapshot_version sn) (snap_db sn) db"
  using assms
proof (induction "is" arbitrary: sn)
  case Nil
  have "sn = sn\<lparr>snap_db := snap_db sn, snap_serializer := snap_serializer sn, snap_error := None\<rparr>" using Nil.prems(2) by simp
  then show ?case using versions_only_refl [OF Nil.prems(1)]
    by (intro exI [of _ "snap_db sn"]) (simp add: save_entries_def)
next
  case (Cons i "is")
  let ?db = "snap_db sn" and ?f = "\<lambda>i sn. if snap_error sn \<noteq> None then sn else SerializeDB (\<lambda>_. now) i sn"
  let ?rest = "concat (map (db_entries now ?db) is)"
  obtain ec s where s: "save_entries (db_entries now ?db i) (snap_serializer sn) = (ec, s)" by force
  have i: "i < kNumDBs" "i \<notin> set is" using Cons.prems(3,4) by auto
  obtain t where t: "SerializeDB (\<lambda>_. now) i sn = sn\<lparr>snap_db := set_table i t ?db, snap_serializer := s, snap_error := ec\<rparr>"
    "same_but_versions (snapshot_version sn) (tables ?db ! i) t"
    using SerializeDB_saves [OF Cons.prems(1) i(1) Cons.prems(2), of now] Cons.prems(5) s by auto
  let ?sn = "sn\<lparr>snap_db := set_table i t ?db, snap_serializer := s, snap_error := ec\<rparr>"
  note vo = versions_only_set_table [OF Cons.prems(1) i(1) t(2)]
  have step: "fold ?f (i # is) sn = fold ?f is ?sn" using Cons.prems(2) t(1) by simp
  have app: "save_entries (concat (map (db_entries now ?db) (i # is))) (snap_serializer sn) =
      (case ec of Some ec \<Rightarrow> (Some ec, s) | None \<Rightarrow> save_entries ?rest s)"
    using s by (simp add: save_entries_def save_all_append and_then_def split: option.splits)
  show ?case
  proof (cases ec)
    case (Some c)
    have r: "fold ?f (i # is) sn = ?sn" unfolding step by (rule SerializeAll_error) (simp add: Some)
    show ?thesis unfolding r app unfolding Some option.case fst_conv snd_conv using vo by (intro exI conjI) (rule refl)
  next
    case None
    have j: "db_entries now (snap_db ?sn) j = db_entries now ?db j" "db_versions_below ver (snap_db ?sn) j = db_versions_below ver ?db j"
      if "j \<in> set is" for j ver
    proof -
      have "j \<noteq> i" using that i(2) by auto
      then show "db_entries now (snap_db ?sn) j = db_entries now ?db j" "db_versions_below ver (snap_db ?sn) j = db_versions_below ver ?db j"
        by (simp_all add: db_entries_def ForEachInDB_def db_versions_below_def)
    qed
    then have c: "map (db_entries now (snap_db ?sn)) is = map (db_entries now ?db) is" by simp
    have p: "db_inv (snap_db ?sn)" "snap_error ?sn = None" "set is \<subseteq> {..<kNumDBs}" "distinct is"
      "\<forall>j\<in>set is. db_versions_below (snapshot_version ?sn) (snap_db ?sn) j"
      using versions_only_ok(1) [OF Cons.prems(1) vo] None Cons.prems(3,4,5) j(2) by auto
    obtain db where "fold ?f is ?sn = ?sn\<lparr>snap_db := db, snap_serializer := snd (save_entries ?rest s), snap_error := fst (save_entries ?rest s)\<rparr>"
      "versions_only (snapshot_version sn) (snap_db ?sn) db"
      using Cons.IH [OF p] unfolding c by auto
    then show ?thesis
      unfolding step app unfolding None option.case using versions_only_trans [OF vo] by (intro exI [of _ db]) simp
  qed
qed

definition saved_entries :: "(nat \<Rightarrow> int) \<Rightarrow> database \<Rightarrow> rdb_entry list" where
  "saved_entries now db = concat (map (\<lambda>i. db_entries (now i) db i) [0..<kNumDBs])"

lemma snapshot_shard_saves:
  assumes "db_inv db" "\<forall>i < kNumDBs. db_versions_below epoch db i"
  shows "\<exists>db'. snapshot_shard (\<lambda>_ _. now) epoch db s = (save_entries (saved_entries (\<lambda>_. now) db) s, db') \<and> versions_only epoch db db'"
proof -
  let ?sn = "\<lparr>snap_db = db, snap_serializer = s, snapshot_version = epoch, snap_error = None\<rparr>"
  have "db_inv (snap_db ?sn)" "snap_error ?sn = None" "set [0..<kNumDBs] \<subseteq> {..<kNumDBs}" "distinct [0..<kNumDBs]"
    "\<forall>i\<in>set [0..<kNumDBs]. db_versions_below (snapshot_version ?sn) (snap_db ?sn) i" using assms by auto
  from SerializeDBs_save [OF this, of now] obtain db' where
    "SerializeAllDBs (\<lambda>_ _. now) ?sn = ?sn\<lparr>snap_db := db', snap_serializer := snd (save_entries (saved_entries (\<lambda>_. now) db) s),
      snap_error := fst (save_entries (saved_entries (\<lambda>_. now) db) s)\<rparr>" "versions_only epoch db db'"
    unfolding SerializeAllDBs_def saved_entries_def by auto
  then show ?thesis by (simp add: snapshot_shard_def)
qed

section \<open>What a save writes\<close>

text \<open>The outcome of writing given entries to a file.\<close>

definition file_result :: "string \<Rightarrow> nat \<Rightarrow> nat \<Rightarrow> rdb_entry list \<Rightarrow> disk \<Rightarrow> errc option \<times> disk" where
  "file_result file_path now_ms num es d =
     (if cannot_open d (tmp_path file_path) then (Some io_error, d)
      else case and_then (SaveHeader now_ms) (and_then (save_entries es) SaveFooter) (RdbSerializer_new True (FileSink_Append d) 0 num)
           of (ec, s) \<Rightarrow> finish_file file_path ec s d)"

lemma write_file_entries:
  assumes p: "\<And>s. \<exists>w'. save_parts ps s w = Inr (save_entries es s, w') \<and> Q w'" and w: "Q w" "num < 2 ^ 32"
  shows "\<exists>w'. write_file num file_path now_ms ps w d =
      Inr (fst (file_result file_path now_ms num es d), w', snd (file_result file_path now_ms num es d)) \<and> Q w'"
proof (cases "cannot_open d (tmp_path file_path)")
  case False
  obtain ec s where s: "SaveHeader now_ms (RdbSerializer_new True (FileSink_Append d) 0 num) = (ec, s)" by force
  obtain w' where w': "save_parts ps s w = Inr (save_entries es s, w')" "Q w'" using p by blast
  show ?thesis
    using False s w w' by (cases ec) (auto simp: write_file_def file_result_def and_then_def Let_def split: prod.splits option.splits)
qed (use w in \<open>auto simp: write_file_def file_result_def\<close>)

lemma save_parts_single:
  assumes "IsSingleShard (ctx w)" "world_inv w" "GetDB w = Some db"
  shows "\<exists>w'. save_parts (map (\<lambda>(i, sid). on_shard sid (\<lambda>db s. (save_live i (ForEachInDB (now i sid) i db) s, db))) ps) s w =
      Inr (save_entries (concat (map (\<lambda>(i, sid). db_entries (now i sid) db i) ps)) s, w') \<and> GetDB w' = Some db \<and> world_inv w'"
  using assms
proof (induction ps arbitrary: s w)
  case Nil
  then show ?case by (auto simp: save_entries_def)
next
  case (Cons p ps)
  obtain i sid where p: "p = (i, sid)" by force
  obtain ec s' where s: "save_entries (db_entries (now i sid) db i) s = (ec, s')" by force
  have w: "IsSingleShard (ctx (put_db db w))" "world_inv (put_db db w)" "GetDB (put_db db w) = Some db"
    using Cons.prems put_db_inv GetDB_inv GetDB_put by auto
  from Cons.IH [OF w, of s'] Cons.prems w(2,3) s show ?case
    by (cases ec) (auto simp: p on_shard_def save_live_entries save_entries_def save_all_append and_then_def)
qed

lemma SaveToFile_single:
  assumes "shard_count (ctx w) = 1" "world_inv w" "GetDB w = Some db"
  shows "\<exists>w'. SaveToFile e now_ms file_path w d = Inr (fst (file_result file_path now_ms 1 (saved_entries (clk e) db) d), w',
      snd (file_result file_path now_ms 1 (saved_entries (clk e) db) d)) \<and> GetDB w' = Some db \<and> world_inv w'"
proof -
  have "concat (map (\<lambda>(i, sid). db_entries (clk e (i * shard_count (ctx w) + sid)) db i) (List.product [0..<kNumDBs] [0..<shard_count (ctx w)])) =
      saved_entries (clk e) db"
    by (simp add: assms(1) saved_entries_def product_concat_map map_concat comp_def)
  with write_file_entries [where Q = "\<lambda>w. GetDB w = Some db \<and> world_inv w" and w = w and es = "saved_entries (clk e) db",
      OF _ conjI [OF assms(3,2)]]
    save_parts_single [OF _ assms(2,3), where now = "\<lambda>i sid. clk e (i * shard_count (ctx w) + sid)" and ps = "List.product [0..<kNumDBs] [0..<shard_count (ctx w)]"]
  show ?thesis using assms(1) unfolding SaveToFile_def by (simp add: IsSingleShard_def)
qed

lemma BgSaveToFile_single:
  assumes "shard_count (ctx w) = 1" "world_inv w" "GetDB w = Some db" "\<forall>i < kNumDBs. db_versions_below epoch db i"
  shows "\<exists>w' db'. BgSaveToFile (\<lambda>_ _ _. now) epoch now_ms file_path w d =
      Inr (fst (file_result file_path now_ms 1 (saved_entries (\<lambda>_. now) db) d), w', snd (file_result file_path now_ms 1 (saved_entries (\<lambda>_. now) db) d)) \<and>
    GetDB w' = Some db' \<and> world_inv w' \<and> versions_only epoch db db'"
proof -
  note db = GetDB_inv [OF assms(2,3)]
  have "\<exists>w'. save_parts [on_shard 0 (snapshot_shard (\<lambda>_ _. now) epoch)] s w = Inr (save_entries (saved_entries (\<lambda>_. now) db) s, w') \<and>
      (\<exists>db'. GetDB w' = Some db' \<and> world_inv w' \<and> versions_only epoch db db')" for s
  proof -
    obtain db' where s: "snapshot_shard (\<lambda>_ _. now) epoch db s = (save_entries (saved_entries (\<lambda>_. now) db) s, db')" "versions_only epoch db db'"
      using snapshot_shard_saves [OF db(1) assms(4)] by blast
    note ok = versions_only_ok [OF db(1) s(2)]
    have "GetDB (put_db db' w) = Some db'" "world_inv (put_db db' w)"
      using GetDB_put [OF assms(2,3)] put_db_inv [OF assms(2) ok(1)] ok(2) db(2) by auto
    then show ?thesis using s assms(1,3)
      by (cases "save_entries (saved_entries (\<lambda>_. now) db) s")
        (auto simp: on_shard_def IsSingleShard_def split: option.splits)
  qed
  from write_file_entries [where Q = "\<lambda>w. \<exists>db'. GetDB w = Some db' \<and> world_inv w \<and> versions_only epoch db db'" and w = w, OF this]
  show ?thesis unfolding BgSaveToFile_def using assms versions_only_refl [OF db(1)] by auto
qed

section \<open>What loading restores\<close>

text \<open>The value that a saved value comes back as.\<close>

definition restored :: "nano_obj \<Rightarrow> nano_obj" where
  "restored v = NanoObj_copy (NanoObj_copy (reloaded v))"

lemma Expire_fresh:
  assumes inv: "db_inv db" and i: "current_db db = i" and now: "0 \<le> now" "now < x" "in_int64 x"
    and key: "db_expiry db i key = None" "db_get db i key \<noteq> None"
  shows "Database_Expire now key (x - now) db = Inl BadAlloc \<or>
    (\<exists>db'. Database_Expire now key (x - now) db = Inr (db', True) \<and> db_inv db' \<and> db_get db' = db_get db \<and>
      (\<forall>j k. db_expiry db' j k = (if j = i \<and> NanoObj_eq key k then Some x else db_expiry db j k)))"
proof -
  note T = db_invD [OF inv]
  have n: "i < kNumDBs" using T(3) i by simp
  let ?t = "nt_Insert (expire_tables db ! i) key x"
  have room: "sub_i64 INT64_MAX now = Inr (INT64_MAX - now)" "(if x - now \<ge> INT64_MAX - now then INT64_MAX else now + (x - now)) = x"
    using now by (auto simp: sub_i64_def in_int64_def bounds_defs)
  have np: "PruneExpiredInDB i key now db = db" using key(1) by (simp add: PruneExpiredInDB_def IsExpiredInDB_def db_expiry_def)
  have st: "Database_Expire now key (x - now) db = bind_r ?t (\<lambda>t. Inr (set_expire i t db, True))"
    using key(2) room now by (auto simp: Database_Expire_def Let_def i np db_get_def)
  show ?thesis
  proof (cases ?t)
    case (Inl f)
    then show ?thesis using nano_dt.Insert_total(1) [OF T(5) [OF n], of key x] st by auto
  next
    case (Inr t)
    note I = nano_dt.Insert_ok [OF T(5) [OF n] Inr]
    have o: "nt_Find t k = None" if "db_get db i k = None" for k
      using that T(8) [OF n that] I(2) [of k] key(2) db_cong(1) [of key k db i] by (auto simp: db_expiry_def)
    have m: "max_segment_size t = 16" using I(5) T(7) [OF n] by simp
    note E = db_inv_set_expire [OF inv n I(1) m o]
    have "db_get (set_expire i t db) = db_get db" by (simp add: fun_eq_iff db_get_def)
    then show ?thesis using st Inr E I(2) by (auto simp: db_expiry_def)
  qed
qed

text \<open>One entry put into a database where its key is absent.\<close>

lemma store_loaded_ok:
  assumes inv: "db_inv db" and i: "i < kNumDBs" and now: "0 \<le> now" "in_int64 now" and x: "in_int64 x"
    and key: "NanoObj_eq key key" "db_get db i key = None"
  shows "store_loaded now now i key v x db = Inl BadAlloc \<or>
    (\<exists>db'. store_loaded now now i key v x db = Inr (None, db') \<and> db_inv db' \<and>
      (\<forall>j k. j \<noteq> i \<or> \<not> NanoObj_eq key k \<longrightarrow> db_get db' j k = db_get db j k) \<and>
      (\<forall>j t k. now \<le> t \<longrightarrow> db_view db' j t k =
         (if j = i \<and> NanoObj_eq key k then (if 0 < x \<and> x \<le> t then None else Some (NanoObj_copy v)) else db_view db j t k)))"
proof -
  obtain d where d: "Database_Select i db = (d, True)" using i by (simp add: Database_Select_def)
  have D: "db_inv d" "current_db d = i" "db_get d = db_get db" "db_expiry d = db_expiry db" "db_view d = db_view db"
    using Select_ok(1-5) [OF inv, of i] i d by auto
  have none: "db_get d i k = None" "db_expiry d i k = None" if "NanoObj_eq key k" for k
    using db_invD(8) [OF D(1) i] key(2) D(3) db_cong(1) [OF that, of d i] by auto
  have ttl: "0 < x \<Longrightarrow> sub_i64 x now = Inr (x - now)" using now x by (simp add: sub_i64_def in_int64_def bounds_defs)
  consider "0 < x \<and> x \<le> now" | f where "\<not> (0 < x \<and> x \<le> now)" "Database_Set_copy key v d = Inl f"
    | d1 where "\<not> (0 < x \<and> x \<le> now)" "Database_Set_copy key v d = Inr d1"
    by (cases "Database_Set_copy key v d") auto
  then show ?thesis
  proof cases
    case 1
    then have "store_loaded now now i key v x db = Inr (None, d)" by (simp add: store_loaded_def d ttl)
    moreover have "db_view d j t k = (if j = i \<and> NanoObj_eq key k then (if 0 < x \<and> x \<le> t then None else Some (NanoObj_copy v)) else db_view db j t k)"
      if "now \<le> t" for j t k using that 1 none [of k] D(5) [symmetric] by (auto simp: db_view_eq)
    ultimately show ?thesis using D by auto
  next
    case 2
    then have "f = BadAlloc" using Set_total [OF D(1), of key "NanoObj_copy v"] by (auto simp: Database_Set_copy_def)
    then show ?thesis using 2 ttl by (auto simp: store_loaded_def d)
  next
    case 3
    note S = Set_ok [OF D(1) 3(2) [unfolded Database_Set_copy_def], unfolded D(2,3,4)]
    show ?thesis
    proof (cases "0 < x")
      case False
      then have "store_loaded now now i key v x db = Inr (None, d1)" by (simp add: store_loaded_def d 3)
      then show ?thesis using S(1) False none [unfolded D(3,4)] by (auto simp: db_view_eq S split: option.splits)
    next
      case True
      have "db_expiry d1 i key = None" "db_get d1 i key \<noteq> None" using none(2) [OF key(1), unfolded D(4)] S(3,4) key(1) by auto
      from Expire_fresh [OF S(1) _ now(1) _ x this] consider "Database_Expire now key (x - now) d1 = Inl BadAlloc"
        | d2 where "Database_Expire now key (x - now) d1 = Inr (d2, True)" "db_inv d2" "db_get d2 = db_get d1"
          "\<And>j k. db_expiry d2 j k = (if j = i \<and> NanoObj_eq key k then Some x else db_expiry d1 j k)"
        using S(2) True 3(1) by auto
      then show ?thesis
      proof cases
        case 1
        then show ?thesis using True 3 ttl by (auto simp: store_loaded_def d)
      next
        case 2
        then have "store_loaded now now i key v x db = Inr (None, d2)" using True 3 ttl by (auto simp: store_loaded_def d)
        then show ?thesis using True 2(2) by (auto simp: db_view_eq 2 S split: option.splits)
      qed
    qed
  qed
qed

lemma string_key_FromString:
  assumes "IsString key" "scalar_ok key"
  shows "NanoObj_eq (FromString (GetStringView key)) k = NanoObj_eq key k"
    "GetStringView (FromString (GetStringView key)) = GetStringView key"
proof -
  have l: "length (GetStringView key) < 65536" using assms by (cases key) (auto simp: obj_consts)
  have s: "IsString (FromString (GetStringView key))" "\<not> IsInt (FromString (GetStringView key))"
    by (simp_all add: FromString_def SetString_def SetInlineString_def SetSmallString_def)
  have "GetStringView (FromString s) = ToString (FromString s)" for s
    by (simp add: FromString_def SetString_def SetInlineString_def SetSmallString_def)
  then show v: "GetStringView (FromString (GetStringView key)) = GetStringView key"
    using l by (simp add: ToString_FromString)
  show "NanoObj_eq (FromString (GetStringView key)) k = NanoObj_eq key k"
    using s assms(1) v by (cases key) (simp_all add: NanoObj_eq_def)
qed

text \<open>Entries for keys that a database does not hold yet, all different.\<close>

definition entry_key :: "rdb_entry \<Rightarrow> nat \<Rightarrow> nano_obj \<Rightarrow> bool" where
  "entry_key en i k \<longleftrightarrow> (case en of (dbid, key, value, x) \<Rightarrow> dbid = i \<and> NanoObj_eq key k)"

definition new_entry :: "database \<Rightarrow> rdb_entry \<Rightarrow> bool" where
  "new_entry db en \<longleftrightarrow> (case en of (dbid, key, value, x) \<Rightarrow>
     dbid < kNumDBs \<and> IsString key \<and> scalar_ok key \<and> in_int64 x \<and> db_get db dbid key = None)"

definition entry_value :: "rdb_entry \<Rightarrow> int \<Rightarrow> nano_obj option" where
  "entry_value en t = (case en of (dbid, key, value, x) \<Rightarrow> if 0 < x \<and> x \<le> t then None else Some (restored value))"

lemma load_entry_ok:
  assumes "shards w = [db]" "tlocal w 0" "db_inv db" "\<And>i. clk e i = now" "0 \<le> now" "in_int64 now"
    and en: "new_entry db (i, key, v, x)"
  shows "load_entry e i (FromString (GetStringView key)) (reloaded v) (max 0 x) (w, n) = Inl BadAlloc \<or>
    (\<exists>db'. load_entry e i (FromString (GetStringView key)) (reloaded v) (max 0 x) (w, n) = Inr (None, w\<lparr>shards := [db']\<rparr>, n + 2) \<and> db_inv db' \<and>
      (\<forall>j k. \<not> entry_key (i, key, v, x) j k \<longrightarrow> db_get db' j k = db_get db j k) \<and>
      (\<forall>j t k. now \<le> t \<longrightarrow> db_view db' j t k = (if entry_key (i, key, v, x) j k then entry_value (i, key, v, x) t else db_view db j t k)))"
proof -
  let ?k = "NanoObj_copy (FromString (GetStringView key))" and ?v = "NanoObj_copy (reloaded v)"
  have N: "i < kNumDBs" "IsString key" "scalar_ok key" "in_int64 x" "db_get db i key = None" using en by (auto simp: new_entry_def)
  note K = string_key_FromString [OF N(2,3)]
  have q: "NanoObj_eq ?k k = NanoObj_eq key k" for k by (simp add: K)
  have kk: "NanoObj_eq key key" using N(2) by (cases key) (auto simp: NanoObj_eq_def)
  have x: "in_int64 (max 0 x)" "0 < max 0 x \<longleftrightarrow> 0 < x" "max 0 x \<le> t \<longleftrightarrow> x \<le> t" if "now \<le> t" for t
    using N(4) assms(5) that by (auto simp: in_int64_def max_def bounds_defs)
  have g: "db_get db i ?k = None" using db_cong(1) [of ?k key db i] q [of key] kk N(5) by simp
  have l: "load_entry e i (FromString (GetStringView key)) (reloaded v) (max 0 x) (w, n) =
      bind_r (store_loaded now now i ?k ?v (max 0 x) db) (\<lambda>(ec, db'). Inr (ec, w\<lparr>shards := [db']\<rparr>, n + 2))"
    using N(1) assms(1,2,4)
    by (cases "store_loaded now now i ?k ?v (max 0 x) db") (auto simp: load_entry_def Shard_def Await_def)
  have "NanoObj_eq ?k ?k"
    unfolding NanoObj_copy_eq by (simp add: NanoObj_eq_def FromString_def SetString_def SetInlineString_def SetSmallString_def)
  from store_loaded_ok [OF assms(3) N(1) assms(5,6) x(1) [OF order_refl] this g, of ?v] show ?thesis
    unfolding l q entry_key_def entry_value_def restored_def by (auto simp: x)
qed

lemma deliver_ok:
  assumes "shards w = [db]" "tlocal w 0" "db_inv db" "\<And>i. clk e i = now" "0 \<le> now" "in_int64 now"
    and "list_all (new_entry db) es" "sorted_wrt (\<lambda>en en'. \<not> entry_key en (fst en') (fst (snd en'))) es"
  shows "deliver (load_entry e) es (w, n) = Inl BadAlloc \<or>
    (\<exists>db' n'. deliver (load_entry e) es (w, n) = Inr (None, w\<lparr>shards := [db']\<rparr>, n') \<and> db_inv db' \<and>
      (\<forall>i t k. now \<le> t \<longrightarrow>
         (\<forall>en\<in>set es. entry_key en i k \<longrightarrow> db_view db' i t k = entry_value en t) \<and>
         ((\<forall>en\<in>set es. \<not> entry_key en i k) \<longrightarrow> db_view db' i t k = db_view db i t k)))"
  using assms(1-3,7,8)
proof (induction es arbitrary: w db n)
  case Nil
  have "w = w\<lparr>shards := [db]\<rparr>" using Nil.prems(1) by (cases w) simp
  with Nil.prems(3) show ?case by (intro disjI2 exI [of _ db] exI [of _ n]) simp
next
  case (Cons en es)
  obtain i key v x where en: "en = (i, key, v, x)" by (cases en) auto
  have ne: "new_entry db (i, key, v, x)" using Cons.prems(4) by (simp add: en)
  from load_entry_ok [OF Cons.prems(1-3) assms(4-6) ne, of n]
  consider "load_entry e i (FromString (GetStringView key)) (reloaded v) (max 0 x) (w, n) = Inl BadAlloc"
    | db1 where "load_entry e i (FromString (GetStringView key)) (reloaded v) (max 0 x) (w, n) = Inr (None, w\<lparr>shards := [db1]\<rparr>, n + 2)"
      "db_inv db1" "\<And>j k. \<not> entry_key en j k \<Longrightarrow> db_get db1 j k = db_get db j k"
      "\<And>j t k. now \<le> t \<Longrightarrow> db_view db1 j t k = (if entry_key en j k then entry_value en t else db_view db j t k)"
    unfolding en by blast
  then show ?case
  proof cases
    case 1
    then show ?thesis by (simp add: en)
  next
    case 2
    have "new_entry db1 en'" if "en' \<in> set es" for en'
    proof -
      have "\<not> entry_key en (fst en') (fst (snd en'))" "new_entry db en'"
        using Cons.prems(4,5) that by (simp_all add: list_all_iff)
      then show ?thesis using 2(3) by (auto simp: new_entry_def split: prod.splits)
    qed
    then have "list_all (new_entry db1) es" by (simp add: list_all_iff)
    then have "deliver (load_entry e) es (w\<lparr>shards := [db1]\<rparr>, n + 2) = Inl BadAlloc \<or>
      (\<exists>db' n'. deliver (load_entry e) es (w\<lparr>shards := [db1]\<rparr>, n + 2) = Inr (None, w\<lparr>shards := [db']\<rparr>, n') \<and> db_inv db' \<and>
       (\<forall>i t k. now \<le> t \<longrightarrow>
         (\<forall>en\<in>set es. entry_key en i k \<longrightarrow> db_view db' i t k = entry_value en t) \<and>
         ((\<forall>en\<in>set es. \<not> entry_key en i k) \<longrightarrow> db_view db' i t k = db_view db1 i t k)))"
      using Cons.IH [of "w\<lparr>shards := [db1]\<rparr>" db1 "n + 2"] 2(2) Cons.prems(2,5) by simp
    moreover have d: "deliver (load_entry e) (en # es) (w, n) = deliver (load_entry e) es (w\<lparr>shards := [db1]\<rparr>, n + 2)"
      by (simp add: en 2(1))
    moreover have "\<not> entry_key en' i k" if "en' \<in> set es" "entry_key en i k" for en' i k
    proof
      assume "entry_key en' i k"
      then have "entry_key en (fst en') (fst (snd en'))"
        using that(2) by (auto simp: entry_key_def NanoObj_eq_iff simp del: not_None_eq split: prod.splits)
      then show False using Cons.prems(5) that(1) by simp
    qed
    ultimately show ?thesis unfolding d using 2(4)
      by (elim disjE exE conjE) (simp, intro disjI2 exI conjI, assumption, assumption, auto)
  qed
qed

lemma saved_entry_iff:
  "(i, k, v, x) \<in> set (saved_entries now db) \<longleftrightarrow> i < kNumDBs \<and> (k, v) \<in> entries db i \<and>
     (case db_expiry db i k of None \<Rightarrow> x = 0 | Some at \<Rightarrow> now i < at \<and> x = at)"
  by (force simp: saved_entries_def db_entries_def ForEachInDB_def entries_def db_expiry_def map_filter_def
      split: option.splits if_splits)

lemma sorted_ForEachInDB:
  assumes "db_inv db" "i < kNumDBs"
  shows "sorted_wrt (\<lambda>en en'. \<not> entry_key en (fst en') (fst (snd en'))) (db_entries now db i)"
proof -
  have "sorted_wrt (\<lambda>en en'. \<not> entry_key en (fst en') (fst (snd en'))) (map (Pair i) (List.map_filter (\<lambda>(key, value).
             case nt_Find (expire_tables db ! i) key of
               None \<Rightarrow> Some (key, value, 0)
             | Some at \<Rightarrow> if at \<le> now then None else Some (key, value, at)) es))"
    if "table_inv NanoObj_eq fst es" for es :: "(nano_obj \<times> nano_obj) list"
    using that
    by (induction es) (auto simp: map_filter_simps entry_key_def list_all_iff map_filter_def split: option.splits if_splits)
  then show ?thesis
    using nano_dt.table_inv_ForEach [OF db_invD(4) [OF assms]] assms(2) by (simp add: db_entries_def ForEachInDB_def)
qed

lemma sorted_concat:
  assumes "distinct is" "\<forall>i\<in>set is. sorted_wrt P (f i)"
    "\<forall>i\<in>set is. \<forall>j\<in>set is. i \<noteq> j \<longrightarrow> (\<forall>a\<in>set (f i). \<forall>b\<in>set (f j). P a b)"
  shows "sorted_wrt P (concat (map f is))"
  using assms
proof (induction "is")
  case (Cons i "is")
  have "P a b" if "j \<in> set is" "a \<in> set (f i)" "b \<in> set (f j)" for j a b
    using that Cons.prems(1,3) by (metis distinct.simps(2) list.set_intros)
  with Cons show ?case by (auto simp: sorted_wrt_append)
qed simp

lemma sorted_saved_entries:
  assumes "db_inv db"
  shows "sorted_wrt (\<lambda>en en'. \<not> entry_key en (fst en') (fst (snd en'))) (saved_entries now db)"
  unfolding saved_entries_def
  by (rule sorted_concat) (use sorted_ForEachInDB [OF assms] in \<open>auto simp: db_entries_def entry_key_def\<close>)

text \<open>What the format can carry: string keys and values of a size that can be allocated.\<close>

definition restorable :: "env \<Rightarrow> database \<Rightarrow> bool" where
  "restorable e db \<longleftrightarrow> db_ok db \<and> (\<forall>i < kNumDBs.
     (\<forall>p \<in> entries db i. IsString (fst p) \<and> fits e (GetStringView (fst p)) \<and> value_fits e (snd p)) \<and>
     (\<forall>k x. db_expiry db i k = Some x \<longrightarrow> in_int64 x))"

lemma restorable_entries:
  assumes "restorable e db"
  shows "list_all (entry_ok e) (saved_entries now db)"
    "(\<And>i k. i < kNumDBs \<Longrightarrow> db_get db' i k = None) \<Longrightarrow> list_all (new_entry db') (saved_entries now db)"
proof -
  have *: "i < kNumDBs \<and> scalar_ok k \<and> obj_ok v \<and> IsString k \<and> fits e (GetStringView k) \<and> value_fits e v \<and> in_int64 x"
    if "(i, k, v, x) \<in> set (saved_entries now db)" for i k v x
    using that assms unfolding saved_entry_iff restorable_def db_values_def
    by (force simp: in_int64_def bounds_defs split: option.splits)
  show "list_all (entry_ok e) (saved_entries now db)"
    using * by (fastforce simp: list_all_iff entry_ok_def kNumDBs_def)
  show "list_all (new_entry db') (saved_entries now db)" if "\<And>i k. i < kNumDBs \<Longrightarrow> db_get db' i k = None"
    using * that by (fastforce simp: list_all_iff new_entry_def)
qed

text \<open>The entries say what the database shows, at any time after they were written.\<close>

lemma saved_entries_view:
  assumes inv: "db_inv db" and i: "i < kNumDBs" and now: "0 \<le> now i" "now i \<le> t"
  shows "(\<exists>en\<in>set (saved_entries now db). entry_key en i k \<and> map_option restored (db_view db i t k) = entry_value en t) \<or>
    (\<forall>en\<in>set (saved_entries now db). \<not> entry_key en i k) \<and> db_view db i t k = None"
proof (cases "\<exists>key v. (key, v) \<in> entries db i \<and> NanoObj_eq k key")
  case False
  then have "nt_Find (tables db ! i) k = None"
    unfolding nano_dt.Find_ForEach [OF db_invD(4) [OF inv i]] entries_def by (auto simp: table_find_None_iff)
  then have "db_view db i t k = None" by (simp add: db_view_def)
  moreover have "\<not> entry_key en i k" if "en \<in> set (saved_entries now db)" for en
  proof
    assume k: "entry_key en i k"
    obtain key v x where e: "en = (i, key, v, x)" "NanoObj_eq key k" using k by (cases en) (auto simp: entry_key_def)
    then have "(key, v) \<in> entries db i" "NanoObj_eq k key" using that nano.eq_sym [of key k] by (simp_all add: saved_entry_iff)
    then show False using False by blast
  qed
  ultimately show ?thesis by blast
next
  case True
  then obtain key v where kv: "(key, v) \<in> entries db i" "NanoObj_eq k key" by blast
  let ?T = "DashTable_ForEach (tables db ! i)"
  have tI: "table_inv NanoObj_eq fst ?T" by (rule nano_dt.table_inv_ForEach [OF db_invD(4) [OF inv i]])
  have "table_find NanoObj_eq fst k ?T = Some (key, v)"
    using kv unfolding nano.table_find_Some_iff [OF tI] entries_def by simp
  then have g: "db_get db i k = Some v" unfolding db_get_def nano_dt.Find_ForEach [OF db_invD(4) [OF inv i]] by simp
  have ex: "db_expiry db i key = db_expiry db i k" using db_cong(2) [OF kv(2)] by simp
  have m: "entry_key (i, key, v, x) i k" for x using nano.eq_sym [OF kv(2)] by (simp add: entry_key_def)
  consider "db_expiry db i k = None" | at where "db_expiry db i k = Some at" "now i < at" | at where "db_expiry db i k = Some at" "at \<le> now i"
    by (cases "db_expiry db i k") force+
  then show ?thesis
  proof cases
    case 1
    then have "(i, key, v, 0) \<in> set (saved_entries now db)" using kv(1) i ex by (simp add: saved_entry_iff)
    moreover have "map_option restored (db_view db i t k) = entry_value (i, key, v, 0) t" using 1 g by (simp add: db_view_eq entry_value_def)
    ultimately show ?thesis using m by blast
  next
    case 2
    then have "(i, key, v, at) \<in> set (saved_entries now db)" using kv(1) i ex by (simp add: saved_entry_iff)
    moreover have "map_option restored (db_view db i t k) = entry_value (i, key, v, at) t" using 2 g now by (simp add: db_view_eq entry_value_def)
    ultimately show ?thesis using m by blast
  next
    case 3
    have "\<not> entry_key en i k" if en: "en \<in> set (saved_entries now db)" for en
    proof
      assume k: "entry_key en i k"
      obtain key' v' x where e: "en = (i, key', v', x)" "NanoObj_eq key' k" using k by (cases en) (auto simp: entry_key_def)
      have "db_expiry db i key' = Some at" using db_cong(2) [OF e(2)] 3(1) by simp
      then show False using en e(1) 3(2) by (simp add: saved_entry_iff)
    qed
    moreover have "db_view db i t k = None" using 3 now by (simp add: db_view_eq)
    ultimately show ?thesis by blast
  qed
qed

definition good_disk :: "string \<Rightarrow> disk \<Rightarrow> bool" where
  "good_disk file_path d \<longleftrightarrow> \<not> cannot_open d (tmp_path file_path) \<and> cannot_write d = (\<lambda>_. False) \<and> \<not> cannot_flush d \<and> \<not> cannot_rename d"

lemma good_disk_saves:
  assumes "good_disk file_path d" "list_all (entry_ok e) es"
  obtains d' where "file_result file_path now_ms num es d = (None, d')"
    "files d' file_path = Some (file_bytes now_ms 0 num es)" "files d' (tmp_path file_path) = None"
proof -
  obtain s where s: "and_then (SaveHeader now_ms) (and_then (save_entries es) SaveFooter) (RdbSerializer_new True (\<lambda>_. None) 0 num) = (None, s)"
    "sink_bytes s = file_bytes now_ms 0 num es" by (rule save_file [OF assms(2)])
  have "FileSink_Append d = (\<lambda>_. None)" using assms(1) by (simp add: fun_eq_iff FileSink_Append_def good_disk_def)
  then have f: "file_result file_path now_ms num es d = finish_file file_path None s d"
    using assms(1) s(1) by (simp add: file_result_def good_disk_def)
  show thesis
    by (rule that [of "snd (finish_file file_path None s d)"])
      (use assms(1) s(2) in \<open>auto simp: f finish_file_def FlushAndClose_def good_disk_def tmp_path_def\<close>)
qed

text \<open>A server with one shard that starts with empty databases, and what it shows after loading.\<close>

definition fresh_server :: "world \<Rightarrow> bool" where
  "fresh_server w \<longleftrightarrow> shards w = [Database_new 31] \<and> tlocal w 0 \<and> shard_set (ctx w)"

lemma LoadFromFile_view:
  assumes r: "restorable e db" and now: "\<forall>i. 0 \<le> now i \<and> now i \<le> now'" "in_int64 now'" "\<forall>i. clk e i = now'"
    and w: "fresh_server w" and f: "files d file_path = Some (file_bytes now_ms 0 num (saved_entries now db))"
  shows "LoadFromFile e file_path d True w = Inl BadAlloc \<or>
    (\<exists>db'. LoadFromFile e file_path d True w = Inr (None, w\<lparr>shards := [db']\<rparr>, True) \<and> db_inv db' \<and>
      (\<forall>i < kNumDBs. \<forall>t \<ge> now'. \<forall>k. db_view db' i t k = map_option restored (db_view db i t k)))"
proof -
  let ?es = "saved_entries now db" and ?new = "Database_new 31"
  have inv: "db_inv db" using r by (simp add: restorable_def db_values_def)
  have n: "0 \<le> now'" using now(1) by (meson order_trans)
  have w': "shards w = [?new]" "tlocal w 0" using w by (simp_all add: fresh_server_def)
  have new: "db_inv ?new" "\<And>i k. i < kNumDBs \<Longrightarrow> db_get ?new i k = None"
    using Database_new_inv [of 31] leD by auto
  have nv: "db_view ?new i t k = None" if "i < kNumDBs" for i t k
    using new(2) [OF that, of k] by (simp add: db_view_eq split: option.splits)
  have l: "LoadFromFile e file_path d True w = bind_r (deliver (load_entry e) ?es (w, 0)) (\<lambda>(ec, w, n). Inr (ec, w, True))"
    using w f load_file [OF restorable_entries(1) [OF r], of 0 "load_entry e" now_ms num now "(w, 0)"]
    by (simp add: LoadFromFile_def fresh_server_def)
  from deliver_ok [OF w' new(1) now(3) [rule_format] n now(2) restorable_entries(2) [OF r new(2)] sorted_saved_entries [OF inv], where n = 0]
  consider "deliver (load_entry e) ?es (w, 0) = Inl BadAlloc"
    | db' n' where "deliver (load_entry e) ?es (w, 0) = Inr (None, w\<lparr>shards := [db']\<rparr>, n')" "db_inv db'"
      "\<And>i t k en. now' \<le> t \<Longrightarrow> en \<in> set ?es \<Longrightarrow> entry_key en i k \<Longrightarrow> db_view db' i t k = entry_value en t"
      "\<And>i t k. now' \<le> t \<Longrightarrow> \<forall>en\<in>set ?es. \<not> entry_key en i k \<Longrightarrow> db_view db' i t k = db_view ?new i t k"
    by blast
  then show ?thesis
  proof cases
    case 1
    then show ?thesis by (simp add: l)
  next
    case 2
    have "db_view db' i t k = map_option restored (db_view db i t k)" if "i < kNumDBs" "now' \<le> t" for i t k
    proof -
      have t: "0 \<le> now i" "now i \<le> t" using now(1) that(2) by (auto intro: order_trans)
      from saved_entries_view [where now = now, OF inv that(1) t, of k] show ?thesis
        using 2(3) [OF that(2)] 2(4) [OF that(2)] nv [OF that(1)] by fastforce
    qed
    then show ?thesis using 2(1,2) by (auto simp: l)
  qed
qed

lemma IsInt_FromString: "\<not> IsInt (FromString s)"
  by (simp add: FromString_def SetString_def SetInlineString_def SetSmallString_def)

lemma restored_scalar: "scalar_ok v \<Longrightarrow> ToString (restored v) = ToString v \<and> IsInt (restored v) = IsInt v"
  by (cases v) (auto simp: restored_def FromString_ok ToString_FromString obj_consts IsInt_FromString)

lemma restored_container: "restored (RobjObj (Robj (Some c) sz ty enc)) = RobjObj (Robj None 0 0 0)"
  by (cases c) (simp_all add: restored_def NanoObj_copy_def FromHash_def FromSet_def FromList_def InitRobj_def)

lemma save_and_restart:
  assumes w: "shard_count (ctx w) = 1" "world_inv w" "GetDB w = Some db" and r: "restorable e' db" and d: "good_disk file_path d"
    and now: "\<forall>i. 0 \<le> clk e i \<and> clk e i \<le> now'" "in_int64 now'" "\<forall>i. clk e' i = now'" and f: "fresh_server w0"
  shows "\<exists>w' d'. SaveToFile e now_ms file_path w d = Inr (None, w', d') \<and> files d' (tmp_path file_path) = None \<and>
    (LoadFromFile e' file_path d' True w0 = Inl BadAlloc \<or>
     (\<exists>db'. LoadFromFile e' file_path d' True w0 = Inr (None, w0\<lparr>shards := [db']\<rparr>, True) \<and> db_inv db' \<and>
       (\<forall>i < kNumDBs. \<forall>t \<ge> now'. \<forall>k. db_view db' i t k = map_option restored (db_view db i t k))))"
proof -
  obtain d' where d': "file_result file_path now_ms 1 (saved_entries (clk e) db) d = (None, d')"
    "files d' file_path = Some (file_bytes now_ms 0 1 (saved_entries (clk e) db))" "files d' (tmp_path file_path) = None"
    by (rule good_disk_saves [OF d restorable_entries(1) [OF r]])
  from SaveToFile_single [OF w, of e now_ms file_path d] obtain w' where "SaveToFile e now_ms file_path w d = Inr (None, w', d')"
    unfolding d'(1) fst_conv snd_conv by blast
  then show ?thesis using d'(3) LoadFromFile_view [OF r now f d'(2)] by blast
qed

section \<open>Properties\<close>

text \<open>A database with one entry, a disk without errors, and a server that starts empty.\<close>

definition one_entry_db :: "nano_obj \<Rightarrow> database" where
  "one_entry_db v = set_table 0 (dt_put NanoObj_hash NanoObj_eq (DashTable_new 31 1 16) (FromKey ''a'') v) (Database_new 31)"

definition empty_disk :: disk where
  "empty_disk = \<lparr>files = (\<lambda>_. None), cannot_open = (\<lambda>_. False), cannot_write = (\<lambda>_. False), cannot_flush = False, cannot_rename = False\<rparr>"

definition fresh_world :: world where
  "fresh_world = \<lparr>ctx = \<lparr>local_shard = Some 0, shard_set = True, shard_count = 1, db_index = 0, connection_id = None, has_legacy_db = False\<rparr>,
     shards = [Database_new 31], tlocal = (\<lambda>_. True), legacy_db = Database_new 31, conns = (\<lambda>_. None)\<rparr>"

lemma one_entry_db:
  assumes "obj_ok v"
  shows "db_ok (one_entry_db v)" "current_db (one_entry_db v) = 0"
    "db_get (one_entry_db v) 0 (FromKey ''a'') = Some v" "i < kNumDBs \<Longrightarrow> db_expiry (one_entry_db v) i k = None"
    "i < kNumDBs \<Longrightarrow> p \<in> entries (one_entry_db v) i \<Longrightarrow> p = (FromKey ''a'', v)"
    "i < kNumDBs \<Longrightarrow> db_versions_below 1 (one_entry_db v) i"
proof -
  let ?t0 = "DashTable_new 31 1 16 :: (nano_obj, nano_obj) dashtable" and ?k = "FromKey ''a''"
  let ?t = "dt_put NanoObj_hash NanoObj_eq ?t0 ?k v"
  note P = nano_dt.put_ok [OF new_16_empty(1), where k = ?k and v = v]
  have z: "0 < kNumDBs" by (simp add: kNumDBs_def)
  have new: "db_inv (Database_new 31)" "\<And>i k. i < kNumDBs \<Longrightarrow> db_get (Database_new 31) i k = None"
    using Database_new_inv [of 31] leD by auto
  have ex: "db_expiry (Database_new 31) i k = None" if "i < kNumDBs" for i k using db_invD(8) [OF new(1) that new(2) [OF that]] .
  have m: "max_segment_size ?t = 16" using P new_16_empty(6) by (simp add: dt_put_def Let_def)
  note S = db_inv_set_table [OF new(1) z P(1) m ex [OF z]]
  show "current_db (one_entry_db v) = 0" by (simp add: one_entry_db_def Database_new_def)
  show "db_get (one_entry_db v) 0 ?k = Some v" using S(2) [of 0 ?k] P(2) FromKey_a_eq by (simp add: one_entry_db_def)
  show "db_expiry (one_entry_db v) i k = None" if "i < kNumDBs" using ex [OF that] by (simp add: one_entry_db_def)
  have "mset (DashTable_ForEach ?t) = {#(?k, v)#}"
    unfolding nano_dt.put_ForEach [OF new_16_empty(1)] new_16_empty(3) by (simp add: map_insert_or_assign_def)
  then have f: "set (DashTable_ForEach ?t) = {(?k, v)}" by (metis set_mset_mset set_mset_single)
  have e: "entries (Database_new 31) i = {}" if "i < kNumDBs" for i
    using that new_16_empty(3) by (simp add: entries_def Database_new_def kInitialSegmentCount_def kDefaultFixedBucketCount_def del: One_nat_def)
  show en: "p = (?k, v)" if "i < kNumDBs" "p \<in> entries (one_entry_db v) i" for i p
    using that e [OF that(1)] f unfolding one_entry_db_def entries_set_table [OF new(1) z] by (auto split: if_splits)
  show "db_ok (one_entry_db v)"
    unfolding db_values_def
  proof (intro conjI allI impI ballI)
    show "db_inv (one_entry_db v)" unfolding one_entry_db_def by (rule S(1))
    show "scalar_ok (fst p)" "obj_ok (snd p)" if "i < kNumDBs" "p \<in> entries (one_entry_db v) i" for i p
      using en [OF that] assms FromKey_ok by simp_all
  qed
  have c: "builtin_ctz (Suc 0) = 0" by (simp add: builtin_ctz.simps)
  show "db_versions_below 1 (one_entry_db v) i" if "i < kNumDBs" for i
    using that by (auto simp: c GetSegmentIndex_def one_entry_db_def db_versions_below_def Database_new_def nth_list_update SegmentCount_def
        GetSegVersion_def seg_at_def dt_put_def seg_update_def DashTable_new_def Let_def make_segment_def kInitialSegmentCount_def)
qed

lemma one_entry_world:
  assumes "obj_ok v"
  shows "shard_count (ctx (legacy_world (one_entry_db v))) = 1" "world_inv (legacy_world (one_entry_db v))"
    "GetDB (legacy_world (one_entry_db v)) = Some (one_entry_db v)"
  using legacy_world_ok [OF db_okD(1) [OF one_entry_db(1) [OF assms]] one_entry_db(2) [OF assms]]
  by (simp_all add: legacy_world_def legacy_context_def)

lemma one_entry_restorable:
  assumes "obj_ok v" "value_fits (env_at now) v"
  shows "restorable (env_at now) (one_entry_db v)"
proof -
  have k: "IsString (FromKey ''a'')" "GetStringView (FromKey ''a'') = ''a''" by code_simp+
  have f: "fits (env_at now) ''a''" by (simp add: fits_def env_at_def string_max_size_def)
  show ?thesis
    unfolding restorable_def
  proof (intro conjI allI impI ballI)
    fix i p assume "i < kNumDBs" "p \<in> entries (one_entry_db v) i"
    from one_entry_db(5) [OF assms(1) this] assms(2) k f
    show "IsString (fst p)" "fits (env_at now) (GetStringView (fst p))" "value_fits (env_at now) (snd p)" by simp_all
  qed (use one_entry_db(1,4) [OF assms(1)] in auto)
qed

lemma fresh_world: "fresh_server fresh_world" "good_disk file_path empty_disk"
  by (simp_all add: fresh_server_def fresh_world_def good_disk_def empty_disk_def)

text \<open>
  C33: with one shard, \<open>BGSAVE\<close> writes the same file as \<open>SAVE\<close>, or fails with the same error and
  leaves the same files, when no time passes and the segments have not been stamped by this or a
  later snapshot.  It changes nothing that a client can observe, and leaves the segments ready for
  the next snapshot.
\<close>

theorem bgsave_equals_save:
  assumes "shard_count (ctx w) = 1" "world_inv w" "GetDB w = Some db"
    "\<forall>i. clk e i = now" "\<forall>i < kNumDBs. db_versions_below epoch db i"
  shows "\<exists>ec d' w1 w2 db'. SaveToFile e now_ms file_path w d = Inr (ec, w1, d') \<and> GetDB w1 = Some db \<and>
    BgSaveToFile (\<lambda>_ _ _. now) epoch now_ms file_path w d = Inr (ec, w2, d') \<and> GetDB w2 = Some db' \<and>
    db_inv db' \<and> db_expiry db' = db_expiry db \<and>
    (\<forall>i < kNumDBs. (\<forall>t k. db_view db' i t k = db_view db i t k) \<and> db_versions_below (Suc epoch) db' i)"
proof -
  have c: "clk e = (\<lambda>_. now)" using assms(4) by (simp add: fun_eq_iff)
  note inv = GetDB_inv(1) [OF assms(2,3)]
  obtain w1 where s: "SaveToFile e now_ms file_path w d = Inr (fst (file_result file_path now_ms 1 (saved_entries (\<lambda>_. now) db) d), w1,
      snd (file_result file_path now_ms 1 (saved_entries (\<lambda>_. now) db) d))" "GetDB w1 = Some db"
    using SaveToFile_single [OF assms(1-3), of e now_ms file_path d] unfolding c by blast
  obtain w2 db' where b: "BgSaveToFile (\<lambda>_ _ _. now) epoch now_ms file_path w d =
      Inr (fst (file_result file_path now_ms 1 (saved_entries (\<lambda>_. now) db) d), w2, snd (file_result file_path now_ms 1 (saved_entries (\<lambda>_. now) db) d))"
    "GetDB w2 = Some db'" "versions_only epoch db db'"
    using BgSaveToFile_single [OF assms(1-3,5)] by blast
  note v = versions_only_ok [OF inv b(3)] and v' = versions_only_below [OF b(3)]
  show ?thesis using s b v v' assms(5) by blast
qed

theorem bgsave_equals_save_witness:
  "\<exists>ec d' w1 w2. SaveToFile (env_at 5) 9 ''f'' (legacy_world (one_entry_db (IntObj 7))) empty_disk = Inr (ec, w1, d') \<and>
     BgSaveToFile (\<lambda>_ _ _. 5) 1 9 ''f'' (legacy_world (one_entry_db (IntObj 7))) empty_disk = Inr (ec, w2, d')"
proof -
  have "obj_ok (IntObj 7)" by (simp add: in_int64_def bounds_defs)
  from bgsave_equals_save [OF one_entry_world [OF this], of "env_at 5" 5 1 9 "''f''" empty_disk] one_entry_db(6) [OF this]
  show ?thesis by auto
qed


lemma one_entry_saved:
  assumes "obj_ok v"
  shows "saved_entries now (one_entry_db v) = [(0, FromKey ''a'', v, 0)]"
proof -
  let ?t = "dt_put NanoObj_hash NanoObj_eq (DashTable_new 31 1 16) (FromKey ''a'') v"
  have "mset (DashTable_ForEach ?t) = {#(FromKey ''a'', v)#}"
    unfolding nano_dt.put_ForEach [OF new_16_empty(1)] new_16_empty(3) by (simp add: map_insert_or_assign_def)
  then have t: "DashTable_ForEach ?t = [(FromKey ''a'', v)]" by (rule mset_single_iff [THEN iffD1])
  have x: "nt_Find (expire_tables (one_entry_db v) ! i) k = None" if "i < kNumDBs" for i k
    using one_entry_db(4) [OF assms that] by (simp add: db_expiry_def)
  have i: "db_entries n (one_entry_db v) i = (if i = 0 then [(0, FromKey ''a'', v, 0)] else [])" if "i < kNumDBs" for n i
    using that t x [OF that]
    by (auto simp: new_16_empty(3) db_entries_def ForEachInDB_def one_entry_db_def Database_new_def nth_list_update kInitialSegmentCount_def
        kDefaultFixedBucketCount_def map_filter_simps simp del: One_nat_def)
  have "concat (map (\<lambda>i. db_entries (now i) (one_entry_db v) i) [0..<kNumDBs]) = concat (map (\<lambda>i. if i = 0 then [(0, FromKey ''a'', v, 0)] else []) [0..<kNumDBs])"
    using i by (intro arg_cong [of _ _ concat] map_cong) auto
  also have "\<dots> = [(0, FromKey ''a'', v, 0)]" by (simp add: kNumDBs_def upt_rec)
  finally show ?thesis by (simp add: saved_entries_def)
qed

lemma one_entry_loads:
  assumes v: "obj_ok v" "value_fits (env_at now) v"
    and f: "SaveToFile e now_ms ''f'' (legacy_world (one_entry_db v)) empty_disk = Inr (ec, w', d')"
  shows "LoadFromFile (env_at now) ''f'' d' True fresh_world \<noteq> Inl BadAlloc"
proof -
  let ?es = "[(0, FromKey ''a'', v, 0)] :: rdb_entry list"
  have es: "list_all (entry_ok (env_at now)) ?es"
    using restorable_entries(1) [OF one_entry_restorable [OF v]] unfolding one_entry_saved [OF v(1)] .
  from SaveToFile_single [OF one_entry_world [OF v(1)], of e now_ms "''f''" empty_disk] f
  have "d' = snd (file_result ''f'' now_ms 1 ?es empty_disk)" unfolding one_entry_saved [OF v(1)] by auto
  moreover obtain d1 where "file_result ''f'' now_ms 1 ?es empty_disk = (None, d1)" "files d1 ''f'' = Some (file_bytes now_ms 0 1 ?es)"
    by (rule good_disk_saves [OF fresh_world(2) es])
  ultimately have d: "files d' ''f'' = Some (file_bytes now_ms 0 1 ?es)" by simp
  obtain db where "Database_Set (NanoObj_copy (FromString (GetStringView (FromKey ''a'')))) (restored v) (Database_new 31) = Inr db"
    using new_db_Set by blast
  then have "deliver (load_entry (env_at now)) ?es (fresh_world, 0) \<noteq> Inl BadAlloc"
    by (simp add: load_entry_def fresh_world_def Await_def Shard_def store_loaded_def Database_Set_copy_def restored_def
        Database_Select_def kNumDBs_def)
      (simp add: Database_new_def)
  then show ?thesis
    using load_file [OF es, of 0 "load_entry (env_at now)" now_ms 1 "(fresh_world, 0)"] d
    by (cases "deliver (load_entry (env_at now)) ?es (fresh_world, 0)") (auto simp: LoadFromFile_def fresh_world_def)
qed




section \<open>Saving and loading keep the contract of the databases\<close>

lemma SerializeSegment_db [simp]: "snap_db (SerializeSegment now i j sn) = snap_db sn"
  "snapshot_version (SerializeSegment now i j sn) = snapshot_version sn"
  by (simp_all add: SerializeSegment_def Let_def split: prod.splits)

lemma OnPreModify_versions:
  assumes "db_inv db" "versions_only ver db (snap_db sn)" "snapshot_version sn = ver" "j < 2 ^ global_depth (tables db ! i)"
  shows "versions_only ver db (snap_db (OnPreModify now i j sn)) \<and> snapshot_version (OnPreModify now i j sn) = ver"
proof (cases "i < kNumDBs \<and> GetSegVersion (tables (snap_db sn) ! i) j < ver")
  case True
  then have i: "i < kNumDBs" by simp
  note inv = versions_only_ok(1) [OF assms(1,2)]
  have "global_depth (tables (snap_db sn) ! i) = global_depth (tables db ! i)"
    using assms(2) i by (simp add: versions_only_def same_but_versions_def)
  then have "same_but_versions ver (tables (snap_db sn) ! i) (SetSegVersion (tables (snap_db sn) ! i) j ver)"
    using SetSegVersion_same [OF db_invD(4) [OF inv i], of j] assms(4) by simp
  from versions_only_trans [OF assms(2) versions_only_set_table [OF inv i this]] show ?thesis
    using True assms(3) by (simp add: OnPreModify_def Let_def)
qed (use assms in \<open>auto simp: OnPreModify_def\<close>)

lemma SerializeDB_versions:
  assumes "db_inv db" "versions_only ver db (snap_db sn)" "snapshot_version sn = ver"
  shows "versions_only ver db (snap_db (SerializeDB now i sn)) \<and> snapshot_version (SerializeDB now i sn) = ver"
proof (cases "i < kNumDBs")
  case True
  have "same_but_versions ver (tables db ! i) (tables (snap_db sn) ! i)" using assms(2) True by (simp add: versions_only_def)
  note S = same_but_versionsD [OF this]
  have d: "dir_inv (tables (snap_db sn) ! i)" using S(1) by (simp add: dt_inv_def)
  have "j < 2 ^ global_depth (tables db ! i)" if "j \<in> set (seg_walk (tables (snap_db sn) ! i) 0)" for j
    using seg_walk_image [OF d, of 0] first_slot [OF d] that S(5) by auto
  then have "versions_only ver db (snap_db sn') \<and> snapshot_version sn' = ver"
    if "sn' = fold (\<lambda>j sn. if snap_error sn \<noteq> None then sn else OnPreModify (now j) i j sn) (seg_walk (tables (snap_db sn) ! i) 0) sn" for sn'
    unfolding that
    by (rule fold_invariant [where Q = "\<lambda>j. j < 2 ^ global_depth (tables db ! i)"])
      (use assms OnPreModify_versions [OF assms(1)] in auto)
  then show ?thesis using assms by (simp add: SerializeDB_def)
qed (use assms in \<open>simp add: SerializeDB_def\<close>)

lemma snapshot_shard_versions:
  assumes "db_inv db"
  shows "versions_only epoch db (snd (snapshot_shard now epoch db s))"
proof -
  let ?sn = "\<lparr>snap_db = db, snap_serializer = s, snapshot_version = epoch, snap_error = None\<rparr>"
  have "versions_only epoch db (snap_db (SerializeAllDBs now ?sn)) \<and> snapshot_version (SerializeAllDBs now ?sn) = epoch"
    unfolding SerializeAllDBs_def
    by (rule fold_inv [of "\<lambda>sn. versions_only epoch db (snap_db sn) \<and> snapshot_version sn = epoch"])
      (use versions_only_refl [OF assms] SerializeDB_versions [OF assms] in auto)
  then show ?thesis by (simp add: snapshot_shard_def Let_def)
qed

lemma save_parts_inv:
  assumes "save_parts ps s w = Inr (r, w')" "Q w" "\<And>p s w r w'. p \<in> set ps \<Longrightarrow> Q w \<Longrightarrow> p s w = Inr (r, w') \<Longrightarrow> Q w'"
  shows "Q w'"
  using assms
proof (induction ps arbitrary: s w)
  case (Cons p ps)
  obtain ec s1 w1 where p: "p s w = Inr ((ec, s1), w1)" using Cons.prems(1) by (auto simp: bind_r_Inr_iff)
  have q: "Q w1" using Cons.prems(2) p by (rule Cons.prems(3) [rotated]) simp
  show ?case
  proof (cases ec)
    case None
    then have "save_parts ps s1 w1 = Inr (r, w')" using Cons.prems(1) p by simp
    then show ?thesis using q
    proof (rule Cons.IH)
      show "Q w2" if "p' \<in> set ps" "Q w0" "p' s0 w0 = Inr (r0, w2)" for p' s0 w0 r0 w2
        using Cons.prems(3) [of p' w0 s0 r0 w2] that by simp
    qed
  qed (use Cons.prems(1) p q in auto)
qed simp

lemma write_file_inv:
  assumes "write_file num file_path now_ms ps w d = Inr (ec, w', d')" "Q w"
    "\<And>p s w r w'. p \<in> set ps \<Longrightarrow> Q w \<Longrightarrow> p s w = Inr (r, w') \<Longrightarrow> Q w'"
  shows "Q w'"
proof (cases "w' = w")
  case False
  obtain ec1 s where s: "SaveHeader now_ms (RdbSerializer_new True (FileSink_Append d) 0 (num mod 2 ^ 32)) = (ec1, s)" by force
  with assms(1) False obtain r where "save_parts ps s w = Inr (r, w')"
    by (cases ec1) (auto simp: write_file_def Let_def bind_r_Inr_iff case_prod_unfold split: if_splits option.splits)
  then show ?thesis using assms(2,3) by (rule save_parts_inv)
qed (use assms(2) in simp)

locale snapshot_contract = db_contract +
  assumes P_versions: "P db \<Longrightarrow> versions_only ver db db' \<Longrightarrow> P db'"
begin

lemma snapshot_P: "P db \<Longrightarrow> P (snd (snapshot_shard now epoch db s))"
  using P_versions snapshot_shard_versions [OF P_inv] by blast

lemma on_shard_all:
  assumes "world_in W P w" "on_shard i f s w = Inr (r, w')" "\<And>db s. P db \<Longrightarrow> P (snd (f db s))"
  shows "world_in W P w'"
proof (cases "IsSingleShard (ctx w)")
  case True
  show ?thesis
  proof (cases "GetDB w")
    case (Some db)
    have "P (snd (f db s))" by (rule assms(3) [OF GetDB_P [OF assms(1) Some]])
    moreover have "w' = put_db (snd (f db s)) w" using assms(2) True Some by (auto simp: on_shard_def split: prod.splits)
    ultimately show ?thesis using put_db_all [OF assms(1)] by simp
  qed (use assms True in \<open>simp add: on_shard_def\<close>)
next
  case False
  then have "Await i (Some invalid_argument, s) (\<lambda>db. Inr (f db s)) w = Inr (r, w')" using assms(2) by (simp add: on_shard_def split: if_splits)
  with assms(1) show ?thesis 
  proof (rule Await_all)
    show "P db'" if "P db" "Inr (f db s) = Inr (r, db')" for db r db' using assms(3) [OF that(1), of s] that(2) by auto
  qed
qed

lemma SaveToFile_all: "world_in W P w \<Longrightarrow> SaveToFile e now_ms file_path w d = Inr (ec, w', d') \<Longrightarrow> world_in W P w'"
  unfolding SaveToFile_def
proof (erule write_file_inv)
  fix p s w0 r w1
  assume p: "p \<in> set (map (\<lambda>(dbi, shard_id). on_shard shard_id (\<lambda>db s.
      (save_live dbi (ForEachInDB (clk e (dbi * shard_count (ctx w) + shard_id)) dbi db) s, db)))
      (List.product [0..<kNumDBs] [0..<shard_count (ctx w)]))" and w: "world_in W P w0" "p s w0 = Inr (r, w1)"
  from p obtain dbi i where "p = on_shard i (\<lambda>db s. (save_live dbi (ForEachInDB (clk e (dbi * shard_count (ctx w) + i)) dbi db) s, db))"
    by auto
  with on_shard_all [OF w(1) w(2) [unfolded this]] show "world_in W P w1" by simp
qed

lemma BgSaveToFile_all: "world_in W P w \<Longrightarrow> BgSaveToFile now epoch now_ms file_path w d = Inr (ec, w', d') \<Longrightarrow> world_in W P w'"
  unfolding BgSaveToFile_def
proof (erule write_file_inv)
  fix p s w0 r w1
  assume p: "p \<in> set (map (\<lambda>i. on_shard i (snapshot_shard (now i) epoch)) [0..<shard_count (ctx w)])"
    and w: "world_in W P w0" "p s w0 = Inr (r, w1)"
  from p obtain i where "p = on_shard i (snapshot_shard (now i) epoch)" by auto
  with on_shard_all [OF w(1) w(2) [unfolded this]] snapshot_P show "world_in W P w1" by simp
qed

lemma store_loaded_P:
  assumes "P db" "store_loaded now now' dbid key v x db = Inr (r, db')" "K key" "V (NanoObj_copy v)"
  shows "P db'"
proof -
  have set: "P db2" if "Database_Set_copy key v db1 = Inr db2" "P db1" for db1 db2
    using P_Set [OF that(2) that(1) [unfolded Database_Set_copy_def] assms(3,4)] .
  show ?thesis
    using assms(1,2) by (auto simp: store_loaded_def keep_simps split: if_splits dest!: set P_Expire [rotated])
qed

end

interpretation inv_snapshot: snapshot_contract "\<lambda>_. True" db_inv "\<lambda>_. True" "\<lambda>_. True"
  by unfold_locales (rule versions_only_ok(1))

sublocale value_contract \<subseteq> snapshot_contract W "db_values V" scalar_ok V
  by unfold_locales (rule versions_only_values)

text \<open>What any file, damaged or not, can make the loader hand over.\<close>

lemma le_value_bound: "le_value bs < 256 ^ length bs"
proof (induction bs)
  case (Cons b bs)
  have "x + 256 * v < 256 * p" if "x < 256" "v < p" for x v p :: nat using that by presburger
  from this [OF nat_of_char_less_256 Cons] show ?case by simp
qed simp

lemma ReadRaw_length: "ReadRaw n l = Inr (Inr bytes, l') \<Longrightarrow> length bytes = n"
  by (auto simp: ReadRaw_def FileSource_Read_def split: if_splits)

lemma load_bind_Inr: "load_bind f g l = Inr (Inr y, l') \<longleftrightarrow> (\<exists>x l1. f l = Inr (Inr x, l1) \<and> g x l1 = Inr (Inr y, l'))"
proof (cases "f l")
  case (Inr p)
  obtain r l1 where p: "p = (r, l1)" by (cases p)
  with Inr show ?thesis by (cases r) (auto simp: load_bind_def)
qed (simp add: load_bind_def)

lemma ReadObject_value:
  assumes "ReadObject e ty l = Inr (Inr v, l')"
  shows "scalar_ok v \<or> (\<exists>r. v = RobjObj r)"
proof -
  have int: "scalar_ok (FromInt (to_int64 (le_value bytes)))" if "length bytes = 8" for bytes
  proof (rule FromInt_ok)
    have "le_value bytes < 2 ^ 64" using le_value_bound [of bytes] that by simp
    then show "in_int64 (to_int64 (le_value bytes))" by (auto simp: in_int64_def to_int64_def bounds_defs)
  qed
  show ?thesis
    using assms
    by (auto simp: ReadObject_def load_bind_Inr load_return_def load_fail_def FromString_ok
        new_container_defs split: if_splits dest!: ReadRaw_length int)
qed

lemma load_step_inv:
  assumes "load_step f l s k = Inr (ec, s')" "Q s" "\<And>x l'. f l = Inr (Inr x, l') \<Longrightarrow> k x l' = Inr (ec, s') \<Longrightarrow> Q s'"
  shows "Q s'"
proof (cases "f l")
  case (Inr p)
  obtain r l1 where p: "p = (r, l1)" by (cases p)
  with Inr assms show ?thesis by (cases r) (auto simp: load_step_def)
qed (use assms(1) in \<open>simp add: load_step_def\<close>)

lemma if_cases: "(if b then x else y) = r \<Longrightarrow> (b \<Longrightarrow> x = r \<Longrightarrow> P) \<Longrightarrow> (\<not> b \<Longrightarrow> y = r \<Longrightarrow> P) \<Longrightarrow> P"
  by (cases b) simp_all

lemma Load_loop_inv:
  assumes "Load_loop n e (Some h) dbid ex l s = Inr (ec, s')" "Q s"
    and "\<And>dbid key v x s ec s'. Q s \<Longrightarrow> scalar_ok v \<or> (\<exists>r. v = RobjObj r) \<Longrightarrow> h dbid (FromString key) v x s = Inr (ec, s') \<Longrightarrow> Q s'"
  shows "Q s'"
  using assms(1,2)
proof (induction n arbitrary: dbid ex l s)
  case (Suc n)
  note IH = Suc.IH and Q = Suc.prems(2)
  have ent: "Q s'" if "load_step (ReadObject e opcode) l s (\<lambda>v l.
      let x = (case ex of Some at \<Rightarrow> at | None \<Rightarrow> 0)
      in case Some h of None \<Rightarrow> Load_loop n e (Some h) dbid None l s
        | Some h' \<Rightarrow> bind_r (h' dbid (FromString key) v x s) (\<lambda>(ec, s). case ec of Some ec \<Rightarrow> Inr (Some ec, s)
            | None \<Rightarrow> Load_loop n e (Some h) dbid None l s)) = Inr (ec, s')" for l key opcode
    using that Q
  proof (rule load_step_inv)
    fix v l'
    assume v: "ReadObject e opcode l = Inr (Inr v, l')" and r: "(let x = (case ex of Some at \<Rightarrow> at | None \<Rightarrow> 0)
      in case Some h of None \<Rightarrow> Load_loop n e (Some h) dbid None l' s
        | Some h' \<Rightarrow> bind_r (h' dbid (FromString key) v x s) (\<lambda>(ec, s). case ec of Some ec \<Rightarrow> Inr (Some ec, s)
            | None \<Rightarrow> Load_loop n e (Some h) dbid None l' s)) = Inr (ec, s')"
    then obtain ec1 s1 where h: "h dbid (FromString key) v (case ex of Some at \<Rightarrow> at | None \<Rightarrow> 0) s = Inr (ec1, s1)"
      and k: "(case ec1 of Some ec \<Rightarrow> Inr (Some ec, s1) | None \<Rightarrow> Load_loop n e (Some h) dbid None l' s1) = Inr (ec, s')"
      by (auto simp: bind_r_Inr_iff)
    have "Q s1" by (rule assms(3) [OF Q ReadObject_value [OF v] h])
    with k IH show "Q s'" by (cases ec1) auto
  qed
  show ?case
    using Suc.prems(1) unfolding Load_loop.simps
  proof (rule load_step_inv [where Q = Q])
    show "Q s" by (rule Q)
    fix opcode l1
    assume r: "(if opcode = NRDB_OPCODE_DB_SELECT then
         load_step ReadLen l1 s (\<lambda>selected_db l. Load_loop n e (Some h) (selected_db mod 2 ^ 32) None l s)
       else if opcode = NRDB_OPCODE_DB_SIZE then
         load_step ReadLen l1 s (\<lambda>ignored l. Load_loop n e (Some h) dbid ex l s)
       else if opcode = NRDB_OPCODE_EXPIRE_MS then
         load_step ReadLen l1 s (\<lambda>at l. Load_loop n e (Some h) dbid (Some (to_int64 at)) l s)
       else if opcode = NRDB_OPCODE_EOF then
         load_step LoadFooter l1 s (\<lambda>_ l. Inr (None, s))
       else
         load_step (ReadString e) l1 s (\<lambda>key l.
         load_step (ReadObject e opcode) l s (\<lambda>value l.
           let entry_expire_ms = (case ex of Some at \<Rightarrow> at | None \<Rightarrow> 0)
           in case Some h of
                None \<Rightarrow> Load_loop n e (Some h) dbid None l s
              | Some h' \<Rightarrow> bind_r (h' dbid (FromString key) value entry_expire_ms s) (\<lambda>(ec, s).
                  case ec of Some ec \<Rightarrow> Inr (Some ec, s) | None \<Rightarrow> Load_loop n e (Some h) dbid None l s)))) = Inr (ec, s')"
    have done_s: "Q s'" if "Inr (None, s) = Inr (ec, s')" using Q that by simp
    from r show "Q s'"
      by (elim if_cases) (erule load_step_inv [where Q = Q], rule Q, (erule IH [OF _ Q] done_s ent))+
  qed
next
  case 0
  then show ?case by (simp add: Load_loop.simps)
qed

lemma Load_inv:
  assumes "Load e (Some h) l s = Inr (ec, s')" "Q s"
    and "\<And>dbid key v x s ec s'. Q s \<Longrightarrow> scalar_ok v \<or> (\<exists>r. v = RobjObj r) \<Longrightarrow> h dbid (FromString key) v x s = Inr (ec, s') \<Longrightarrow> Q s'"
  shows "Q s'"
  using assms(1) unfolding Load_def
proof (rule load_step_inv [where Q = Q])
  fix x l'
  assume "Load_loop (Suc (length (rest l'))) e (Some h) 0 None l' s = Inr (ec, s')"
  then show "Q s'" using assms(2,3) by (rule Load_loop_inv [where Q = Q])
qed (rule assms(2))

lemma LoadFromFile_loaded:
  assumes "LoadFromFile e file_path d pool w = Inr (ec, w', b)" "world_all (db_values loaded_ok) w"
  shows "world_all (db_values loaded_ok) w'"
proof (cases "w' = w")
  case False
  with assms(1) obtain bytes n where "Load e (Some (load_entry e)) (RdbLoader_new True bytes 0) (w, 0) = Inr (ec, w', n)"
    by (auto simp: LoadFromFile_def bind_r_Inr_iff split: if_splits option.splits)
  then have "world_all (db_values loaded_ok) (fst (w', n))"
  proof (rule Load_inv [where Q = "\<lambda>st. world_all (db_values loaded_ok) (fst st)"])
    fix dbid key v x st ec st'
    assume w: "world_all (db_values loaded_ok) (fst st)" and v: "scalar_ok v \<or> (\<exists>r. v = RobjObj r)"
      and l: "load_entry e dbid (FromString key) v x st = Inr (ec, st')"
    obtain w0 n0 where st: "st = (w0, n0)" by (cases st)
    have lv: "loaded_ok (NanoObj_copy (NanoObj_copy v))"
      using v by (auto simp: loaded_ok_def scalar_ok_obj_ok) (simp add: NanoObj_copy_def)
    have lk: "scalar_ok (NanoObj_copy (FromString key))" by (simp add: FromString_ok)
    show "world_all (db_values loaded_ok) (fst st')"
    proof (cases "fst st' = w0")
      case True
      with w st show ?thesis by simp
    next
      case f: False
      then obtain r where a: "Await (Shard e (GetStringView (FromString key)) (length (shards w0))) (Some invalid_argument)
          (store_loaded (clk e n0) (clk e (n0 + 1)) dbid (NanoObj_copy (FromString key)) (NanoObj_copy v) x) w0 = Inr (r, fst st')"
        using l by (auto simp: load_entry_def st Let_def bind_r_Inr_iff split: if_splits)
      have "world_all (db_values loaded_ok) w0" using w st by simp
      from loaded.Await_all [OF this a] show ?thesis using loaded.store_loaded_P [OF _ _ lk lv] by blast
    qed
  qed (simp add: assms(2))
  then show ?thesis by simp
qed (use assms in simp)

end
