(* ===== verification/Task_Queue.thy ===== *)
theory Task_Queue
  imports Nano_Prelude
begin

unbundle bit_operations_syntax

text \<open>
  The bounded queue that carries tasks to the thread of a shard: \<open>src/core/task_queue.cc\<close> and
  \<open>include/core/task_queue.h\<close>.

  Any number of threads call \<open>TryEnqueue\<close> and \<open>TryDequeue\<close> at the same time.  \<open>thread_step\<close> is
  one access to shared memory by one thread: every load, compare-exchange and store of the two
  loops, and the construction and the move of the stored task, is a step of its own, and steps of
  different threads interleave in any order.  Accesses are taken in one global order; the code
  orders the accesses to a cell's storage by the release stores and acquire loads of its sequence
  number.  \<open>accepted\<close> and \<open>delivered\<close> record history: no step reads them.

  Positions are counters of 64 bits in the code.  They are natural numbers here, which agrees with
  the code, the signed difference of sequence and position included, for the first $2^{63}$ tasks.
\<close>

section \<open>Sequential code\<close>

definition kMinCapacity :: nat where "kMinCapacity = 2"

text \<open>
  The doubling loop.  For \<open>x\<close> up to $2^{63}$ it stops before \<open>p\<close> overflows; the condition
  \<open>p \<noteq> 0\<close> holds throughout and serves the termination proof.
\<close>

function double_until :: "nat \<Rightarrow> nat \<Rightarrow> nat" where
  "double_until x p = (if p < x \<and> p \<noteq> 0 then double_until x (push_bit 1 p) else p)"
  by pat_completeness auto
termination by (relation "measure (\<lambda>(x, p). x - p)") (auto simp: push_bit_eq_mult)

declare double_until.simps [simp del]

definition RoundUpPowerOfTwo :: "nat \<Rightarrow> nat" where
  "RoundUpPowerOfTwo x = (if x < kMinCapacity then kMinCapacity else double_until x 1)"

text \<open>\<open>storage\<close> is \<open>None\<close> while no task lives in it.\<close>

record 'a cell =
  sequence :: nat
  storage :: "'a option"

record 'a task_queue =
  buffer :: "'a cell list"
  buffer_mask :: nat
  enqueue_pos :: nat
  dequeue_pos :: nat

definition TaskQueue_new :: "nat \<Rightarrow> 'a task_queue" where
  "TaskQueue_new queue_size =
     (let capacity = RoundUpPowerOfTwo queue_size
      in \<lparr>buffer = map (\<lambda>i. \<lparr>sequence = i, storage = None\<rparr>) [0..<capacity], buffer_mask = capacity - 1,
          enqueue_pos = 0, dequeue_pos = 0\<rparr>)"

definition slot :: "nat \<Rightarrow> 'a task_queue \<Rightarrow> nat" where
  "slot pos q = pos AND buffer_mask q"

definition cell_at :: "nat \<Rightarrow> 'a task_queue \<Rightarrow> 'a cell" where
  "cell_at pos q = buffer q ! slot pos q"

definition set_cell :: "nat \<Rightarrow> ('a cell \<Rightarrow> 'a cell) \<Rightarrow> 'a task_queue \<Rightarrow> 'a task_queue" where
  "set_cell pos f q = q\<lparr>buffer := (buffer q)[slot pos q := f (cell_at pos q)]\<rparr>"

text \<open>
  The two operations when nobody interferes.  \<open>None\<close> is the case in which the loop would read the
  same position and the same sequence number forever.
\<close>

definition TryEnqueue :: "'a \<Rightarrow> 'a task_queue \<Rightarrow> (bool \<times> 'a task_queue) option" where
  "TryEnqueue func q =
     (let pos = enqueue_pos q; dif = int (sequence (cell_at pos q)) - int pos
      in if dif = 0 then
           Some (True, set_cell pos (\<lambda>_. \<lparr>sequence = pos + 1, storage = Some func\<rparr>) (q\<lparr>enqueue_pos := pos + 1\<rparr>))
         else if dif < 0 then Some (False, q)
         else None)"

definition TryDequeue :: "'a task_queue \<Rightarrow> ('a option \<times> 'a task_queue) option" where
  "TryDequeue q =
     (let pos = dequeue_pos q; dif = int (sequence (cell_at pos q)) - int (pos + 1)
      in if dif = 0 then
           Some (storage (cell_at pos q),
             set_cell pos (\<lambda>_. \<lparr>sequence = pos + buffer_mask q + 1, storage = None\<rparr>) (q\<lparr>dequeue_pos := pos + 1\<rparr>))
         else if dif < 0 then Some (None, q)
         else None)"

definition TaskQueue_Empty :: "'a task_queue \<Rightarrow> bool" where
  "TaskQueue_Empty q \<longleftrightarrow> int (sequence (cell_at (dequeue_pos q) q)) - int (dequeue_pos q + 1) < 0"

text \<open>
  \<open>ProcessTasks\<close>; a task may change the queue it came from.  The bound limits the number of
  tasks; \<open>None\<close> means that it was reached, or that a dequeue spins.
\<close>

primrec ProcessTasks :: "nat \<Rightarrow> ('a \<Rightarrow> 'a task_queue \<times> 's \<Rightarrow> 'a task_queue \<times> 's) \<Rightarrow> 'a task_queue \<times> 's \<Rightarrow> ('a task_queue \<times> 's) option" where
  "ProcessTasks 0 exec qs = None"
| "ProcessTasks (Suc n) exec qs =
     (case TryDequeue (fst qs) of
        None \<Rightarrow> None
      | Some (None, q) \<Rightarrow> Some (q, snd qs)
      | Some (Some func, q) \<Rightarrow> ProcessTasks n exec (exec func (q, snd qs)))"

section \<open>Concurrent code\<close>

text \<open>Where a thread is: outside, or before the named access of the two loops.\<close>

datatype 'a pc =
    Outside
  | Enq_load 'a | Enq_seq 'a nat | Enq_cas 'a nat | Enq_construct 'a nat | Enq_publish nat
  | Deq_load | Deq_seq nat | Deq_cas nat | Deq_move nat | Deq_publish nat 'a

record 'a system =
  queue :: "'a task_queue"
  pcs :: "nat \<Rightarrow> 'a pc"
  accepted :: "'a list"
  delivered :: "(nat \<times> 'a option) list"

definition goto :: "nat \<Rightarrow> 'a pc \<Rightarrow> 'a system \<Rightarrow> 'a system" where
  "goto t c s = s\<lparr>pcs := (pcs s)(t := c)\<rparr>"

text \<open>A compare-exchange may fail although the value is the expected one.\<close>

inductive thread_step :: "nat \<Rightarrow> 'a system \<Rightarrow> 'a system \<Rightarrow> bool" for t :: nat and s :: "'a system" where
  call_enqueue: "pcs s t = Outside \<Longrightarrow> thread_step t s (goto t (Enq_load x) s)"
| enq_load: "pcs s t = Enq_load x \<Longrightarrow> thread_step t s (goto t (Enq_seq x (enqueue_pos (queue s))) s)"
| enq_seq: "pcs s t = Enq_seq x pos \<Longrightarrow> dif = int (sequence (cell_at pos (queue s))) - int pos \<Longrightarrow>
    thread_step t s (goto t (if dif = 0 then Enq_cas x pos else if dif < 0 then Outside else Enq_load x) s)"
| enq_cas: "pcs s t = Enq_cas x pos \<Longrightarrow> enqueue_pos (queue s) = pos \<Longrightarrow>
    thread_step t s (goto t (Enq_construct x pos)
      (s\<lparr>queue := (queue s)\<lparr>enqueue_pos := pos + 1\<rparr>, accepted := accepted s @ [x]\<rparr>))"
| enq_cas_fail: "pcs s t = Enq_cas x pos \<Longrightarrow> thread_step t s (goto t (Enq_load x) s)"
| enq_construct: "pcs s t = Enq_construct x pos \<Longrightarrow>
    thread_step t s (goto t (Enq_publish pos) (s\<lparr>queue := set_cell pos (storage_update (\<lambda>_. Some x)) (queue s)\<rparr>))"
| enq_publish: "pcs s t = Enq_publish pos \<Longrightarrow>
    thread_step t s (goto t Outside (s\<lparr>queue := set_cell pos (sequence_update (\<lambda>_. pos + 1)) (queue s)\<rparr>))"
| call_dequeue: "pcs s t = Outside \<Longrightarrow> thread_step t s (goto t Deq_load s)"
| deq_load: "pcs s t = Deq_load \<Longrightarrow> thread_step t s (goto t (Deq_seq (dequeue_pos (queue s))) s)"
| deq_seq: "pcs s t = Deq_seq pos \<Longrightarrow> dif = int (sequence (cell_at pos (queue s))) - int (pos + 1) \<Longrightarrow>
    thread_step t s (goto t (if dif = 0 then Deq_cas pos else if dif < 0 then Outside else Deq_load) s)"
| deq_cas: "pcs s t = Deq_cas pos \<Longrightarrow> dequeue_pos (queue s) = pos \<Longrightarrow>
    thread_step t s (goto t (Deq_move pos) (s\<lparr>queue := (queue s)\<lparr>dequeue_pos := pos + 1\<rparr>\<rparr>))"
| deq_cas_fail: "pcs s t = Deq_cas pos \<Longrightarrow> thread_step t s (goto t Deq_load s)"
| deq_move: "pcs s t = Deq_move pos \<Longrightarrow> storage (cell_at pos (queue s)) = Some x \<Longrightarrow>
    thread_step t s (goto t (Deq_publish pos x)
      (s\<lparr>queue := set_cell pos (storage_update (\<lambda>_. None)) (queue s), delivered := delivered s @ [(pos, Some x)]\<rparr>))"
| deq_move_garbage: "pcs s t = Deq_move pos \<Longrightarrow> storage (cell_at pos (queue s)) = None \<Longrightarrow>
    thread_step t s (goto t Outside (s\<lparr>delivered := delivered s @ [(pos, None)]\<rparr>))"
| deq_publish: "pcs s t = Deq_publish pos x \<Longrightarrow>
    thread_step t s (goto t Outside (s\<lparr>queue := set_cell pos (sequence_update (\<lambda>_. pos + buffer_mask (queue s) + 1)) (queue s)\<rparr>))"

definition system_new :: "nat \<Rightarrow> 'a system" where
  "system_new queue_size = \<lparr>queue = TaskQueue_new queue_size, pcs = (\<lambda>_. Outside), accepted = [], delivered = []\<rparr>"

inductive reachable :: "nat \<Rightarrow> 'a system \<Rightarrow> bool" for queue_size :: nat where
  start: "reachable queue_size (system_new queue_size)"
| step: "reachable queue_size s \<Longrightarrow> thread_step t s s' \<Longrightarrow> reachable queue_size s'"

section \<open>Positions and cells\<close>

lemma double_until_power: "\<exists>k. double_until x (2 ^ n) = 2 ^ k \<and> n \<le> k"
proof (induction x "2 ^ n :: nat" arbitrary: n rule: double_until.induct)
  case (1 x)
  show ?case
  proof (cases "2 ^ n < x")
    case True
    have "push_bit 1 (2 ^ n) = (2 :: nat) ^ Suc n" by (simp add: push_bit_eq_mult)
    then obtain k where "double_until x (push_bit 1 (2 ^ n)) = 2 ^ k" "Suc n \<le> k" using 1 [of "Suc n"] True by (auto simp: mult.commute)
    then show ?thesis using True by (subst double_until.simps) auto
  next
    case False
    then show ?thesis by (subst double_until.simps) auto
  qed
qed

lemma double_until_ge: "x \<le> double_until x p \<or> p = 0"
  by (induction x p rule: double_until.induct) (subst double_until.simps, auto simp: push_bit_eq_mult)

lemma RoundUpPowerOfTwo_ok: "\<exists>k > 0. RoundUpPowerOfTwo x = 2 ^ k" "x \<le> RoundUpPowerOfTwo x" "2 \<le> RoundUpPowerOfTwo x"
proof -
  show ge: "x \<le> RoundUpPowerOfTwo x" using double_until_ge [of x 1] by (simp add: RoundUpPowerOfTwo_def kMinCapacity_def)
  obtain k where k: "double_until x 1 = 2 ^ k" using double_until_power [of x 0] by auto
  show two: "2 \<le> RoundUpPowerOfTwo x"
    using ge by (cases "x < kMinCapacity") (auto simp: RoundUpPowerOfTwo_def kMinCapacity_def)
  show "\<exists>k > 0. RoundUpPowerOfTwo x = 2 ^ k"
  proof (cases "x < kMinCapacity")
    case True
    then show ?thesis by (intro exI [of _ 1]) (simp add: RoundUpPowerOfTwo_def kMinCapacity_def)
  next
    case False
    then have "RoundUpPowerOfTwo x = 2 ^ k" using k by (simp add: RoundUpPowerOfTwo_def)
    moreover from this two have "0 < k" by (cases k) auto
    ultimately show ?thesis by auto
  qed
qed

lemma Suc_mod_neq: "2 \<le> (N :: nat) \<Longrightarrow> Suc p mod N \<noteq> p mod N"
  by (simp add: mod_Suc)

abbreviation sq :: "'a system \<Rightarrow> nat \<Rightarrow> nat" where "sq s p \<equiv> sequence (cell_at p (queue s))"

abbreviation sto :: "'a system \<Rightarrow> nat \<Rightarrow> 'a option" where "sto s p \<equiv> storage (cell_at p (queue s))"

definition queue_ok :: "nat \<Rightarrow> 'a task_queue \<Rightarrow> bool" where
  "queue_ok N q \<longleftrightarrow> 2 \<le> N \<and> (\<exists>k. N = 2 ^ k) \<and> buffer_mask q = N - 1 \<and> length (buffer q) = N"

lemma queue_ok_slot:
  assumes "queue_ok N q"
  shows "slot pos q = pos mod N" "slot pos q < length (buffer q)"
proof -
  obtain k where k: "N = 2 ^ k" using assms by (auto simp: queue_ok_def)
  have "pos AND (2 ^ k - 1) = take_bit k pos" by (simp add: take_bit_eq_mask mask_eq_exp_minus_1)
  then show "slot pos q = pos mod N" using assms k by (simp add: slot_def queue_ok_def take_bit_eq_mod)
  then show "slot pos q < length (buffer q)" using assms by (simp add: queue_ok_def)
qed

lemma queue_ok_update [simp]:
  "queue_ok N (q\<lparr>enqueue_pos := a\<rparr>) = queue_ok N q" "queue_ok N (q\<lparr>dequeue_pos := b\<rparr>) = queue_ok N q"
  "queue_ok N (set_cell pos f q) = queue_ok N q"
  by (simp_all add: queue_ok_def set_cell_def)

lemma cell_at_update [simp]:
  "cell_at p (q\<lparr>enqueue_pos := a\<rparr>) = cell_at p q" "cell_at p (q\<lparr>dequeue_pos := b\<rparr>) = cell_at p q"
  "enqueue_pos (set_cell pos f q) = enqueue_pos q" "dequeue_pos (set_cell pos f q) = dequeue_pos q"
  "buffer_mask (set_cell pos f q) = buffer_mask q"
  by (simp_all add: cell_at_def slot_def set_cell_def)

lemma cell_at_set_cell:
  assumes "queue_ok N q"
  shows "cell_at p (set_cell pos f q) = (if p mod N = pos mod N then f (cell_at pos q) else cell_at p q)"
proof -
  have "slot p (set_cell pos f q) = slot p q" for p by (simp add: slot_def set_cell_def)
  then show ?thesis
    using queue_ok_slot [OF assms] by (simp add: cell_at_def) (simp add: set_cell_def cell_at_def nth_list_update)
qed

lemma cell_at_cong: "queue_ok N q \<Longrightarrow> p mod N = p' mod N \<Longrightarrow> cell_at p q = cell_at p' q"
  by (simp add: cell_at_def queue_ok_slot)

text \<open>The position that a thread has claimed and not yet released, on either side.\<close>

fun writes :: "'a pc \<Rightarrow> nat \<Rightarrow> bool" where
  "writes (Enq_construct x pos) p = (p = pos)"
| "writes (Enq_publish pos) p = (p = pos)"
| "writes _ p = False"

fun moves :: "'a pc \<Rightarrow> nat \<Rightarrow> bool" where
  "moves (Deq_move pos) p = (p = pos)"
| "moves (Deq_publish pos x) p = (p = pos)"
| "moves _ p = False"

fun pc_ok :: "'a system \<Rightarrow> 'a pc \<Rightarrow> bool" where
  "pc_ok s (Enq_seq x pos) = (pos \<le> enqueue_pos (queue s))"
| "pc_ok s (Enq_cas x pos) = (pos \<le> enqueue_pos (queue s) \<and> (pos = enqueue_pos (queue s) \<longrightarrow> sq s pos = pos))"
| "pc_ok s (Enq_construct x pos) = (pos < enqueue_pos (queue s) \<and> sq s pos = pos \<and> accepted s ! pos = x)"
| "pc_ok s (Enq_publish pos) = (pos < enqueue_pos (queue s) \<and> sq s pos = pos \<and> sto s pos = Some (accepted s ! pos))"
| "pc_ok s (Deq_seq pos) = (pos \<le> dequeue_pos (queue s))"
| "pc_ok s (Deq_cas pos) = (pos \<le> dequeue_pos (queue s) \<and> (pos = dequeue_pos (queue s) \<longrightarrow> sq s pos = Suc pos))"
| "pc_ok s (Deq_move pos) = (pos < dequeue_pos (queue s) \<and> sq s pos = Suc pos \<and> sto s pos = Some (accepted s ! pos) \<and>
     pos \<notin> fst ` set (delivered s))"
| "pc_ok s (Deq_publish pos x) = (pos < dequeue_pos (queue s) \<and> sq s pos = Suc pos)"
| "pc_ok s _ = True"

definition positions_ok :: "nat \<Rightarrow> 'a system \<Rightarrow> bool" where
  "positions_ok N s \<longleftrightarrow> enqueue_pos (queue s) = length (accepted s) \<and>
     dequeue_pos (queue s) \<le> enqueue_pos (queue s) \<and> enqueue_pos (queue s) \<le> dequeue_pos (queue s) + N"

definition owners_ok :: "'a system \<Rightarrow> bool" where
  "owners_ok s \<longleftrightarrow> (\<forall>t t' p. writes (pcs s t) p \<longrightarrow> writes (pcs s t') p \<longrightarrow> t = t') \<and>
     (\<forall>t t' p. moves (pcs s t) p \<longrightarrow> moves (pcs s t') p \<longrightarrow> t = t')"

definition full_ok :: "'a system \<Rightarrow> bool" where
  "full_ok s \<longleftrightarrow> (\<forall>p. dequeue_pos (queue s) \<le> p \<longrightarrow> p < enqueue_pos (queue s) \<longrightarrow>
     (\<exists>t. writes (pcs s t) p) \<or> sq s p = Suc p \<and> sto s p = Some (accepted s ! p))"

definition free_ok :: "nat \<Rightarrow> 'a system \<Rightarrow> bool" where
  "free_ok N s \<longleftrightarrow> (\<forall>p. enqueue_pos (queue s) \<le> p \<longrightarrow> p < dequeue_pos (queue s) + N \<longrightarrow>
     sq s p = p \<or> N \<le> p \<and> (\<exists>t. moves (pcs s t) (p - N)))"

definition cells_ok :: "nat \<Rightarrow> 'a system \<Rightarrow> bool" where
  "cells_ok N s \<longleftrightarrow> (\<forall>i. \<exists>p. p mod N = i mod N \<and>
     (sq s i = p \<and> p < dequeue_pos (queue s) + N \<or> sq s i = Suc p \<and> p < enqueue_pos (queue s)))"

definition history_ok :: "'a system \<Rightarrow> bool" where
  "history_ok s \<longleftrightarrow> distinct (map fst (delivered s)) \<and>
     (\<forall>(p, v) \<in> set (delivered s). p < dequeue_pos (queue s) \<and> v = Some (accepted s ! p))"

definition system_ok :: "nat \<Rightarrow> 'a system \<Rightarrow> bool" where
  "system_ok N s \<longleftrightarrow> queue_ok N (queue s) \<and> positions_ok N s \<and> (\<forall>t. pc_ok s (pcs s t)) \<and> owners_ok s \<and>
     full_ok s \<and> free_ok N s \<and> cells_ok N s \<and> history_ok s"

lemma system_okD:
  assumes "system_ok N s"
  shows "queue_ok N (queue s)" "positions_ok N s" "pc_ok s (pcs s t)" "owners_ok s" "full_ok s" "free_ok N s" "cells_ok N s"
    "history_ok s" "2 \<le> N"
  using assms by (auto simp: system_ok_def queue_ok_def)

lemma goto_simps [simp]:
  "queue (goto t c s) = queue s" "accepted (goto t c s) = accepted s" "delivered (goto t c s) = delivered s"
  "pcs (goto t c s) u = (if u = t then c else pcs s u)"
  by (simp_all add: goto_def)

lemma pc_ok_goto [simp]: "pc_ok (goto t c s) c' = pc_ok s c'"
  by (cases c') simp_all

text \<open>A thread moves on without changing shared memory.\<close>

lemma system_ok_goto:
  assumes ok: "system_ok N s" and c: "pc_ok s c" "\<forall>p. writes c p = writes (pcs s t) p" "\<forall>p. moves c p = moves (pcs s t) p"
  shows "system_ok N (goto t c s)"
proof -
  have w: "writes (pcs (goto t c s) u) = writes (pcs s u)" "moves (pcs (goto t c s) u) = moves (pcs s u)" for u
    using c(2,3) by (auto simp: fun_eq_iff)
  show ?thesis
    using ok c(1) unfolding system_ok_def positions_ok_def owners_ok_def full_ok_def free_ok_def cells_ok_def history_ok_def w
    by auto
qed

lemma writes_pos: "system_ok N s \<Longrightarrow> writes (pcs s t) p \<Longrightarrow> p < enqueue_pos (queue s) \<and> sq s p = p"
  using system_okD(3) [of N s t] by (cases "pcs s t") auto

lemma moves_pos: "system_ok N s \<Longrightarrow> moves (pcs s t) p \<Longrightarrow> p < dequeue_pos (queue s) \<and> sq s p = Suc p"
  using system_okD(3) [of N s t] by (cases "pcs s t") auto

lemma same_cell: "system_ok N s \<Longrightarrow> p mod N = p' mod N \<Longrightarrow> sq s p = sq s p'"
  using cell_at_cong [of N "queue s" p p'] by (simp add: system_ok_def)
lemma accepted_append: "p < length xs \<Longrightarrow> (xs @ [x]) ! p = xs ! p"
  by (simp add: nth_append)

lemma step_enq_cas:
  assumes ok: "system_ok N s" and t: "pcs s t = Enq_cas x pos" and e: "enqueue_pos (queue s) = pos"
  shows "system_ok N (goto t (Enq_construct x pos) (s\<lparr>queue := (queue s)\<lparr>enqueue_pos := pos + 1\<rparr>, accepted := accepted s @ [x]\<rparr>))"
    (is "system_ok N ?s")
proof -
  note D = system_okD [OF ok]
  have seq: "sq s pos = pos" using D(3) [of t] t e by simp
  have len: "length (accepted s) = pos" "dequeue_pos (queue s) \<le> pos" using D(2) e by (auto simp: positions_ok_def)
  have "pos < dequeue_pos (queue s) + N"
  proof -
    obtain p where p: "p mod N = pos mod N" "sq s pos = p \<and> p < dequeue_pos (queue s) + N \<or> sq s pos = Suc p"
      using D(7) unfolding cells_ok_def by blast
    then show ?thesis using seq Suc_mod_neq [OF D(9), of p] by auto
  qed
  then have "positions_ok N ?s" using len by (simp add: positions_ok_def)
  moreover have "pc_ok ?s (pcs ?s u)" for u
    using D(3) [of u] seq len e by (cases "pcs s u") (auto simp: accepted_append t)
  moreover have "owners_ok ?s"
    using D(4) writes_pos [OF ok] e unfolding owners_ok_def by (auto simp: t)
  moreover have "full_ok ?s"
    unfolding full_ok_def
  proof (intro allI impI)
    fix p assume p: "dequeue_pos (queue ?s) \<le> p" "p < enqueue_pos (queue ?s)"
    show "(\<exists>u. writes (pcs ?s u) p) \<or> sq ?s p = Suc p \<and> sto ?s p = Some (accepted ?s ! p)"
    proof (cases "p = pos")
      case True
      then show ?thesis by (intro disjI1 exI [of _ t]) simp
    next
      case False
      then have "(\<exists>u. writes (pcs s u) p) \<or> sq s p = Suc p \<and> sto s p = Some (accepted s ! p)"
        using D(5) p e unfolding full_ok_def by auto
      moreover have "u \<noteq> t" if "writes (pcs s u) p" for u using that t by auto
      ultimately show ?thesis using False p len by (auto simp: accepted_append)
    qed
  qed
  moreover have "free_ok N ?s"
    using D(6) e unfolding free_ok_def by simp (metis Suc_leD moves.simps t)
  moreover have "cells_ok N ?s" using D(7) e unfolding cells_ok_def by simp (metis less_SucI)
  moreover have "history_ok ?s" using D(8) len unfolding history_ok_def by (fastforce simp: accepted_append)
  ultimately show ?thesis using D(1) by (simp add: system_ok_def)
qed

lemma step_enq_construct:
  assumes ok: "system_ok N s" and t: "pcs s t = Enq_construct x pos"
  shows "system_ok N (goto t (Enq_publish pos) (s\<lparr>queue := set_cell pos (storage_update (\<lambda>_. Some x)) (queue s)\<rparr>))"
    (is "system_ok N ?s")
proof -
  note D = system_okD [OF ok]
  have P: "pos < enqueue_pos (queue s)" "sq s pos = pos" "accepted s ! pos = x" using D(3) [of t] t by auto
  have q: "sq ?s p = sq s p" for p using cell_at_set_cell [OF D(1), of p pos] cell_at_cong [OF D(1), of p pos] by simp
  have st: "sto ?s p = (if p mod N = pos mod N then Some x else sto s p)" for p
    using cell_at_set_cell [OF D(1), of p pos] by simp
  have other: "p mod N \<noteq> pos mod N" if "sq s p = Suc p" for p
    using that same_cell [OF ok, of p pos] P(2) Suc_mod_neq [OF D(9), of p] by auto
  have w: "writes (pcs ?s u) = writes (pcs s u)" "moves (pcs ?s u) = moves (pcs s u)" for u by (auto simp: t fun_eq_iff)
  have "pc_ok ?s (pcs ?s u)" for u
  proof (cases "u = t")
    case True
    then show ?thesis using P q st by simp
  next
    case False
    have "p mod N \<noteq> pos mod N" if "pcs s u = Enq_publish p" for p
    proof
      assume "p mod N = pos mod N"
      then have "p = pos" using same_cell [OF ok, of p pos] P(2) D(3) [of u] that by auto
      then show False using D(4) False that t unfolding owners_ok_def by (metis writes.simps(1,2))
    qed
    then show ?thesis using D(3) [of u] q st other False by (cases "pcs s u") auto
  qed
  moreover have "positions_ok N ?s" using D(2) by (simp add: positions_ok_def)
  moreover have "owners_ok ?s" using D(4) unfolding owners_ok_def w .
  moreover have "full_ok ?s" using D(5) other unfolding full_ok_def w q st by auto
  moreover have "free_ok N ?s" using D(6) unfolding free_ok_def w q by simp
  moreover have "cells_ok N ?s" using D(7) unfolding cells_ok_def q by simp
  moreover have "history_ok ?s" using D(8) by (simp add: history_ok_def)
  ultimately show ?thesis using D(1) by (simp add: system_ok_def)
qed

lemma step_enq_publish:
  assumes ok: "system_ok N s" and t: "pcs s t = Enq_publish pos"
  shows "system_ok N (goto t Outside (s\<lparr>queue := set_cell pos (sequence_update (\<lambda>_. pos + 1)) (queue s)\<rparr>))"
    (is "system_ok N ?s")
proof -
  note D = system_okD [OF ok]
  have P: "pos < enqueue_pos (queue s)" "sq s pos = pos" "sto s pos = Some (accepted s ! pos)" using D(3) [of t] t by auto
  have q: "sq ?s p = (if p mod N = pos mod N then Suc pos else sq s p)" for p using cell_at_set_cell [OF D(1), of p pos] by simp
  have st: "sto ?s p = sto s p" for p using cell_at_set_cell [OF D(1), of p pos] cell_at_cong [OF D(1), of p pos] by simp
  have other: "p mod N \<noteq> pos mod N" if "sq s p = Suc p" for p
    using that same_cell [OF ok, of p pos] P(2) Suc_mod_neq [OF D(9), of p] by auto
  have same: "p = pos" if "sq s p = p" "p mod N = pos mod N" for p using that same_cell [OF ok, of p pos] P(2) by simp
  have w: "writes (pcs ?s u) p \<longleftrightarrow> writes (pcs s u) p \<and> p \<noteq> pos" "moves (pcs ?s u) = moves (pcs s u)" for u p
  proof -
    have "u = t" if "writes (pcs s u) pos" using D(4) t that unfolding owners_ok_def by (metis writes.simps(2))
    then show "writes (pcs ?s u) p \<longleftrightarrow> writes (pcs s u) p \<and> p \<noteq> pos" by (cases "u = t") (auto simp: t)
  qed (auto simp: t fun_eq_iff)
  have "pc_ok ?s (pcs ?s u)" for u
  proof (cases "u = t")
    case False
    have "p mod N \<noteq> pos mod N" if "writes (pcs s u) p" for p
      using same [of p] writes_pos [OF ok that] w(1) [of u p] that False t D(4) unfolding owners_ok_def by (metis writes.simps(2))
    moreover have "pos \<noteq> p" "p mod N = pos mod N \<Longrightarrow> sq s p \<noteq> p" if "p = enqueue_pos (queue s)" for p using that P(1) same by auto
    ultimately show ?thesis using D(3) [of u] q st other False by (cases "pcs s u") auto
  qed simp
  moreover have "positions_ok N ?s" using D(2) by (simp add: positions_ok_def)
  moreover have "owners_ok ?s" using D(4) unfolding owners_ok_def w by blast
  moreover have "full_ok ?s" using D(5) other P(3) unfolding full_ok_def w q st by (auto 4 3)
  moreover have "free_ok N ?s"
    unfolding free_ok_def w q
  proof (intro allI impI)
    fix p assume p: "enqueue_pos (queue ?s) \<le> p" "p < dequeue_pos (queue ?s) + N"
    then have *: "sq s p = p \<or> N \<le> p \<and> (\<exists>t. moves (pcs s t) (p - N))" using D(6) by (simp add: free_ok_def)
    have "p mod N \<noteq> pos mod N"
    proof
      assume m: "p mod N = pos mod N"
      have "sq s p \<noteq> p" using same [OF _ m] P(1) p(1) by auto
      with * obtain u where u: "N \<le> p" "moves (pcs s u) (p - N)" by auto
      have "(p - N) mod N \<noteq> pos mod N" using other moves_pos [OF ok u(2)] by simp
      then show False using m u(1) by (metis le_mod_geq)
    qed
    then show "(if p mod N = pos mod N then Suc pos else sq s p) = p \<or> N \<le> p \<and> (\<exists>t. moves (pcs s t) (p - N))" using * by simp
  qed
  moreover have "cells_ok N ?s"
    unfolding cells_ok_def q
  proof
    fix i
    show "\<exists>p. p mod N = i mod N \<and> ((if i mod N = pos mod N then Suc pos else sq s i) = p \<and> p < dequeue_pos (queue ?s) + N \<or>
        (if i mod N = pos mod N then Suc pos else sq s i) = Suc p \<and> p < enqueue_pos (queue ?s))"
      using D(7) P(1) by (cases "i mod N = pos mod N") (auto simp: cells_ok_def)
  qed
  moreover have "history_ok ?s" using D(8) by (simp add: history_ok_def)
  ultimately show ?thesis using D(1) by (simp add: system_ok_def)
qed
lemma step_deq_cas:
  assumes ok: "system_ok N s" and t: "pcs s t = Deq_cas pos" and d: "dequeue_pos (queue s) = pos"
  shows "system_ok N (goto t (Deq_move pos) (s\<lparr>queue := (queue s)\<lparr>dequeue_pos := pos + 1\<rparr>\<rparr>))" (is "system_ok N ?s")
proof -
  note D = system_okD [OF ok]
  have seq: "sq s pos = Suc pos" using D(3) [of t] t d by simp
  have lt: "pos < enqueue_pos (queue s)"
  proof -
    obtain p where p: "p mod N = pos mod N" "sq s pos = p \<or> sq s pos = Suc p \<and> p < enqueue_pos (queue s)"
      using D(7) unfolding cells_ok_def by blast
    then show ?thesis using seq Suc_mod_neq [OF D(9), of pos] by auto
  qed
  have nw: "\<not> writes (pcs s u) pos" for u using writes_pos [OF ok, of u pos] seq by auto
  then have st: "sto s pos = Some (accepted s ! pos)" using D(5) d lt unfolding full_ok_def by auto
  have fresh: "pos \<notin> fst ` set (delivered s)" using D(8) d unfolding history_ok_def by fastforce
  have "positions_ok N ?s" using D(2) d lt by (simp add: positions_ok_def)
  moreover have "pc_ok ?s (pcs ?s u)" for u
    using D(3) [of u] seq st fresh d by (cases "pcs s u") (auto simp: t)
  moreover have "owners_ok ?s"
    using D(4) moves_pos [OF ok] d unfolding owners_ok_def by (auto simp: t)
  moreover have "full_ok ?s" using D(5) d unfolding full_ok_def by simp (metis Suc_leD writes.simps t)
  moreover have "free_ok N ?s"
    unfolding free_ok_def
  proof (intro allI impI)
    fix p assume p: "enqueue_pos (queue ?s) \<le> p" "p < dequeue_pos (queue ?s) + N"
    show "sq ?s p = p \<or> N \<le> p \<and> (\<exists>u. moves (pcs ?s u) (p - N))"
    proof (cases "p = pos + N")
      case True
      then have "N \<le> p \<and> moves (pcs ?s t) (p - N)" by simp
      then show ?thesis by blast
    next
      case False
      then have "sq s p = p \<or> N \<le> p \<and> (\<exists>u. moves (pcs s u) (p - N))" using D(6) p d unfolding free_ok_def by simp
      moreover have "u \<noteq> t" if "moves (pcs s u) (p - N)" for u using that t by auto
      ultimately show ?thesis by auto
    qed
  qed
  moreover have "cells_ok N ?s" using D(7) d unfolding cells_ok_def by simp (metis less_SucI)
  moreover have "history_ok ?s" using D(8) d unfolding history_ok_def by fastforce
  ultimately show ?thesis using D(1) by (simp add: system_ok_def)
qed

lemma step_deq_move:
  assumes ok: "system_ok N s" and t: "pcs s t = Deq_move pos" and x: "sto s pos = Some x"
  shows "system_ok N (goto t (Deq_publish pos x)
      (s\<lparr>queue := set_cell pos (storage_update (\<lambda>_. None)) (queue s), delivered := delivered s @ [(pos, Some x)]\<rparr>))"
    (is "system_ok N ?s")
proof -
  note D = system_okD [OF ok]
  have P: "pos < dequeue_pos (queue s)" "sq s pos = Suc pos" "sto s pos = Some (accepted s ! pos)" "pos \<notin> fst ` set (delivered s)"
    using D(3) [of t] t by auto
  have q: "sq ?s p = sq s p" for p using cell_at_set_cell [OF D(1), of p pos] cell_at_cong [OF D(1), of p pos] by simp
  have st: "sto ?s p = (if p mod N = pos mod N then None else sto s p)" for p
    using cell_at_set_cell [OF D(1), of p pos] by simp
  have other: "p mod N \<noteq> pos mod N" if "sq s p = p" for p
    using that same_cell [OF ok, of p pos] P(2) Suc_mod_neq [OF D(9), of pos] by auto
  have same: "p = pos" if "sq s p = Suc p" "p mod N = pos mod N" for p using that same_cell [OF ok, of p pos] P(2) by simp
  have w: "writes (pcs ?s u) = writes (pcs s u)" "moves (pcs ?s u) = moves (pcs s u)" for u by (auto simp: t fun_eq_iff)
  have "pc_ok ?s (pcs ?s u)" for u
  proof (cases "u = t")
    case True
    then show ?thesis using P q by simp
  next
    case False
    have m: "p mod N \<noteq> pos mod N" "p \<noteq> pos" if "pcs s u = Deq_move p" for p
    proof -
      show "p \<noteq> pos" using D(4) False that t unfolding owners_ok_def by (metis moves.simps(1))
      then show "p mod N \<noteq> pos mod N" using same [of p] D(3) [of u] that by auto
    qed
    then show ?thesis using D(3) [of u] q st other False by (cases "pcs s u") auto
  qed
  moreover have "positions_ok N ?s" using D(2) by (simp add: positions_ok_def)
  moreover have "owners_ok ?s" using D(4) unfolding owners_ok_def w .
  moreover have "full_ok ?s"
    unfolding full_ok_def w q st
  proof (intro allI impI)
    fix p assume p: "dequeue_pos (queue ?s) \<le> p" "p < enqueue_pos (queue ?s)"
    then have *: "(\<exists>t. writes (pcs s t) p) \<or> sq s p = Suc p \<and> sto s p = Some (accepted s ! p)" using D(5) by (simp add: full_ok_def)
    have "p mod N \<noteq> pos mod N" if "sq s p = Suc p" using same [OF that] P(1) p(1) by auto
    with * show "(\<exists>t. writes (pcs s t) p) \<or> sq s p = Suc p \<and> (if p mod N = pos mod N then None else sto s p) = Some (accepted ?s ! p)" by auto
  qed
  moreover have "free_ok N ?s" using D(6) unfolding free_ok_def w q by simp
  moreover have "cells_ok N ?s" using D(7) unfolding cells_ok_def q by simp
  moreover have "history_ok ?s" using D(8) P x by (auto simp: history_ok_def)
  ultimately show ?thesis using D(1) by (simp add: system_ok_def)
qed

lemma step_deq_publish:
  assumes ok: "system_ok N s" and t: "pcs s t = Deq_publish pos x"
  shows "system_ok N (goto t Outside (s\<lparr>queue := set_cell pos (sequence_update (\<lambda>_. pos + buffer_mask (queue s) + 1)) (queue s)\<rparr>))"
    (is "system_ok N ?s")
proof -
  note D = system_okD [OF ok]
  have P: "pos < dequeue_pos (queue s)" "sq s pos = Suc pos" using D(3) [of t] t by auto
  have N: "pos + buffer_mask (queue s) + 1 = pos + N" using D(1,9) by (simp add: queue_ok_def)
  have q: "sq ?s p = (if p mod N = pos mod N then pos + N else sq s p)" for p
    using cell_at_set_cell [OF D(1), of p pos] N by simp
  have st: "sto ?s p = sto s p" for p using cell_at_set_cell [OF D(1), of p pos] cell_at_cong [OF D(1), of p pos] by simp
  have other: "p mod N \<noteq> pos mod N" if "sq s p = p" for p
    using that same_cell [OF ok, of p pos] P(2) Suc_mod_neq [OF D(9), of pos] by auto
  have same: "p = pos" if "sq s p = Suc p" "p mod N = pos mod N" for p using that same_cell [OF ok, of p pos] P(2) by simp
  have mine: "u = t" if "moves (pcs s u) pos" for u using D(4) t that unfolding owners_ok_def by (metis moves.simps(2))
  have w: "moves (pcs ?s u) p \<longleftrightarrow> moves (pcs s u) p \<and> p \<noteq> pos" "writes (pcs ?s u) = writes (pcs s u)" for u p
    using mine by (cases "u = t", auto simp: t fun_eq_iff)+
  have "pc_ok ?s (pcs ?s u)" for u
  proof (cases "u = t")
    case False
    have "p mod N \<noteq> pos mod N" if "moves (pcs s u) p" for p
      using same [of p] moves_pos [OF ok that] that False mine by blast
    moreover have "p mod N \<noteq> pos mod N" if "p = dequeue_pos (queue s)" "sq s p = Suc p" for p using same that P(1) by blast
    ultimately show ?thesis using D(3) [of u] q st other False by (cases "pcs s u") auto
  qed simp
  moreover have "positions_ok N ?s" using D(2) by (simp add: positions_ok_def)
  moreover have "owners_ok ?s" using D(4) unfolding owners_ok_def w by blast
  moreover have "full_ok ?s"
    unfolding full_ok_def w q st
  proof (intro allI impI)
    fix p assume p: "dequeue_pos (queue ?s) \<le> p" "p < enqueue_pos (queue ?s)"
    then have *: "(\<exists>t. writes (pcs s t) p) \<or> sq s p = Suc p \<and> sto s p = Some (accepted s ! p)" using D(5) by (simp add: full_ok_def)
    have "p mod N \<noteq> pos mod N" if "sq s p = Suc p" using same [OF that] P(1) p(1) by auto
    with * show "(\<exists>t. writes (pcs s t) p) \<or> (if p mod N = pos mod N then pos + N else sq s p) = Suc p \<and> sto s p = Some (accepted ?s ! p)" by auto
  qed
  moreover have "free_ok N ?s"
    unfolding free_ok_def w q
  proof (intro allI impI)
    fix p assume p: "enqueue_pos (queue ?s) \<le> p" "p < dequeue_pos (queue ?s) + N"
    then have *: "sq s p = p \<or> N \<le> p \<and> (\<exists>u. moves (pcs s u) (p - N))" using D(6) by (simp add: free_ok_def)
    show "(if p mod N = pos mod N then pos + N else sq s p) = p \<or> N \<le> p \<and> (\<exists>u. moves (pcs s u) (p - N) \<and> p - N \<noteq> pos)"
    proof (cases "p mod N = pos mod N")
      case True
      then have "sq s p \<noteq> p" using other by blast
      with * obtain u where u: "N \<le> p" "moves (pcs s u) (p - N)" by auto
      have "(p - N) mod N = pos mod N" using True u(1) by (metis le_mod_geq)
      then have "p - N = pos" using same moves_pos [OF ok u(2)] by blast
      then show ?thesis using True u(1) by auto
    next
      case False
      then have "p - N \<noteq> pos \<or> \<not> N \<le> p" using le_mod_geq [of N p] by auto
      then show ?thesis using * False by auto
    qed
  qed
  moreover have "cells_ok N ?s"
    unfolding cells_ok_def q
  proof
    fix i
    show "\<exists>p. p mod N = i mod N \<and> ((if i mod N = pos mod N then pos + N else sq s i) = p \<and> p < dequeue_pos (queue ?s) + N \<or>
        (if i mod N = pos mod N then pos + N else sq s i) = Suc p \<and> p < enqueue_pos (queue ?s))"
      using D(7) P(1) exI [of _ "pos + N"] by (cases "i mod N = pos mod N") (auto simp: cells_ok_def)
  qed
  moreover have "history_ok ?s" using D(8) by (simp add: history_ok_def)
  ultimately show ?thesis using D(1) by (simp add: system_ok_def)
qed

lemma thread_step_ok:
  assumes ok: "system_ok N s" and step: "thread_step t s s'"
  shows "system_ok N s'"
  using step
proof cases
  case (enq_cas x pos)
  then show ?thesis using step_enq_cas [OF ok enq_cas(2,3)] by simp
next
  case (enq_construct x pos)
  then show ?thesis using step_enq_construct [OF ok] by simp
next
  case (enq_publish pos)
  then show ?thesis using step_enq_publish [OF ok] by simp
next
  case (deq_cas pos)
  then show ?thesis using step_deq_cas [OF ok deq_cas(2,3)] by simp
next
  case (deq_move pos x)
  then show ?thesis using step_deq_move [OF ok deq_move(2,3)] by simp
next
  case (deq_publish pos x)
  then show ?thesis using step_deq_publish [OF ok] by simp
next
  case (deq_move_garbage pos)
  then show ?thesis using system_okD(3) [OF ok, of t] by simp
qed (use system_okD(3) [OF ok, of t] in \<open>auto intro!: system_ok_goto [OF ok]\<close>)

lemma system_new_ok: "system_ok (RoundUpPowerOfTwo queue_size) (system_new queue_size)"
proof -
  let ?N = "RoundUpPowerOfTwo queue_size" and ?s = "system_new queue_size :: 'a system"
  have q: "queue_ok ?N (queue ?s)"
    using RoundUpPowerOfTwo_ok [of queue_size] by (auto simp: queue_ok_def system_new_def TaskQueue_new_def Let_def)
  have "cell_at p (queue ?s) = \<lparr>sequence = p mod ?N, storage = None\<rparr>" for p
    using queue_ok_slot [OF q, of p] by (simp add: cell_at_def) (simp add: system_new_def TaskQueue_new_def Let_def)
  then have "sq ?s p = p mod ?N" for p by simp
  moreover have "p mod ?N < ?N" for p using RoundUpPowerOfTwo_ok(3) [of queue_size] by simp
  ultimately show ?thesis using q
    by (simp add: system_ok_def positions_ok_def owners_ok_def full_ok_def free_ok_def cells_ok_def history_ok_def)
      (simp add: system_new_def TaskQueue_new_def Let_def)
qed

lemma reachable_ok: "reachable queue_size s \<Longrightarrow> system_ok (RoundUpPowerOfTwo queue_size) s"
  by (induction rule: reachable.induct) (auto intro: system_new_ok thread_step_ok)

section \<open>The queue as a bounded list\<close>

text \<open>A queue that no thread is working on, and the tasks in it.\<close>

definition queue_inv :: "nat \<Rightarrow> 'a task_queue \<Rightarrow> bool" where
  "queue_inv N q \<longleftrightarrow> queue_ok N q \<and> dequeue_pos q \<le> enqueue_pos q \<and> enqueue_pos q \<le> dequeue_pos q + N \<and>
     (\<forall>p. dequeue_pos q \<le> p \<longrightarrow> p < enqueue_pos q \<longrightarrow> sequence (cell_at p q) = Suc p \<and> storage (cell_at p q) \<noteq> None) \<and>
     (\<forall>p. enqueue_pos q \<le> p \<longrightarrow> p < dequeue_pos q + N \<longrightarrow> sequence (cell_at p q) = p)"

definition queue_items :: "'a task_queue \<Rightarrow> 'a list" where
  "queue_items q = map (\<lambda>p. the (storage (cell_at p q))) [dequeue_pos q..<enqueue_pos q]"

lemma mod_window:
  assumes "(p :: nat) mod N = p' mod N" "a \<le> p" "p < a + N" "a \<le> p'" "p' < a + N"
  shows "p = p'"
proof -
  have "x = y" if "x mod N = y mod N" "a \<le> x" "x \<le> y" "y < a + N" for x y
  proof -
    have "N dvd y - x" using that(1,3) mod_eq_dvd_iff_nat [of x y N] by simp
    moreover have "y - x < N" using that(2-4) by simp
    ultimately have "y - x = 0" by (metis dvd_imp_le neq0_conv not_le)
    then show ?thesis using that(3) by simp
  qed
  then show ?thesis using assms by (metis nat_le_linear)
qed

lemma TryEnqueue_refines:
  assumes inv: "queue_inv N q"
  shows "length (queue_items q) < N \<Longrightarrow> \<exists>q'. TryEnqueue x q = Some (True, q') \<and> queue_inv N q' \<and> queue_items q' = queue_items q @ [x]"
    "length (queue_items q) = N \<Longrightarrow> TryEnqueue x q = Some (False, q)" "length (queue_items q) \<le> N"
proof -
  let ?d = "dequeue_pos q" and ?e = "enqueue_pos q"
  have q: "queue_ok N q" "?d \<le> ?e" "?e \<le> ?d + N" using inv by (auto simp: queue_inv_def)
  show "length (queue_items q) \<le> N" using q(3) by (simp add: queue_items_def)
  show "\<exists>q'. TryEnqueue x q = Some (True, q') \<and> queue_inv N q' \<and> queue_items q' = queue_items q @ [x]" if "length (queue_items q) < N"
  proof -
    let ?q = "set_cell ?e (\<lambda>_. \<lparr>sequence = Suc ?e, storage = Some x\<rparr>) (q\<lparr>enqueue_pos := Suc ?e\<rparr>)"
    have lt: "?e < ?d + N" using that q(2) by (simp add: queue_items_def)
    have c: "cell_at p ?q = (if p mod N = ?e mod N then \<lparr>sequence = Suc ?e, storage = Some x\<rparr> else cell_at p q)" for p
      using cell_at_set_cell [of N "q\<lparr>enqueue_pos := Suc ?e\<rparr>" p ?e] q(1) by simp
    have m: "p mod N \<noteq> ?e mod N" if "?d \<le> p" "p < ?d + N" "p \<noteq> ?e" for p using mod_window [of p N ?e ?d] that lt q(2) by auto
    have "queue_inv N ?q" using inv q lt m by (auto simp: queue_inv_def c less_Suc_eq)
    moreover have "queue_items ?q = queue_items q @ [x]"
      using q(2) lt m by (auto simp: queue_items_def c)
    moreover have "TryEnqueue x q = Some (True, ?q)" using inv lt by (simp add: TryEnqueue_def queue_inv_def Let_def)
    ultimately show ?thesis by blast
  qed
  show "TryEnqueue x q = Some (False, q)" if "length (queue_items q) = N"
  proof -
    have e: "?e = ?d + N" "?d < ?e" using that q inv by (auto simp: queue_items_def queue_ok_def)
    then have "cell_at ?e q = cell_at ?d q" using cell_at_cong [OF q(1), of ?e ?d] by simp
    then have "sequence (cell_at ?e q) = Suc ?d" using inv e by (simp add: queue_inv_def)
    then show ?thesis using e q(1) by (simp add: TryEnqueue_def queue_ok_def)
  qed
qed

lemma TryDequeue_refines:
  assumes inv: "queue_inv N q"
  shows "queue_items q = x # xs \<Longrightarrow> \<exists>q'. TryDequeue q = Some (Some x, q') \<and> queue_inv N q' \<and> queue_items q' = xs"
    "queue_items q = [] \<Longrightarrow> TryDequeue q = Some (None, q)" "TaskQueue_Empty q \<longleftrightarrow> queue_items q = []"
proof -
  let ?d = "dequeue_pos q" and ?e = "enqueue_pos q"
  have q: "queue_ok N q" "?d \<le> ?e" "?e \<le> ?d + N" "2 \<le> N" using inv by (auto simp: queue_inv_def queue_ok_def)
  have emp: "sequence (cell_at ?d q) = ?d" if "queue_items q = []" using inv that q(2,4) by (auto simp: queue_inv_def queue_items_def)
  have ne: "sequence (cell_at ?d q) = Suc ?d" "storage (cell_at ?d q) = Some (hd (queue_items q))" "?d < ?e" if "queue_items q \<noteq> []"
  proof -
    show lt: "?d < ?e" using that by (auto simp: queue_items_def)
    then show "sequence (cell_at ?d q) = Suc ?d" "storage (cell_at ?d q) = Some (hd (queue_items q))"
      using inv by (auto simp: queue_inv_def queue_items_def upt_conv_Cons)
  qed
  show "TaskQueue_Empty q \<longleftrightarrow> queue_items q = []" using emp ne(1) by (cases "queue_items q = []") (auto simp: TaskQueue_Empty_def)
  show "TryDequeue q = Some (None, q)" if "queue_items q = []" using emp [OF that] by (simp add: TryDequeue_def)
  show "\<exists>q'. TryDequeue q = Some (Some x, q') \<and> queue_inv N q' \<and> queue_items q' = xs" if it: "queue_items q = x # xs"
  proof -
    let ?q = "set_cell ?d (\<lambda>_. \<lparr>sequence = ?d + N, storage = None\<rparr>) (q\<lparr>dequeue_pos := Suc ?d\<rparr>)"
    have n: "sequence (cell_at ?d q) = Suc ?d" "storage (cell_at ?d q) = Some x" "?d < ?e" using ne it by auto
    have c: "cell_at p ?q = (if p mod N = ?d mod N then \<lparr>sequence = ?d + N, storage = None\<rparr> else cell_at p q)" for p
      using cell_at_set_cell [of N "q\<lparr>dequeue_pos := Suc ?d\<rparr>" p ?d] q(1) by simp
    have m: "p mod N \<noteq> ?d mod N" if "?d < p" "p < ?d + N" for p using mod_window [of p N ?d ?d] that by auto
    have "queue_inv N ?q"
      unfolding queue_inv_def
    proof (intro conjI allI impI)
      fix p assume "enqueue_pos ?q \<le> p" "p < dequeue_pos ?q + N"
      then show "sequence (cell_at p ?q) = p"
        using inv m [of p] n(3) by (cases "p = ?d + N") (auto simp: c queue_inv_def)
    qed (use inv q n m in \<open>auto simp: c queue_inv_def\<close>)
    moreover have "queue_items ?q = xs"
    proof -
      have "map (\<lambda>p. the (storage (cell_at p q))) [Suc ?d..<?e] = xs" using it n(3) by (simp add: queue_items_def upt_conv_Cons)
      moreover have "the (storage (cell_at p ?q)) = the (storage (cell_at p q))" if "p \<in> set [Suc ?d..<?e]" for p
        using m [of p] that q(3) by (auto simp: c)
      ultimately have "map (\<lambda>p. the (storage (cell_at p ?q))) [Suc ?d..<?e] = xs" by (metis (no_types, lifting) map_cong)
      then show ?thesis by (simp add: queue_items_def)
    qed
    moreover have "TryDequeue q = Some (Some x, ?q)" using n q by (simp add: TryDequeue_def queue_ok_def Let_def)
    ultimately show ?thesis by blast
  qed
qed

text \<open>\<open>ProcessTasks\<close> runs the queued tasks in order, if they leave the queue alone.\<close>

lemma ProcessTasks_runs:
  assumes "queue_inv N q" "length (queue_items q) < n" "\<And>x q s. exec x (q, s) = (q, run x s)"
  shows "\<exists>q'. ProcessTasks n exec (q, s) = Some (q', fold run (queue_items q) s) \<and> queue_inv N q' \<and> queue_items q' = []"
  using assms(1,2)
proof (induction n arbitrary: q s)
  case (Suc n)
  show ?case
  proof (cases "queue_items q")
    case Nil
    then show ?thesis using TryDequeue_refines(2) [OF Suc.prems(1)] Suc.prems(1) by simp
  next
    case (Cons x xs)
    obtain q' where q': "TryDequeue q = Some (Some x, q')" "queue_inv N q'" "queue_items q' = xs"
      using TryDequeue_refines(1) [OF Suc.prems(1) Cons] by blast
    then show ?thesis using Suc.IH [OF q'(2), of "run x s"] Suc.prems(2) Cons assms(3) by simp
  qed
qed simp

definition quiescent :: "'a system \<Rightarrow> bool" where
  "quiescent s \<longleftrightarrow> (\<forall>t. pcs s t = Outside)"

lemma quiescent_items:
  assumes ok: "system_ok N s" and qu: "quiescent s"
  shows "queue_inv N (queue s)" "queue_items (queue s) = drop (dequeue_pos (queue s)) (accepted s)"
proof -
  let ?d = "dequeue_pos (queue s)" and ?e = "enqueue_pos (queue s)"
  note D = system_okD [OF ok]
  have w: "\<not> writes (pcs s t) p" "\<not> moves (pcs s t) p" for t p using qu by (simp_all add: quiescent_def)
  have f: "sq s p = Suc p \<and> sto s p = Some (accepted s ! p)" if "?d \<le> p" "p < ?e" for p
    using D(5) that w unfolding full_ok_def by blast
  have len: "?d \<le> ?e" "?e \<le> ?d + N" "?e = length (accepted s)" using D(2) by (auto simp: positions_ok_def)
  show "queue_inv N (queue s)" using D(1,6) f len w by (auto simp: queue_inv_def free_ok_def)
  show "queue_items (queue s) = drop ?d (accepted s)"
    by (rule nth_equalityI) (use f len in \<open>auto simp: queue_items_def\<close>)
qed

section \<open>Consumers and producers\<close>

text \<open>
  \<open>Run\<close>, \<open>Add\<close> and \<open>Await\<close> work on a queue that other threads change meanwhile, so what they
  observe is given: \<open>closed i\<close> is the \<open>i\<close>-th reading of \<open>is_closed\<close>, \<open>deq j\<close> the result of the
  \<open>j\<close>-th \<open>TryDequeue\<close> and \<open>enq i\<close> that of the \<open>i\<close>-th \<open>TryEnqueue\<close>.  The outcome of \<open>Run\<close> is the
  number of dequeues and the tasks that were executed, in order; loops are bounded by the first
  argument and \<open>None\<close> says that the bound was reached.
\<close>

definition kMaxBatch :: nat where "kMaxBatch = 256"

primrec run_batch :: "nat \<Rightarrow> (nat \<Rightarrow> 'a option) \<Rightarrow> nat \<Rightarrow> 'a list \<Rightarrow> nat \<times> 'a list" where
  "run_batch 0 deq j done_tasks = (j, done_tasks)"
| "run_batch (Suc n) deq j done_tasks =
     (case deq j of None \<Rightarrow> (Suc j, done_tasks) | Some func \<Rightarrow> run_batch n deq (Suc j) (done_tasks @ [func]))"

text \<open>The idle phase: yield or wait until there is a task or the queue is closed.\<close>

primrec run_idle :: "nat \<Rightarrow> (nat \<Rightarrow> bool) \<Rightarrow> (nat \<Rightarrow> 'a option) \<Rightarrow> nat \<Rightarrow> nat \<Rightarrow> ('a option \<times> nat \<times> nat) option" where
  "run_idle 0 closed deq i j = None"
| "run_idle (Suc n) closed deq i j =
     (if closed i then Some (None, Suc i, j)
      else case deq j of Some func \<Rightarrow> Some (Some func, Suc i, Suc j) | None \<Rightarrow> run_idle n closed deq (Suc i) (Suc j))"

primrec run_drain :: "nat \<Rightarrow> (nat \<Rightarrow> 'a option) \<Rightarrow> nat \<Rightarrow> 'a list \<Rightarrow> (nat \<times> 'a list) option" where
  "run_drain 0 deq j done_tasks = None"
| "run_drain (Suc n) deq j done_tasks =
     (case deq j of None \<Rightarrow> Some (Suc j, done_tasks) | Some func \<Rightarrow> run_drain n deq (Suc j) (done_tasks @ [func]))"

primrec Run :: "nat \<Rightarrow> (nat \<Rightarrow> bool) \<Rightarrow> (nat \<Rightarrow> 'a option) \<Rightarrow> nat \<Rightarrow> nat \<Rightarrow> 'a list \<Rightarrow> (nat \<times> 'a list) option" where
  "Run 0 closed deq i j done_tasks = None"
| "Run (Suc n) closed deq i j done_tasks =
     (if closed i then run_drain n deq j done_tasks
      else
        let (j, processed) = run_batch kMaxBatch deq j []; done_tasks = done_tasks @ processed
        in if processed \<noteq> [] then Run n closed deq (Suc i) j done_tasks
           else case run_idle n closed deq (Suc i) j of
                  None \<Rightarrow> None
                | Some (func, i, j) \<Rightarrow>
                    if closed i then Run n closed deq (Suc i) j done_tasks
                    else case func of None \<Rightarrow> None | Some func \<Rightarrow> Run n closed deq (Suc i) j (done_tasks @ [func]))"

record wakeups =
  idler :: nat
  wake_pending :: bool
  pull_sem :: nat

definition TryAdd :: "bool \<Rightarrow> wakeups \<Rightarrow> bool \<times> wakeups" where
  "TryAdd enqueued wk =
     (if enqueued then
        (True, if idler wk \<noteq> 0 then (if wake_pending wk then wk else wk\<lparr>wake_pending := True, pull_sem := pull_sem wk + 1\<rparr>) else wk)
      else (False, wk))"

primrec Add_loop :: "nat \<Rightarrow> (nat \<Rightarrow> bool) \<Rightarrow> (nat \<Rightarrow> bool) \<Rightarrow> nat \<Rightarrow> bool option" where
  "Add_loop 0 closed enq i = None"
| "Add_loop (Suc n) closed enq i =
     (if closed i then Some False else if enq (Suc i) then Some True else Add_loop n closed enq (Suc i))"

definition Add :: "nat \<Rightarrow> (nat \<Rightarrow> bool) \<Rightarrow> (nat \<Rightarrow> bool) \<Rightarrow> bool option" where
  "Add n closed enq = (if enq 0 then Some True else Add_loop n closed enq 0)"

text \<open>
  \<open>Await\<close>: \<open>outcome\<close> is the result, or the exception to throw again, that the task leaves when a
  consumer executes it, and \<open>None\<close> if none ever does.  The semaphore is signalled by the task only.
\<close>

definition TaskQueue_Await :: "nat \<Rightarrow> (nat \<Rightarrow> bool) \<Rightarrow> (nat \<Rightarrow> bool) \<Rightarrow> (fault + 'r) option \<Rightarrow> (fault + 'r) option" where
  "TaskQueue_Await n closed enq outcome =
     (case Add n closed enq of None \<Rightarrow> None | Some added \<Rightarrow> if added then outcome else None)"

definition tasks_between :: "(nat \<Rightarrow> 'a option) \<Rightarrow> nat \<Rightarrow> nat \<Rightarrow> 'a list" where
  "tasks_between deq a b = List.map_filter deq [a..<b]"

lemma tasks_between_simps:
  "tasks_between deq a a = []"
  "a < b \<Longrightarrow> tasks_between deq a b = (case deq a of None \<Rightarrow> [] | Some x \<Rightarrow> [x]) @ tasks_between deq (Suc a) b"
  "a \<le> b \<Longrightarrow> b \<le> c \<Longrightarrow> tasks_between deq a c = tasks_between deq a b @ tasks_between deq b c"
proof -
  show "tasks_between deq a a = []" by (simp add: tasks_between_def map_filter_simps)
  show "tasks_between deq a b = (case deq a of None \<Rightarrow> [] | Some x \<Rightarrow> [x]) @ tasks_between deq (Suc a) b" if "a < b"
    using that by (simp add: tasks_between_def upt_conv_Cons map_filter_simps split: option.splits)
  show "tasks_between deq a c = tasks_between deq a b @ tasks_between deq b c" if ab: "a \<le> b" and bc: "b \<le> c"
  proof -
    obtain k where "c = b + k" using bc le_Suc_ex by blast
    then have "[a..<c] = [a..<b] @ [b..<c]" using upt_add_eq_append [OF ab, of k] by simp
    then show ?thesis by (simp add: tasks_between_def map_filter_def)
  qed
qed

lemma run_batch_tasks: "run_batch n deq j ex = (j', ex') \<Longrightarrow> j \<le> j' \<and> ex' = ex @ tasks_between deq j j'"
proof (induction n arbitrary: j ex)
  case (Suc n)
  show ?case
  proof (cases "deq j")
    case None
    with Suc.prems show ?thesis by (auto simp: tasks_between_simps)
  next
    case (Some f)
    then have "Suc j \<le> j' \<and> ex' = (ex @ [f]) @ tasks_between deq (Suc j) j'"
      using Suc.IH [of "Suc j" "ex @ [f]"] Suc.prems by simp
    then show ?thesis using tasks_between_simps(2) [of j j' deq] Some by auto
  qed
qed (simp add: tasks_between_simps)

lemma run_drain_tasks: "run_drain n deq j ex = Some (j', ex') \<Longrightarrow> j \<le> j' \<and> ex' = ex @ tasks_between deq j j'"
proof (induction n arbitrary: j ex)
  case (Suc n)
  show ?case
  proof (cases "deq j")
    case None
    with Suc.prems show ?thesis by (auto simp: tasks_between_simps)
  next
    case (Some f)
    then have "Suc j \<le> j' \<and> ex' = (ex @ [f]) @ tasks_between deq (Suc j) j'"
      using Suc.IH [of "Suc j" "ex @ [f]"] Suc.prems by simp
    then show ?thesis using tasks_between_simps(2) [of j j' deq] Some by auto
  qed
qed simp

lemma run_idle_tasks: "run_idle n closed deq i j = Some (f, i', j') \<Longrightarrow>
    j \<le> j' \<and> tasks_between deq j j' = (case f of None \<Rightarrow> [] | Some x \<Rightarrow> [x]) \<and> (f = None \<longrightarrow> closed (i' - 1)) \<and> i < i' \<and>
    (\<forall>x. f = Some x \<longrightarrow> j < j' \<and> deq (j' - 1) = Some x \<and> tasks_between deq j (j' - 1) = [])"
proof (induction n arbitrary: i j)
  case (Suc n)
  show ?case
  proof (cases "closed i \<or> deq j \<noteq> None")
    case True
    then show ?thesis using Suc.prems by (auto simp: tasks_between_simps split: if_splits option.splits)
  next
    case False
    then have r: "run_idle n closed deq (Suc i) (Suc j) = Some (f, i', j')" using Suc.prems by simp
    note IH = Suc.IH [OF r]
    then show ?thesis using tasks_between_simps(2) [of j j' deq] tasks_between_simps(2) [of j "j' - 1" deq] False by auto
  qed
qed simp

text \<open>
  A consumer executes everything it takes from the queue, in order, with one exception: a task
  that it takes in the idle phase just before it sees the queue closed is dropped.
\<close>

lemma Run_tasks:
  assumes mono: "\<And>i i'. closed i \<Longrightarrow> i \<le> i' \<Longrightarrow> closed i'"
  shows "Run n closed deq i j ex = Some (j', ex') \<Longrightarrow> j \<le> j' \<and>
    (ex' = ex @ tasks_between deq j j' \<or>
     (\<exists>m. j \<le> m \<and> m < j' \<and> deq m \<noteq> None \<and> ex' = ex @ tasks_between deq j m @ tasks_between deq (Suc m) j'))"
proof (induction n arbitrary: i j ex)
  case (Suc n)
  show ?case
  proof (cases "closed i")
    case True
    then show ?thesis using Suc.prems run_drain_tasks by fastforce
  next
    case False
    obtain j1 ex1 where b: "run_batch kMaxBatch deq j [] = (j1, ex1)" by force
    note B = run_batch_tasks [OF b]
    show ?thesis
    proof (cases "ex1 = []")
      case False
      then have "Run n closed deq (Suc i) j1 (ex @ ex1) = Some (j', ex')" using Suc.prems b \<open>\<not> closed i\<close> by simp
      from Suc.IH [OF this] show ?thesis
      proof (elim conjE disjE exE, goal_cases)
        case 1
        then show ?case using B tasks_between_simps(3) [of j j1 j' deq] by auto
      next
        case (2 m)
        then show ?case using B tasks_between_simps(3) [of j j1 m deq] by (intro conjI disjI2 exI [of _ m]) auto
      qed
    next
      case True
      then obtain f i2 j2 where r: "run_idle n closed deq (Suc i) j1 = Some (f, i2, j2)"
        using Suc.prems b \<open>\<not> closed i\<close> by (cases "run_idle n closed deq (Suc i) j1") auto
      note I = run_idle_tasks [OF r]
      have e: "tasks_between deq j j1 = []" "j \<le> j1" using B True by auto
      show ?thesis
      proof (cases "closed i2")
        case closed: True
        then obtain n' where n': "n = Suc n'" using Suc.prems b True r \<open>\<not> closed i\<close> by (cases n) auto
        have "run_drain n' deq j2 ex = Some (j', ex')"
          using Suc.prems b True r \<open>\<not> closed i\<close> closed n' mono [OF closed, of "Suc i2"] by simp
        then have d: "j2 \<le> j'" "ex' = ex @ tasks_between deq j2 j'" using run_drain_tasks by blast+
        show ?thesis
        proof (cases f)
          case None
          then show ?thesis using d e I tasks_between_simps(3) [of j j1 j' deq] tasks_between_simps(3) [of j1 j2 j' deq] by auto
        next
          case (Some x)
          then have m: "j1 \<le> j2 - 1" "j2 - 1 < j'" "deq (j2 - 1) \<noteq> None" "tasks_between deq j (j2 - 1) = []" "Suc (j2 - 1) = j2"
            using I d(1) e tasks_between_simps(3) [of j j1 "j2 - 1" deq] by auto
          then show ?thesis using d e(2) by (intro conjI disjI2 exI [of _ "j2 - 1"]) auto
        qed
      next
        case open_: False
        then obtain x where f: "f = Some x" "Run n closed deq (Suc i2) j2 (ex @ [x]) = Some (j', ex')"
          using Suc.prems b True r \<open>\<not> closed i\<close> by (auto split: option.splits)
        have t: "tasks_between deq j j2 = [x]" "j \<le> j2" using I e f(1) tasks_between_simps(3) [of j j1 j2 deq] by auto
        from Suc.IH [OF f(2)] show ?thesis
        proof (elim conjE disjE exE, goal_cases)
          case 1
          then show ?case using t tasks_between_simps(3) [of j j2 j' deq] by auto
        next
          case (2 m)
          then show ?case using t tasks_between_simps(3) [of j j2 m deq] by (intro conjI disjI2 exI [of _ m]) auto
        qed
      qed
    qed
  qed
qed simp

lemma Run_drops_a_task:
  "Run 5 (\<lambda>i. 2 \<le> i) (\<lambda>j. if j = 1 then Some (7 :: nat) else None) 0 0 [] = Some (3, [])"
  by (simp add: kMaxBatch_def numeral_eq_Suc)

text \<open>\<open>Await\<close> on a queue that is full and closed never returns.\<close>

lemma Await_on_closed_queue: "\<not> enq 0 \<Longrightarrow> closed 0 \<Longrightarrow> TaskQueue_Await n closed enq outcome = None"
  by (cases n) (simp_all add: TaskQueue_Await_def Add_def)

section \<open>Properties\<close>

text \<open>
  C37: whatever the interleaving of its producers and consumers, the queue never holds more than
  its capacity, and a consumer that claimed position \<open>p\<close> receives the task that was accepted as
  the \<open>p\<close>-th one: tasks are handed out in the order of acceptance, none twice, none torn or made
  up.  Whenever no operation is under way the queue is the list of the accepted tasks that have not
  been handed out: \<open>TryDequeue\<close> takes the first and fails exactly if there is none, and
  \<open>TryEnqueue\<close> adds one and fails exactly if the queue is full.
\<close>

theorem task_queue_fifo:
  assumes "reachable queue_size s"
  shows "dequeue_pos (queue s) \<le> length (accepted s) \<and> length (accepted s) \<le> dequeue_pos (queue s) + RoundUpPowerOfTwo queue_size \<and>
    distinct (map fst (delivered s)) \<and>
    (\<forall>(p, v) \<in> set (delivered s). p < dequeue_pos (queue s) \<and> v = Some (accepted s ! p)) \<and>
    (quiescent s \<longrightarrow>
       queue_items (queue s) = drop (dequeue_pos (queue s)) (accepted s) \<and>
       (\<exists>q. TryDequeue (queue s) = (case drop (dequeue_pos (queue s)) (accepted s) of [] \<Rightarrow> Some (None, queue s) | x # xs \<Rightarrow> Some (Some x, q))) \<and>
       (\<forall>x. \<exists>q. TryEnqueue x (queue s) =
          (if length (accepted s) < dequeue_pos (queue s) + RoundUpPowerOfTwo queue_size then Some (True, q) else Some (False, queue s))))"
proof -
  let ?N = "RoundUpPowerOfTwo queue_size"
  note ok = reachable_ok [OF assms]
  note D = system_okD [OF ok]
  have pos: "dequeue_pos (queue s) \<le> length (accepted s)" "length (accepted s) \<le> dequeue_pos (queue s) + ?N"
    using D(2) by (auto simp: positions_ok_def)
  have "queue_items (queue s) = drop (dequeue_pos (queue s)) (accepted s) \<and>
      (\<exists>q. TryDequeue (queue s) = (case drop (dequeue_pos (queue s)) (accepted s) of [] \<Rightarrow> Some (None, queue s) | x # xs \<Rightarrow> Some (Some x, q))) \<and>
      (\<forall>x. \<exists>q. TryEnqueue x (queue s) =
          (if length (accepted s) < dequeue_pos (queue s) + ?N then Some (True, q) else Some (False, queue s)))" if qu: "quiescent s"
  proof (intro conjI allI)
    note Q = quiescent_items [OF ok qu]
    show it: "queue_items (queue s) = drop (dequeue_pos (queue s)) (accepted s)" by (rule Q(2))
    show "\<exists>q. TryDequeue (queue s) = (case drop (dequeue_pos (queue s)) (accepted s) of [] \<Rightarrow> Some (None, queue s) | x # xs \<Rightarrow> Some (Some x, q))"
      using TryDequeue_refines(1,2) [OF Q(1)] unfolding it by (cases "drop (dequeue_pos (queue s)) (accepted s)") auto
    fix x
    have "length (queue_items (queue s)) < ?N \<longleftrightarrow> length (accepted s) < dequeue_pos (queue s) + ?N"
      "length (queue_items (queue s)) = ?N \<longleftrightarrow> \<not> length (accepted s) < dequeue_pos (queue s) + ?N"
      unfolding it length_drop using pos by linarith+
    then show "\<exists>q. TryEnqueue x (queue s) =
          (if length (accepted s) < dequeue_pos (queue s) + ?N then Some (True, q) else Some (False, queue s))"
      using TryEnqueue_refines(1,2) [OF Q(1), of x] by auto
  qed
  then show ?thesis using pos D(8) unfolding history_ok_def by blast
qed

text \<open>One thread puts a task into a queue of two cells and another takes it.\<close>

lemma reachable_example:
  "\<exists>s :: nat system. reachable 2 s \<and> accepted s = [7] \<and> delivered s = [(0, Some 7)] \<and> dequeue_pos (queue s) = 1"
proof -
  have cap: "RoundUpPowerOfTwo 2 = 2" by code_simp
  note defs = system_new_def TaskQueue_new_def cap Let_def cell_at_def set_cell_def slot_def
  note r0 = reachable.start [of 2, where 'a = nat, unfolded defs]
  note r1 = reachable.step [OF r0 thread_step.call_enqueue [where t = 0 and x = 7], simplified, unfolded goto_def, simplified]
  note r2 = reachable.step [OF r1 thread_step.enq_load [where t = 0 and x = 7], simplified, unfolded goto_def, simplified]
  note r3 = reachable.step [OF r2 thread_step.enq_seq [where t = 0 and x = 7 and pos = 0 and dif = 0], simplified, unfolded goto_def defs, simplified]
  note r4 = reachable.step [OF r3 thread_step.enq_cas [where t = 0 and x = 7 and pos = 0], simplified, unfolded goto_def, simplified]
  note r5 = reachable.step [OF r4 thread_step.enq_construct [where t = 0 and x = 7 and pos = 0], simplified, unfolded goto_def defs, simplified]
  note r6 = reachable.step [OF r5 thread_step.enq_publish [where t = 0 and pos = 0], simplified, unfolded goto_def defs, simplified]
  note r7 = reachable.step [OF r6 thread_step.call_dequeue [where t = 1], simplified, unfolded goto_def, simplified]
  note r8 = reachable.step [OF r7 thread_step.deq_load [where t = 1], simplified, unfolded goto_def, simplified]
  note r9 = reachable.step [OF r8 thread_step.deq_seq [where t = 1 and pos = 0 and dif = 0], simplified, unfolded goto_def defs, simplified]
  note r10 = reachable.step [OF r9 thread_step.deq_cas [where t = 1 and pos = 0], simplified, unfolded goto_def, simplified]
  note r11 = reachable.step [OF r10 thread_step.deq_move [where t = 1 and pos = 0 and x = 7], simplified, unfolded goto_def defs, simplified]
  show ?thesis by (intro exI conjI, rule r11) simp_all
qed

theorem task_queue_fifo_witness:
  "\<exists>s :: nat system. reachable 2 s \<and> delivered s = [(0, Some 7)] \<and> accepted s ! 0 = 7 \<and> length (accepted s) \<le> dequeue_pos (queue s) + RoundUpPowerOfTwo 2"
proof -
  obtain s :: "nat system" where s: "reachable 2 s" "accepted s = [7]" "delivered s = [(0, Some 7)]" using reachable_example by blast
  then show ?thesis using task_queue_fifo [OF s(1)] by (intro exI [of _ s]) simp
qed

end
