(* ===== verification/Command_Registry.thy ===== *)
theory Command_Registry
  imports Nano_Obj Resp_Protocol "HOL-Library.List_Lexorder" "HOL-Library.Char_ord"
begin

unbundle bit_operations_syntax

text \<open>
  The table of commands: \<open>src/command/command_registry.cc\<close> and
  \<open>include/command/command_registry.h\<close>.

  The three hash maps are used as finite maps whose keys are compared without regard to case; they
  are association lists here, with one entry per key.  That the hash function respects the
  comparison, which such a map relies on, is \<open>CaseInsensitive_hash_eq\<close>.  A handler works on a
  state \<open>'s\<close>; it also gets the table of command descriptions, because the handler of
  \<open>COMMAND\<close> keeps a pointer to the registry.
\<close>

section \<open>Descriptions of commands\<close>

definition kCmdFlagReadOnly :: "32 word" where "kCmdFlagReadOnly = push_bit 0 1"
definition kCmdFlagWrite :: "32 word" where "kCmdFlagWrite = push_bit 1 1"
definition kCmdFlagAdmin :: "32 word" where "kCmdFlagAdmin = push_bit 2 1"
definition kCmdFlagMultiKey :: "32 word" where "kCmdFlagMultiKey = push_bit 3 1"
definition kCmdFlagNoKey :: "32 word" where "kCmdFlagNoKey = push_bit 4 1"

named_theorems flag_defs "flags of commands"

declare kCmdFlagReadOnly_def [flag_defs] kCmdFlagWrite_def [flag_defs] kCmdFlagAdmin_def [flag_defs]
  kCmdFlagMultiKey_def [flag_defs] kCmdFlagNoKey_def [flag_defs]

record command_meta =
  arity :: int
  first_key :: int
  last_key :: int
  key_step :: int
  flags :: "32 word"

definition CommandMeta_default :: command_meta where
  "CommandMeta_default = \<lparr>arity = 0, first_key = 0, last_key = 0, key_step = 0, flags = 0\<rparr>"

section \<open>Names\<close>

definition CaseInsensitiveHash :: "string \<Rightarrow> 64 word" where
  "CaseInsensitiveHash s = fold (\<lambda>c h. (h XOR of_char (ToUpperAscii c)) * 1099511628211) s 14695981039346656037"

definition CaseInsensitiveEq :: "string \<Rightarrow> string \<Rightarrow> bool" where
  "CaseInsensitiveEq a b \<longleftrightarrow> length a = length b \<and> list_all2 (\<lambda>ca cb. ToUpperAscii ca = ToUpperAscii cb) a b"

type_synonym 'v ci_map = "(string \<times> 'v) list"

primrec ci_find :: "string \<Rightarrow> 'v ci_map \<Rightarrow> 'v option" where
  "ci_find name [] = None"
| "ci_find name (p # ps) = (if CaseInsensitiveEq (fst p) name then Some (snd p) else ci_find name ps)"

text \<open>\<open>m[name] = v\<close>: an existing key keeps its spelling.\<close>

primrec ci_put :: "string \<Rightarrow> 'v \<Rightarrow> 'v ci_map \<Rightarrow> 'v ci_map" where
  "ci_put name v [] = [(name, v)]"
| "ci_put name v (p # ps) = (if CaseInsensitiveEq (fst p) name then (fst p, v) # ps else p # ci_put name v ps)"

section \<open>The registry\<close>

type_synonym meta_table = "command_meta ci_map"

type_synonym 's command_handler = "meta_table \<Rightarrow> nano_obj list \<Rightarrow> 's \<Rightarrow> (string \<times> 's) result"

record 's command_registry =
  handlers :: "(nano_obj list \<Rightarrow> string) ci_map"
  handlers_with_context :: "'s command_handler ci_map"
  command_metas :: meta_table

definition CommandRegistry_new :: "'s command_registry" where
  "CommandRegistry_new = \<lparr>handlers = [], handlers_with_context = [], command_metas = []\<rparr>"

definition RegisterCommand :: "string \<Rightarrow> (nano_obj list \<Rightarrow> string) \<Rightarrow> command_meta \<Rightarrow> 's command_registry \<Rightarrow> 's command_registry" where
  "RegisterCommand name h meta reg =
     reg\<lparr>handlers := ci_put name h (handlers reg), command_metas := ci_put name meta (command_metas reg)\<rparr>"

definition RegisterCommandWithContext :: "string \<Rightarrow> 's command_handler \<Rightarrow> command_meta \<Rightarrow> 's command_registry \<Rightarrow> 's command_registry" where
  "RegisterCommandWithContext name h meta reg =
     reg\<lparr>handlers_with_context := ci_put name h (handlers_with_context reg), command_metas := ci_put name meta (command_metas reg)\<rparr>"

text \<open>The name a command is looked up by: the fallback is for objects that are not strings.\<close>

definition command_name :: "nano_obj \<Rightarrow> string" where
  "command_name cmd_obj = (if GetStringView cmd_obj = [] then ToString cmd_obj else GetStringView cmd_obj)"

definition Execute :: "'s command_registry \<Rightarrow> nano_obj list \<Rightarrow> 's \<Rightarrow> (string \<times> 's) result" where
  "Execute reg args s =
     (if args = [] then Inr (''-ERR Empty command'' @ CRLF, s)
      else
        let cmd = command_name (args ! 0)
        in case ci_find cmd (handlers_with_context reg) of
             Some h \<Rightarrow> h (command_metas reg) args s
           | None \<Rightarrow>
               (case ci_find cmd (handlers reg) of
                  Some h \<Rightarrow> Inr (h args, s)
                | None \<Rightarrow> Inr (''-ERR Unknown command '' @ [char_of (39 :: nat)] @ cmd @ [char_of (39 :: nat)] @ CRLF, s)))"

definition FindMeta :: "meta_table \<Rightarrow> string \<Rightarrow> command_meta option" where
  "FindMeta metas name = ci_find name metas"

definition BuildFlagStrings :: "command_meta \<Rightarrow> string list" where
  "BuildFlagStrings meta =
     (if flags meta AND kCmdFlagReadOnly \<noteq> 0 then [''readonly''] else []) @
     (if flags meta AND kCmdFlagWrite \<noteq> 0 then [''write''] else []) @
     (if flags meta AND kCmdFlagAdmin \<noteq> 0 then [''admin''] else []) @
     (if flags meta AND kCmdFlagMultiKey \<noteq> 0 then [''multikey''] else []) @
     (if flags meta AND kCmdFlagNoKey \<noteq> 0 then [''nokey''] else [])"

definition command_row :: "string \<Rightarrow> command_meta \<Rightarrow> string" where
  "command_row name meta =
     MakeArray 6 @ MakeBulkString name @ MakeInteger (arity meta) @
     MakeArray (int (length (BuildFlagStrings meta))) @ concat (map MakeBulkString (BuildFlagStrings meta)) @
     MakeInteger (first_key meta) @ MakeInteger (last_key meta) @ MakeInteger (key_step meta)"

text \<open>The rows are sorted by name; the comparison of strings is that of their bytes.\<close>

definition BuildCommandInfoResponse :: "meta_table \<Rightarrow> string" where
  "BuildCommandInfoResponse metas =
     (let rows = sort_key fst metas
      in MakeArray (int (length rows)) @ concat (map (\<lambda>(name, meta). command_row name meta) rows))"

section \<open>Lookup and registration\<close>

lemma CaseInsensitiveEq_iff: "CaseInsensitiveEq a b \<longleftrightarrow> map ToUpperAscii a = map ToUpperAscii b"
  by (auto simp: CaseInsensitiveEq_def list_all2_conv_all_nth list_eq_iff_nth_eq)

lemma CaseInsensitiveEq_Equals: "CaseInsensitiveEq a b \<longleftrightarrow> EqualsIgnoreCase a b"
  by (simp add: CaseInsensitiveEq_iff EqualsIgnoreCase_iff)

lemma CaseInsensitive_hash_eq:
  assumes "CaseInsensitiveEq a b"
  shows "CaseInsensitiveHash a = CaseInsensitiveHash b"
proof -
  have "fold (\<lambda>c h. (h XOR of_char (ToUpperAscii c)) * k) s h = fold (\<lambda>c h. (h XOR of_char c) * k) (map ToUpperAscii s) h"
    for s and h k :: "64 word" by (induction s arbitrary: h) simp_all
  then show ?thesis using assms by (simp add: CaseInsensitiveHash_def CaseInsensitiveEq_iff)
qed

lemma ci_find_put: "ci_find name (ci_put name' v ps) = (if CaseInsensitiveEq name' name then Some v else ci_find name ps)"
  by (induction ps) (auto simp: CaseInsensitiveEq_iff)

lemma ci_find_eq: "CaseInsensitiveEq name name' \<Longrightarrow> ci_find name ps = ci_find name' ps"
  by (induction ps) (auto simp: CaseInsensitiveEq_iff)

lemma ci_find_SomeD: "ci_find name ps = Some v \<Longrightarrow> \<exists>name'. (name', v) \<in> set ps \<and> CaseInsensitiveEq name' name"
  by (induction ps) (auto split: if_splits)

lemma ci_put_set: "(n, v) \<in> set (ci_put name v' ps) \<Longrightarrow> v = v' \<or> (n, v) \<in> set ps"
  by (induction ps) (auto split: if_splits)

text \<open>Dispatch does not depend on the case of the command's name.\<close>

lemma Execute_case:
  assumes "args \<noteq> []" "args' \<noteq> []" "CaseInsensitiveEq (command_name (args ! 0)) (command_name (args' ! 0))"
    "ci_find (command_name (args ! 0)) (handlers_with_context reg) = Some h"
  shows "Execute reg args s = h (command_metas reg) args s" "Execute reg args' s = h (command_metas reg) args' s"
  using assms ci_find_eq [OF assms(3), of "handlers_with_context reg"] by (simp_all add: Execute_def Let_def)

end
