(* ===== verification/Server_Family.thy ===== *)
theory Server_Family
  imports Command_Registry Persistence
begin

text \<open>
  The server commands: \<open>src/command/server_family.cc\<close>, and from \<open>src/server/proactor_pool.cc\<close>
  the list of connections of a thread and the pause of all clients.

  \<open>server\<close> adds to the \<open>world\<close> of the data commands what these commands work on: the flags of the
  process, the connections registered with each thread, the time until which clients are paused,
  the state of background saves and the disk.  \<open>server_env\<close> collects what they obtain from outside;
  \<open>errc_message\<close> is the text of a system error.  A command always has a context here, so the tests
  for a null context have no counterpart; a forwarded command has no connection.
\<close>

section \<open>State\<close>

record server_env =
  base_env :: env
  system_micros :: int
  steady_ns :: int
  kServerStartTime :: int
  process_id :: int
  errc_message :: "errc \<Rightarrow> string"
  header_ms :: nat
  snapshot_clock :: "nat \<Rightarrow> nat \<Rightarrow> nat \<Rightarrow> int"

record server =
  sv_world :: world
  FLAGS_port :: int
  FLAGS_num_shards :: int
  FLAGS_tcp_nodelay :: bool
  FLAGS_use_iouring_tcp_server :: bool
  FLAGS_photon_handler_stack_kb :: nat
  tlocal_connections :: "nat \<Rightarrow> nat list"
  g_pause_until_ms :: int
  bg_save_in_progress :: bool
  snapshot_epoch :: nat
  sv_disk :: disk
  bg_saves :: "(string \<times> nat) list"

type_synonym server_handler = "server_env \<Rightarrow> nano_obj list \<Rightarrow> server \<Rightarrow> (string \<times> server) result"

text \<open>The thread that executes a command.\<close>

definition this_thread :: "server \<Rightarrow> nat" where
  "this_thread sv = (case local_shard (ctx (sv_world sv)) of Some i \<Rightarrow> i | None \<Rightarrow> 0)"

definition set_conn :: "nat \<Rightarrow> connection \<Rightarrow> server \<Rightarrow> server" where
  "set_conn cid c sv = sv\<lparr>sv_world := (sv_world sv)\<lparr>conns := (conns (sv_world sv))(cid \<mapsto> c)\<rparr>\<rparr>"

definition this_connection :: "server \<Rightarrow> (nat \<times> connection) option" where
  "this_connection sv =
     (case connection_id (ctx (sv_world sv)) of
        None \<Rightarrow> None
      | Some cid \<Rightarrow> map_option (Pair cid) (conns (sv_world sv) cid))"

section \<open>Clients\<close>

record client_snapshot =
  snap_client_id :: nat
  snap_db_index :: nat
  snap_client_name :: string
  snap_last_command :: string
  age_sec :: int
  idle_sec :: int
  snap_close_requested :: bool

definition MakeCurrentSnapshot :: "int \<Rightarrow> connection \<Rightarrow> client_snapshot" where
  "MakeCurrentSnapshot now_ms c =
     \<lparr>snap_client_id = client_id c, snap_db_index = conn_db_index c, snap_client_name = client_name c,
      snap_last_command = last_command c, age_sec = max 0 (cdiv (now_ms - connected_at_ms c) 1000),
      idle_sec = max 0 (cdiv (now_ms - last_active_at_ms c) 1000), snap_close_requested = close_requested c\<rparr>"

definition RegisterLocalConnection :: "nat \<Rightarrow> nat \<Rightarrow> server \<Rightarrow> server" where
  "RegisterLocalConnection thread cid sv =
     sv\<lparr>tlocal_connections := (tlocal_connections sv)
          (thread := if cid \<in> set (tlocal_connections sv thread) then tlocal_connections sv thread
                     else tlocal_connections sv thread @ [cid])\<rparr>"

definition UnregisterLocalConnection :: "nat \<Rightarrow> nat \<Rightarrow> server \<Rightarrow> server" where
  "UnregisterLocalConnection thread cid sv =
     sv\<lparr>tlocal_connections := (tlocal_connections sv)(thread := remove1 cid (tlocal_connections sv thread))\<rparr>"

definition ListLocalConnections :: "int \<Rightarrow> nat \<Rightarrow> server \<Rightarrow> client_snapshot list" where
  "ListLocalConnections now_ms thread sv =
     List.map_filter (\<lambda>cid. map_option (\<lambda>c. (MakeCurrentSnapshot now_ms c)\<lparr>snap_client_id := cid\<rparr>) (conns (sv_world sv) cid))
       (tlocal_connections sv thread)"

definition KillLocalConnectionById :: "nat \<Rightarrow> nat \<Rightarrow> server \<Rightarrow> bool \<times> server" where
  "KillLocalConnectionById cid thread sv =
     (if cid \<notin> set (tlocal_connections sv thread) then (False, sv)
      else case conns (sv_world sv) cid of
             None \<Rightarrow> (False, sv)
           | Some c \<Rightarrow> (True, set_conn cid (RequestClose c) sv))"

text \<open>The loop of compare-exchanges leaves the later of the two times.\<close>

definition PauseClients :: "int \<Rightarrow> nat \<Rightarrow> server \<Rightarrow> server" where
  "PauseClients now_ms timeout_ms sv =
     (let new_pause_until_ms = (if timeout_ms > nat (INT64_MAX - now_ms) then INT64_MAX else now_ms + int timeout_ms)
      in if g_pause_until_ms sv < new_pause_until_ms then sv\<lparr>g_pause_until_ms := new_pause_until_ms\<rparr> else sv)"

definition IsPauseActive :: "int \<Rightarrow> server \<Rightarrow> bool" where
  "IsPauseActive now_ms sv \<longleftrightarrow> g_pause_until_ms sv > now_ms"

text \<open>
  \<open>PauseIfNeeded\<close>: the \<open>i\<close>-th round reads the clock and the pause; the outcome is the number of
  rounds spent asleep.
\<close>

primrec PauseIfNeeded :: "nat \<Rightarrow> (nat \<Rightarrow> int) \<Rightarrow> (nat \<Rightarrow> int) \<Rightarrow> nat \<Rightarrow> nat option" where
  "PauseIfNeeded 0 now_ms pause_until_ms i = None"
| "PauseIfNeeded (Suc n) now_ms pause_until_ms i =
     (if pause_until_ms i \<le> now_ms i then Some i else PauseIfNeeded n now_ms pause_until_ms (Suc i))"

definition BuildClientListLine :: "client_snapshot \<Rightarrow> string" where
  "BuildClientListLine snapshot =
     ''id='' @ to_string (int (snap_client_id snapshot)) @ '' addr=unknown'' @ '' laddr=unknown'' @
     '' name='' @ snap_client_name snapshot @ '' age='' @ to_string (age_sec snapshot) @
     '' idle='' @ to_string (idle_sec snapshot) @ '' flags='' @ (if snap_close_requested snapshot then ''x'' else ''N'') @
     '' db='' @ to_string (int (snap_db_index snapshot)) @ '' cmd='' @ snap_last_command snapshot"

text \<open>A task on the thread of each shard that does not touch its database.\<close>

definition threads_of :: "server \<Rightarrow> nat list" where
  "threads_of sv = (if local_only (sv_world sv) then [this_thread sv] else [0..<length (shards (sv_world sv))])"

definition CollectClientSnapshots :: "server_env \<Rightarrow> server \<Rightarrow> client_snapshot list" where
  "CollectClientSnapshots se sv =
     concat (map (\<lambda>thread. ListLocalConnections (clk (base_env se) thread) thread sv) (threads_of sv))"

definition KillClientById :: "nat \<Rightarrow> server \<Rightarrow> bool \<times> server" where
  "KillClientById cid sv =
     fold (\<lambda>thread (killed, sv). let (k, sv) = KillLocalConnectionById cid thread sv in (killed \<or> k, sv)) (threads_of sv) (False, sv)"

section \<open>Parsing and formatting\<close>

text \<open>
  The loop of \<open>GlobMatchCaseInsensitive\<close>.  The indices are represented by what is left of the
  pattern and of the text, and the two star positions by what follows them.
\<close>

partial_function (option) glob_loop :: "string \<Rightarrow> string \<Rightarrow> (string \<times> string) option \<Rightarrow> bool option" where
  "glob_loop pattern text star =
     (if text = [] then Some (dropWhile (\<lambda>c. c = CHR ''*'') pattern = [])
      else if pattern \<noteq> [] \<and> (hd pattern = CHR ''?'' \<or> ToUpperAscii (hd pattern) = ToUpperAscii (hd text)) then
        glob_loop (tl pattern) (tl text) star
      else if pattern \<noteq> [] \<and> hd pattern = CHR ''*'' then glob_loop (tl pattern) text (Some (tl pattern, text))
      else case star of
             None \<Rightarrow> Some False
           | Some (after_star, star_text) \<Rightarrow> glob_loop after_star (tl star_text) (Some (after_star, tl star_text)))"

definition GlobMatchCaseInsensitive :: "string \<Rightarrow> string \<Rightarrow> bool option" where
  "GlobMatchCaseInsensitive pattern text = glob_loop pattern text None"

definition ParseBool :: "string \<Rightarrow> bool option" where
  "ParseBool value =
     (if EqualsIgnoreCase value ''1'' \<or> EqualsIgnoreCase value ''YES'' \<or> EqualsIgnoreCase value ''TRUE'' \<or> EqualsIgnoreCase value ''ON''
      then Some True
      else if EqualsIgnoreCase value ''0'' \<or> EqualsIgnoreCase value ''NO'' \<or> EqualsIgnoreCase value ''FALSE'' \<or> EqualsIgnoreCase value ''OFF''
      then Some False
      else None)"

definition ParseClientId :: "nano_obj \<Rightarrow> nat option" where
  "ParseClientId arg =
     (if GetStringView arg \<noteq> [] then ParseUint64 (GetStringView arg) else ParseUint64 (ToString arg))"

definition ParseUint64Arg :: "nano_obj \<Rightarrow> nat option" where
  "ParseUint64Arg arg =
     (if GetStringView arg \<noteq> [] then ParseUint64 (GetStringView arg) else ParseUint64 (ToString arg))"

definition BuildConfigArrayResponse :: "(string \<times> string) list \<Rightarrow> string" where
  "BuildConfigArrayResponse items =
     MakeArray (int (length items * 2)) @ concat (map (\<lambda>(key, value). MakeBulkString key @ MakeBulkString value) items)"

definition BuildTimeArrayResponse :: "server_env \<Rightarrow> string" where
  "BuildTimeArrayResponse se =
     MakeArray 2 @ MakeBulkString (to_string (cdiv (system_micros se) 1000000)) @
     MakeBulkString (to_string (system_micros se - cdiv (system_micros se) 1000000 * 1000000))"

section \<open>Commands\<close>

text \<open>A command of the data families, on the server.\<close>

definition data_command :: "handler \<Rightarrow> server_handler" where
  "data_command h se args sv =
     bind_r (h (base_env se) args (sv_world sv)) (\<lambda>(r, w). Inr (r, sv\<lparr>sv_world := w\<rparr>))"

definition count_keys :: "env \<Rightarrow> world \<Rightarrow> (nat \<times> world) result" where
  "count_keys e w =
     (if local_only w then
        (case GetDB w of
           None \<Rightarrow> Inr (0, w)
         | Some db \<Rightarrow> let (db, n) = Database_KeyCount (clk e 0) db in Inr (n, put_db db w))
      else for_all_shards 0 (\<lambda>i db. let (db, n) = Database_KeyCount (clk e i) db in Inr (n, db)) (+) 0 w)"

definition BuildInfoPayload :: "string \<Rightarrow> server_env \<Rightarrow> server \<Rightarrow> (string \<times> server) result" where
  "BuildInfoPayload sec se sv =
     (let all_sections = (sec = [] \<or> EqualsIgnoreCase sec ''ALL'' \<or> EqualsIgnoreCase sec ''DEFAULT'');
          server_section = (all_sections \<or> EqualsIgnoreCase sec ''SERVER'');
          keyspace_section = (all_sections \<or> EqualsIgnoreCase sec ''KEYSPACE'');
          uptime = cdiv (steady_ns se - kServerStartTime se) 1000000000;
          payload = (if server_section then
              ''# Server'' @ CRLF @ ''redis_version:nano_redis_1.1'' @ CRLF @ ''redis_mode:standalone'' @ CRLF @
              ''process_id:'' @ to_string (process_id se) @ CRLF @ ''tcp_port:'' @ to_string (FLAGS_port sv) @ CRLF @
              ''uptime_in_seconds:'' @ to_string uptime @ CRLF @ ''uptime_in_days:'' @ to_string (cdiv uptime 86400) @ CRLF
            else [])
      in if keyspace_section then
           bind_r (count_keys (base_env se) (sv_world sv)) (\<lambda>(key_count, w).
             Inr (payload @ ''# Keyspace'' @ CRLF @ ''db'' @ to_string (int (db_index (ctx w))) @ '':keys='' @
                    to_string (int key_count) @ CRLF, sv\<lparr>sv_world := w\<rparr>))
         else Inr (payload, sv))"

definition Info :: server_handler where
  "Info se args sv =
     (if length args > 2 then Inr (wrong_args ''INFO'', sv)
      else
        bind_r (BuildInfoPayload (if length args = 2 then GetStringView (args ! 1) else []) se sv)
          (\<lambda>(payload, sv). Inr (MakeBulkString payload, sv)))"

definition config_options :: "server \<Rightarrow> (string \<times> string) list" where
  "config_options sv =
     [(''port'', to_string (FLAGS_port sv)), (''num_shards'', to_string (FLAGS_num_shards sv)),
      (''tcp_nodelay'', if FLAGS_tcp_nodelay sv then ''yes'' else ''no''),
      (''use_iouring_tcp_server'', if FLAGS_use_iouring_tcp_server sv then ''yes'' else ''no''),
      (''photon_handler_stack_kb'', to_string (int (FLAGS_photon_handler_stack_kb sv)))]"

definition ConfigSet :: "string \<Rightarrow> string \<Rightarrow> server \<Rightarrow> string \<times> server" where
  "ConfigSet name val sv =
     (if EqualsIgnoreCase name ''tcp_nodelay'' then
        (case ParseBool val of
           None \<Rightarrow> (MakeError (''Invalid argument for CONFIG SET '' @ quoted ''tcp_nodelay''), sv)
         | Some b \<Rightarrow> (OkResponse, sv\<lparr>FLAGS_tcp_nodelay := b\<rparr>))
      else if EqualsIgnoreCase name ''use_iouring_tcp_server'' then
        (case ParseBool val of
           None \<Rightarrow> (MakeError (''Invalid argument for CONFIG SET '' @ quoted ''use_iouring_tcp_server''), sv)
         | Some b \<Rightarrow> (OkResponse, sv\<lparr>FLAGS_use_iouring_tcp_server := b\<rparr>))
      else if EqualsIgnoreCase name ''photon_handler_stack_kb'' then
        (case from_chars_i64 val of
           Some (v, []) \<Rightarrow>
             if v \<le> 0 then (MakeError (''Invalid argument for CONFIG SET '' @ quoted ''photon_handler_stack_kb''), sv)
             else (OkResponse, sv\<lparr>FLAGS_photon_handler_stack_kb := nat v\<rparr>)
         | _ \<Rightarrow> (MakeError (''Invalid argument for CONFIG SET '' @ quoted ''photon_handler_stack_kb''), sv))
      else (MakeError ''Unsupported CONFIG parameter'', sv))"

definition Config :: server_handler where
  "Config se args sv =
     (if length args < 2 then Inr (wrong_args ''CONFIG'', sv)
      else
        let subcmd = GetStringView (args ! 1)
        in if EqualsIgnoreCase subcmd ''GET'' then
             if length args \<noteq> 3 then Inr (wrong_args ''CONFIG GET'', sv)
             else
               let pattern = ToString (args ! 2);
                   matched = filter (\<lambda>opt. GlobMatchCaseInsensitive pattern (fst opt) = Some True) (config_options sv)
               in Inr (BuildConfigArrayResponse matched, sv)
           else if EqualsIgnoreCase subcmd ''SET'' then
             if length args \<noteq> 4 then Inr (wrong_args ''CONFIG SET'', sv)
             else Inr (ConfigSet (GetStringView (args ! 2)) (GetStringView (args ! 3)) sv)
           else if EqualsIgnoreCase subcmd ''RESETSTAT'' then
             if length args \<noteq> 2 then Inr (wrong_args ''CONFIG RESETSTAT'', sv) else Inr (OkResponse, sv)
           else Inr (MakeError ''Unknown CONFIG subcommand'', sv))"

definition no_connection :: string where
  "no_connection = MakeError ''CLIENT command not available in this context''"

definition client_lines :: "client_snapshot list \<Rightarrow> string" where
  "client_lines snapshots =
     concat (map (\<lambda>i. BuildClientListLine (snapshots ! i) @ (if i + 1 \<noteq> length snapshots then [CHR 0x0A] else []))
       [0..<length snapshots])"

definition ClientList :: "server_env \<Rightarrow> server \<Rightarrow> string" where
  "ClientList se sv =
     (let snapshots = CollectClientSnapshots se sv;
          snapshots = (if snapshots = [] then
              (case this_connection sv of None \<Rightarrow> [] | Some (cid, c) \<Rightarrow> [MakeCurrentSnapshot (clk (base_env se) (length (threads_of sv))) c])
            else snapshots)
      in MakeBulkString (client_lines (sort_key snap_client_id snapshots)))"

definition ClientKill :: "nano_obj list \<Rightarrow> server \<Rightarrow> string \<times> server" where
  "ClientKill args sv =
     (if length args \<noteq> 3 \<and> length args \<noteq> 4 then (wrong_args ''CLIENT KILL'', sv)
      else if length args = 4 \<and> \<not> EqualsIgnoreCase (GetStringView (args ! 2)) ''ID'' then (MakeError ''syntax error'', sv)
      else case ParseClientId (if length args = 3 then args ! 2 else args ! 3) of
             None \<Rightarrow> (MakeError ''invalid client id'', sv)
           | Some cid \<Rightarrow> let (killed, sv) = KillClientById cid sv in (MakeInteger (if killed then 1 else 0), sv))"

definition ClientPause :: "server_env \<Rightarrow> nano_obj list \<Rightarrow> server \<Rightarrow> string \<times> server" where
  "ClientPause se args sv =
     (if length args \<noteq> 3 \<and> length args \<noteq> 4 then (wrong_args ''CLIENT PAUSE'', sv)
      else case ParseUint64Arg (args ! 2) of
             None \<Rightarrow> (MakeError ''timeout is not an integer or out of range'', sv)
           | Some timeout_ms \<Rightarrow>
               if length args = 4 \<and> \<not> EqualsIgnoreCase (GetStringView (args ! 3)) ''ALL'' \<and>
                    \<not> EqualsIgnoreCase (GetStringView (args ! 3)) ''WRITE''
               then (MakeError ''unsupported CLIENT PAUSE mode'', sv)
               else (OkResponse, PauseClients (clk (base_env se) 0) timeout_ms sv))"

definition Client :: server_handler where
  "Client se args sv =
     (if length args < 2 then Inr (wrong_args ''CLIENT'', sv)
      else
        let subcmd = GetStringView (args ! 1)
        in if EqualsIgnoreCase subcmd ''GETNAME'' then
             if length args \<noteq> 2 then Inr (wrong_args ''CLIENT GETNAME'', sv)
             else (case this_connection sv of
                     None \<Rightarrow> Inr (no_connection, sv)
                   | Some (cid, c) \<Rightarrow> Inr (if client_name c = [] then NullBulkResponse else MakeBulkString (client_name c), sv))
           else if EqualsIgnoreCase subcmd ''SETNAME'' then
             if length args \<noteq> 3 then Inr (wrong_args ''CLIENT SETNAME'', sv)
             else (case this_connection sv of
                     None \<Rightarrow> Inr (no_connection, sv)
                   | Some (cid, c) \<Rightarrow> Inr (OkResponse, set_conn cid (SetClientName (ToString (args ! 2)) c) sv))
           else if EqualsIgnoreCase subcmd ''ID'' then
             if length args \<noteq> 2 then Inr (wrong_args ''CLIENT ID'', sv)
             else (case this_connection sv of
                     None \<Rightarrow> Inr (no_connection, sv)
                   | Some (cid, c) \<Rightarrow> Inr (MakeInteger (int (client_id c)), sv))
           else if EqualsIgnoreCase subcmd ''INFO'' then
             if length args \<noteq> 2 then Inr (wrong_args ''CLIENT INFO'', sv)
             else (case this_connection sv of
                     None \<Rightarrow> Inr (no_connection, sv)
                   | Some (cid, c) \<Rightarrow> Inr (MakeBulkString (BuildClientListLine (MakeCurrentSnapshot (clk (base_env se) 0) c)), sv))
           else if EqualsIgnoreCase subcmd ''LIST'' then
             if length args \<noteq> 2 then Inr (wrong_args ''CLIENT LIST'', sv) else Inr (ClientList se sv, sv)
           else if EqualsIgnoreCase subcmd ''KILL'' then Inr (ClientKill args sv)
           else if EqualsIgnoreCase subcmd ''PAUSE'' then Inr (ClientPause se args sv)
           else Inr (MakeError ''Unknown CLIENT subcommand'', sv))"

definition Time :: server_handler where
  "Time se args sv =
     (if length args \<noteq> 1 then Inr (wrong_args ''TIME'', sv) else Inr (BuildTimeArrayResponse se, sv))"

text \<open>\<open>rand e 0\<close> reduced to the range stands for the random index.\<close>

definition random_key :: "env \<Rightarrow> string list \<Rightarrow> string" where
  "random_key e keys = (if keys = [] then NullBulkResponse else MakeBulkString (keys ! (rand e 0 mod length keys)))"

definition RandomKey_world :: handler where
  "RandomKey_world e args w =
     (if length args \<noteq> 1 then Inr (wrong_args ''RANDOMKEY'', w)
      else if local_only w then
        (case GetDB w of
           None \<Rightarrow> Inr (MakeError ''ERR internal database'', w)
         | Some db \<Rightarrow> let (db, keys) = Database_Keys (clk e 0) db in Inr (random_key e keys, put_db db w))
      else
        bind_r (for_all_shards [] (\<lambda>i db. let (db, keys) = Database_Keys (clk e i) db in Inr (keys, db))
            (\<lambda>keys all_keys. all_keys @ keys) [] w)
          (\<lambda>(all_keys, w). Inr (random_key e all_keys, w)))"

definition RandomKey :: server_handler where
  "RandomKey = data_command RandomKey_world"

definition dump_path :: "nano_obj list \<Rightarrow> string" where
  "dump_path args = (if length args = 2 then ToString (args ! 1) else ''dump.nrdb'')"

definition Save :: server_handler where
  "Save se args sv =
     (if length args > 2 then Inr (wrong_args ''SAVE'', sv)
      else
        bind_r (SaveToFile (base_env se) (header_ms se) (dump_path args) (sv_world sv) (sv_disk sv)) (\<lambda>(ec, w, d).
          let sv = sv\<lparr>sv_world := w, sv_disk := d\<rparr>
          in case ec of
               Some ec \<Rightarrow> Inr (MakeError (''SAVE failed: '' @ errc_message se ec), sv)
             | None \<Rightarrow> Inr (OkResponse, sv)))"

text \<open>\<open>snapshot_epoch_.fetch_add(1) + 1\<close>, which is reached if the temporary file could be opened.\<close>

definition next_epoch :: "string \<Rightarrow> server \<Rightarrow> server" where
  "next_epoch file_path sv =
     (if cannot_open (sv_disk sv) (tmp_path file_path) then sv
      else sv\<lparr>snapshot_epoch := (snapshot_epoch sv + 1) mod 2 ^ 64\<rparr>)"

text \<open>The fiber that \<open>BGSAVE\<close> starts on a server with several shards.\<close>

definition BgSave_fiber :: "server_env \<Rightarrow> string \<Rightarrow> nat \<Rightarrow> server \<Rightarrow> server result" where
  "BgSave_fiber se file_path num sv =
     (let sv = next_epoch file_path sv
      in bind_r (write_file num file_path (header_ms se)
            (map (\<lambda>shard_id s w. Await shard_id (Some invalid_argument, s)
                (\<lambda>db. Inr (snapshot_shard (snapshot_clock se shard_id) (snapshot_epoch sv) db s)) w) [0..<num])
            (sv_world sv) (sv_disk sv))
          (\<lambda>(ec, w, d). Inr (sv\<lparr>sv_world := w, sv_disk := d, bg_save_in_progress := False\<rparr>)))"

definition BgSave :: server_handler where
  "BgSave se args sv =
     (if length args > 2 then Inr (wrong_args ''BGSAVE'', sv)
      else if bg_save_in_progress sv then Inr (MakeError ''Background save already in progress'', sv)
      else if local_only (sv_world sv) then
        let sv = next_epoch (dump_path args) sv
        in bind_r (BgSaveToFile (snapshot_clock se) (snapshot_epoch sv) (header_ms se) (dump_path args) (sv_world sv) (sv_disk sv)) (\<lambda>(ec, w, d).
             let sv = sv\<lparr>sv_world := w, sv_disk := d, bg_save_in_progress := False\<rparr>
             in case ec of
                  Some ec \<Rightarrow> Inr (MakeError (''BGSAVE failed: '' @ errc_message se ec), sv)
                | None \<Rightarrow> Inr (MakeSimpleString ''Background saving started'', sv))
      else
        Inr (MakeSimpleString ''Background saving started'',
          sv\<lparr>bg_save_in_progress := True, bg_saves := bg_saves sv @ [(dump_path args, shard_count (ctx (sv_world sv)))]\<rparr>))"

section \<open>Glob patterns\<close>

text \<open>What a pattern means: a star stands for any text, a question mark for any character.\<close>

fun glob :: "string \<Rightarrow> string \<Rightarrow> bool" where
  "glob [] text = (text = [])"
| "glob (c # pattern) [] = (c = CHR ''*'' \<and> glob pattern [])"
| "glob (c # pattern) (d # text) =
     (if c = CHR ''*'' then glob pattern (d # text) \<or> glob (c # pattern) text
      else (c = CHR ''?'' \<or> ToUpperAscii c = ToUpperAscii d) \<and> glob pattern text)"

lemma glob_empty: "glob pattern [] \<longleftrightarrow> dropWhile (\<lambda>c. c = CHR ''*'') pattern = []"
  by (induction pattern) auto

lemma glob_star: "glob (CHR ''*'' # pattern) text \<longleftrightarrow> (\<exists>k \<le> length text. glob pattern (drop k text))"
proof (induction "text")
  case (Cons d ds)
  have "(\<exists>k \<le> length (d # ds). glob pattern (drop k (d # ds))) \<longleftrightarrow>
      glob pattern (d # ds) \<or> (\<exists>k \<le> length ds. glob pattern (drop k ds))"
  proof
    assume "\<exists>k \<le> length (d # ds). glob pattern (drop k (d # ds))"
    then obtain k where k: "k \<le> length (d # ds)" "glob pattern (drop k (d # ds))" by blast
    then show "glob pattern (d # ds) \<or> (\<exists>k \<le> length ds. glob pattern (drop k ds))" by (cases k) auto
  next
    assume "glob pattern (d # ds) \<or> (\<exists>k \<le> length ds. glob pattern (drop k ds))"
    then show "\<exists>k \<le> length (d # ds). glob pattern (drop k (d # ds))"
      by (metis Suc_le_mono drop0 drop_Suc_Cons le0 length_Cons)
  qed
  then show ?case using Cons by simp
qed simp

text \<open>A piece of a pattern without stars, compared with a text of the same length.\<close>

definition piece_matches :: "string \<Rightarrow> string \<Rightarrow> bool" where
  "piece_matches lit u \<longleftrightarrow> list_all2 (\<lambda>c d. c \<noteq> CHR ''*'' \<and> (c = CHR ''?'' \<or> ToUpperAscii c = ToUpperAscii d)) lit u"

lemma glob_piece: "piece_matches lit u \<Longrightarrow> glob (lit @ pattern) (u @ text) = glob pattern text"
  unfolding piece_matches_def by (induction lit u rule: list_all2_induct) auto

lemma glob_pieceE:
  assumes "CHR ''*'' \<notin> set lit" "glob (lit @ pattern) text"
  shows "length lit \<le> length text \<and> piece_matches lit (take (length lit) text) \<and> glob pattern (drop (length lit) text)"
  using assms
proof (induction lit arbitrary: "text")
  case (Cons c lit)
  then show ?case by (cases "text") (auto simp: piece_matches_def)
qed (simp add: piece_matches_def)

lemma piece_no_star: "piece_matches lit u \<Longrightarrow> CHR ''*'' \<notin> set lit"
  unfolding piece_matches_def by (induction rule: list_all2_induct) auto

text \<open>
  What the loop decides in a state: the rest of the pattern matches the rest of the text, or the
  last star takes at least one more character.  In every state of the loop the text after the star
  starts with a match of the pattern between the star and the current position.
\<close>

definition glob_state :: "string \<Rightarrow> string \<Rightarrow> (string \<times> string) option \<Rightarrow> bool" where
  "glob_state pattern text star \<longleftrightarrow> glob pattern text \<or>
     (\<exists>r s k. star = Some (r, s) \<and> 0 < k \<and> k \<le> length s \<and> glob r (drop k s))"

definition star_ok :: "string \<Rightarrow> string \<Rightarrow> (string \<times> string) option \<Rightarrow> bool" where
  "star_ok pattern text star \<longleftrightarrow> (\<forall>r s. star = Some (r, s) \<longrightarrow>
     (\<exists>lit u. r = lit @ pattern \<and> s = u @ text \<and> piece_matches lit u))"

lemma glob_later_star:
  assumes "star_ok (CHR ''*'' # pattern) text star"
  shows "glob_state (CHR ''*'' # pattern) text star \<longleftrightarrow> glob_state pattern text (Some (pattern, text))"
proof -
  have st: "glob (CHR ''*'' # pattern) text \<longleftrightarrow> glob_state pattern text (Some (pattern, text))"
    unfolding glob_star glob_state_def by (metis drop0 bot_nat_0.not_eq_extremum le0 option.inject prod.inject)
  have "glob (CHR ''*'' # pattern) text" if s: "star = Some (r, s)" "0 < k" "k \<le> length s" "glob r (drop k s)" for r s k
  proof -
    obtain lit u where l: "r = lit @ CHR ''*'' # pattern" "s = u @ text" "piece_matches lit u"
      using assms s(1) unfolding star_ok_def by blast
    note p = glob_pieceE [OF piece_no_star [OF l(3)] s(4) [unfolded l(1)]]
    have len: "length lit = length u" using l(3) by (auto simp: piece_matches_def dest: list_all2_lengthD)
    have "drop (length lit) (drop k s) = drop (length u + k) (u @ text)"
      by (simp add: l(2) len add.commute del: drop_append)
    also have "\<dots> = drop k text" by simp
    finally have "drop (length lit) (drop k s) = drop k text" .
    then have "glob (CHR ''*'' # pattern) (drop k text)" using p by simp
    then obtain j where "j \<le> length (drop k text)" "glob pattern (drop j (drop k text))" unfolding glob_star by blast
    then have "glob pattern (drop (j + k) text)" by simp
    moreover have "k \<le> length text"
    proof -
      have "length (drop k s) = length u + length text - k" by (simp add: l(2) del: drop_append)
      then show ?thesis using conjunct1 [OF p] len s(3) by (simp add: l(2) del: drop_append length_drop)
    qed
    moreover have "j + k \<le> length text" using \<open>j \<le> length (drop k text)\<close> \<open>k \<le> length text\<close> by simp
    ultimately show ?thesis unfolding glob_star by blast
  qed
  then show ?thesis unfolding st [symmetric] by (auto simp: glob_state_def)
qed

lemma ToUpperAscii_star: "ToUpperAscii d = CHR ''*'' \<longleftrightarrow> d = CHR ''*''"
proof (cases "97 \<le> (of_char d :: nat) \<and> (of_char d :: nat) \<le> 122")
  case True
  then have u: "ToUpperAscii d = char_of (of_char d - 32 :: nat)" by (simp add: ToUpperAscii_def)
  have "(of_char d :: nat) - 32 < 256" using True by linarith
  then have "(of_char (char_of (of_char d - 32 :: nat)) :: nat) = of_char d - 32" by simp
  moreover have "(of_char d :: nat) - 32 \<noteq> 42" "(of_char CHR ''*'' :: nat) = 42" using True by (linarith, simp)
  ultimately have "(of_char (ToUpperAscii d) :: nat) \<noteq> of_char CHR ''*''" unfolding u by simp
  moreover have "(of_char d :: nat) \<noteq> of_char CHR ''*''" using True by simp
  ultimately show ?thesis by auto
qed (auto simp: ToUpperAscii_def)

lemma glob_mismatch:
  assumes "text \<noteq> []" "\<not> (pattern \<noteq> [] \<and> (hd pattern = CHR ''?'' \<or> ToUpperAscii (hd pattern) = ToUpperAscii (hd text)))"
    "\<not> (pattern \<noteq> [] \<and> hd pattern = CHR ''*'')"
  shows "\<not> glob pattern text"
  using assms by (cases pattern; cases "text") auto

lemma glob_backtrack:
  assumes "\<not> glob pattern text" "star = Some (r, s)" "s \<noteq> []"
  shows "glob_state pattern text star \<longleftrightarrow> glob_state r (tl s) (Some (r, tl s))"
proof -
  have "(\<exists>k. 0 < k \<and> k \<le> length s \<and> glob r (drop k s)) \<longleftrightarrow>
      glob r (tl s) \<or> (\<exists>k. 0 < k \<and> k \<le> length (tl s) \<and> glob r (drop k (tl s)))" (is "?l \<longleftrightarrow> ?r")
  proof
    assume ?l
    then obtain k where "0 < k" "k \<le> length s" "glob r (drop k s)" by blast
    moreover obtain j where "k = Suc j" using \<open>0 < k\<close> gr0_conv_Suc by blast
    ultimately have "glob r (drop j (tl s))" "j \<le> length (tl s)" by (auto simp: drop_Suc)
    then show ?r by (cases "j = 0") auto
  next
    assume ?r
    moreover have "drop (Suc k) s = drop k (tl s)" for k by (simp add: drop_Suc)
    ultimately show ?l using assms(3) by (metis Suc_le_mono drop0 length_Cons le0 list.collapse zero_less_Suc)
  qed
  then show ?thesis using assms(1,2) by (auto simp: glob_state_def)
qed

lemma glob_loop_state:
  assumes "CHR ''*'' \<notin> set text" "star_ok pattern text star" "\<forall>r s. star = Some (r, s) \<longrightarrow> CHR ''*'' \<notin> set s"
  shows "glob_loop pattern text star = Some (glob_state pattern text star)"
  using assms
proof (induction "(pattern, text, star)" arbitrary: pattern "text" star
    rule: wf_induct_rule [OF wf_measures [of "[\<lambda>(p, t, st). case st of None \<Rightarrow> Suc (length p) | Some (r, s) \<Rightarrow> length r,
      \<lambda>(p, t, st). case st of None \<Rightarrow> 0 | Some (r, s) \<Rightarrow> length s, \<lambda>(p, t, st). length t]"]])
  case (1 pattern ds star)
  note prems = 1(2-4) and IH = 1(1)
  consider "ds = []" | c p d t where "pattern = c # p" "ds = d # t" "c = CHR ''?'' \<or> ToUpperAscii c = ToUpperAscii d"
    | p where "ds \<noteq> []" "pattern = CHR ''*'' # p" "\<not> (hd pattern = CHR ''?'' \<or> ToUpperAscii (hd pattern) = ToUpperAscii (hd ds))"
    | "ds \<noteq> []" "\<not> (pattern \<noteq> [] \<and> (hd pattern = CHR ''?'' \<or> ToUpperAscii (hd pattern) = ToUpperAscii (hd ds)))"
      "\<not> (pattern \<noteq> [] \<and> hd pattern = CHR ''*'')"
    by (cases pattern; cases ds) auto
  then show ?case
  proof cases
    case 1
    have "\<not> (\<exists>r s k. star = Some (r, s) \<and> 0 < k \<and> k \<le> length s \<and> glob r (drop k s)) \<or> glob pattern []"
    proof (intro disjCI notI, elim exE conjE)
      fix r s k assume s: "star = Some (r, s)" "0 < k" "k \<le> length s" "glob r (drop k s)" and g: "\<not> glob pattern []"
      obtain lit u where l: "r = lit @ pattern" "s = u" "piece_matches lit u" using prems(2) s(1) 1 unfolding star_ok_def by auto
      have "length lit = length s" using l by (auto simp: piece_matches_def dest: list_all2_lengthD)
      moreover have "length lit \<le> length s - k" using glob_pieceE [OF piece_no_star [OF l(3)] s(4) [unfolded l(1)]] by simp
      ultimately show False using s(2,3) by linarith
    qed
    then show ?thesis unfolding glob_loop.simps [of pattern] using 1 by (auto simp: glob_state_def glob_empty)
  next
    case (2 c p d t)
    have ns: "c \<noteq> CHR ''*''" using 2 prems(1) ToUpperAscii_star [of d] by (auto simp: ToUpperAscii_def [of "CHR ''*''"])
    have ok: "star_ok p t star"
      unfolding star_ok_def
    proof (intro allI impI)
      fix r s assume "star = Some (r, s)"
      then obtain lit u where "r = lit @ pattern" "s = u @ ds" "piece_matches lit u" using prems(2) unfolding star_ok_def by blast
      then have "r = (lit @ [c]) @ p" "s = (u @ [d]) @ t" "piece_matches (lit @ [c]) (u @ [d])"
        using 2 ns by (auto simp: piece_matches_def list_all2_appendI)
      then show "\<exists>lit u. r = lit @ p \<and> s = u @ t \<and> piece_matches lit u" by blast
    qed
    have "glob_state pattern ds star = glob_state p t star" using 2 ns by (auto simp: glob_state_def)
    moreover have "glob_loop p t star = Some (glob_state p t star)"
      by (rule IH) (use 2 prems ok in \<open>auto split: option.splits\<close>)
    ultimately show ?thesis unfolding glob_loop.simps [of pattern] using 2 by simp
  next
    case (3 p)
    have "glob_loop p ds (Some (p, ds)) = Some (glob_state p ds (Some (p, ds)))"
    proof (rule IH)
      have "length p < length r" if "star = Some (r, s)" for r s using that prems(2) 3(2) unfolding star_ok_def by fastforce
      then show "((p, ds, Some (p, ds)), pattern, ds, star) \<in> measures [\<lambda>(p, t, st). case st of None \<Rightarrow> Suc (length p) | Some (r, s) \<Rightarrow> length r,
          \<lambda>(p, t, st). case st of None \<Rightarrow> 0 | Some (r, s) \<Rightarrow> length s, \<lambda>(p, t, st). length t]"
        using 3(2) by (auto split: option.splits)
      have "piece_matches [] []" by (simp add: piece_matches_def)
      then show "star_ok p ds (Some (p, ds))" by (auto simp: star_ok_def)
    qed (use prems(1) in auto)
    then show ?thesis unfolding glob_loop.simps [of pattern] using 3 glob_later_star [OF prems(2) [unfolded 3(2)]] by simp
  next
    case 4
    note mis = glob_mismatch [OF 4]
    show ?thesis
    proof (cases star)
      case None
      then show ?thesis unfolding glob_loop.simps [of pattern] using 4 mis by (auto simp: glob_state_def)
    next
      case (Some rs)
      obtain r s where rs: "star = Some (r, s)" using Some by (cases rs) auto
      have s: "s \<noteq> []" using prems(2) rs 4(1) unfolding star_ok_def by fastforce
      have "glob_loop r (tl s) (Some (r, tl s)) = Some (glob_state r (tl s) (Some (r, tl s)))"
      proof (rule IH)
        have "piece_matches [] []" by (simp add: piece_matches_def)
        then show "star_ok r (tl s) (Some (r, tl s))" by (auto simp: star_ok_def)
        show "CHR ''*'' \<notin> set (tl s)" using prems(3) rs s by (metis list.set_sel(2))
        then show "\<forall>r' s'. Some (r, tl s) = Some (r', s') \<longrightarrow> CHR ''*'' \<notin> set s'" by simp
      qed (use rs s in auto)
      moreover have "glob_loop pattern ds star = glob_loop r (tl s) (Some (r, tl s))"
        unfolding glob_loop.simps [of pattern] using 4 rs by auto
      ultimately show ?thesis using glob_backtrack [OF mis rs s] by simp
    qed
  qed
qed

text \<open>
  C38: \<open>CONFIG GET\<close> selects the options whose names match the pattern in the usual sense: the
  backtracking matcher ends and agrees with the meaning of stars and question marks, on texts
  without a star (as the names of options are).  A star in the text is taken literally first, so a
  pattern with a star can fail on such a text.
\<close>

theorem GlobMatch_reference:
  assumes "CHR ''*'' \<notin> set text"
  shows "GlobMatchCaseInsensitive pattern text = Some (glob pattern text)"
  using glob_loop_state [OF assms, of pattern None]
  by (simp add: GlobMatchCaseInsensitive_def star_ok_def glob_state_def)

theorem GlobMatch_reference_witness:
  "GlobMatchCaseInsensitive ''*_N?D*y'' ''tcp_nodelay'' = Some True"
proof -
  have "glob ''*_N?D*y'' ''tcp_nodelay''" "CHR ''*'' \<notin> set ''tcp_nodelay''" by code_simp+
  then show ?thesis using GlobMatch_reference [of "''tcp_nodelay''" "''*_N?D*y''"] by simp
qed

lemma GlobMatch_literal_star: "GlobMatchCaseInsensitive ''*a'' ''*ba'' = Some False" "glob ''*a'' ''*ba''"
  by (simp_all add: GlobMatchCaseInsensitive_def glob_loop.simps ToUpperAscii_def)

end
