(* ===== verification/Spec2Isabelle.thy ===== *)
theory Spec2Isabelle
  imports Nano_Prelude Nano_Util Dense_Map Wyhash Nano_Obj Dash_Table Nano_Database Resp_Protocol Command_Context Hash_Family Set_Family List_Family Persistence Task_Queue Server_Family
begin

text \<open>
  A verification library for nano_redis, a Redis-compatible in-memory server written in C++.

  \<^bold>\<open>The program.\<close>  A server process runs one thread per shard.  Each shard owns a \<open>Database\<close>: sixteen
  logical databases, each a \<open>DashTable\<close> (extendible hashing over dense hash maps) from \<open>NanoObj\<close> keys to
  \<open>NanoObj\<close> values, with a second table of expiry times.  A connection reads requests in the RESP
  protocol, looks the command up in the \<open>CommandRegistry\<close> and executes its handler with a
  \<open>CommandContext\<close>, on its own thread or, through the \<open>TaskQueue\<close> of the shard that owns the key, on
  another one.  Handlers of commands with several keys send one task to each shard involved.  \<open>SAVE\<close>
  and \<open>BGSAVE\<close> write all databases to a dump file, which is loaded when the server starts.

  \<^bold>\<open>The theories\<close>, in the order of their imports, and the sources they model (below \<open>src/\<close>):
  \<^item> \<open>Nano_Prelude\<close>: faults, results and generic lemmas.  \<open>fault + 'a\<close> is the result of code that may
    fail: every thrown exception, failed allocation, null dereference and undefined operation of the
    source is an \<open>Inl\<close> branch of the model; \<open>bind_r\<close> sequences such code.
  \<^item> \<open>Nano_Util\<close>: \<open>src/core/util.cc\<close> and the number parsing of the standard library that commands use.
  \<^item> \<open>Dense_Map\<close>, \<open>Wyhash\<close>: the element vector and the hash of \<open>include/core/unordered_dense.h\<close>.
  \<^item> \<open>Nano_Obj\<close>: \<open>src/core/nano_obj.cc\<close>, the 16-byte tagged object.  \<open>scalar_ok\<close> and \<open>obj_ok\<close> say
    that the fields of an object are within their limits and a container is of the type it claims.
  \<^item> \<open>Dash_Table\<close>: \<open>src/core/dashtable.cc\<close>.  \<open>dt_inv\<close> is the invariant of directory and contents; the
    locale \<open>hashed_keys\<close> collects what the table needs of hash and equality and is interpreted on those
    of \<open>NanoObj\<close>.
  \<^item> \<open>Nano_Database\<close>: \<open>src/core/database.cc\<close>.  \<open>db_view db i now k\<close> is what is visible of a key.
  \<^item> \<open>Resp_Protocol\<close>: \<open>src/protocol/resp_parser.cc\<close>, the reply builders and the buffered parser over a
    socket that delivers blocks of bytes.
  \<^item> \<open>Command_Context\<close>: \<open>src/core/command_context.cc\<close>, \<open>include/server/sharding.h\<close>, the state \<open>world\<close> that
    handlers work on, and \<open>Await\<close>.
  \<^item> \<open>Db_Contract\<close>: the locale \<open>db_contract\<close>, the laws of the database operations for a predicate on
    databases, with three interpretations; in it the command families prove once that each of their
    handlers keeps the predicate.
  \<^item> \<open>String_Family\<close>, \<open>Hash_Family\<close>, \<open>Set_Family\<close>, \<open>List_Family\<close>, and \<open>Keyed_Containers\<close> with what the last
    three share: all handlers of \<open>src/command/*_family.cc\<close>.
  \<^item> \<open>Rdb_Serializer\<close>, \<open>Rdb_Loader\<close>, \<open>Persistence\<close>: the dump file format, its writer and loader
    (\<open>src/core/rdb_serializer.cc\<close>, \<open>src/core/rdb_loader.cc\<close>), snapshots (\<open>src/server/slice_snapshot.cc\<close>),
    \<open>SaveToFile\<close>, \<open>BgSaveToFile\<close> and \<open>LoadFromFile\<close>, over a disk whose operations may fail.
  \<^item> \<open>Task_Queue\<close>: \<open>src/core/task_queue.cc\<close>, the bounded multi-producer multi-consumer queue, as whole
    operations and as the steps of interleaved threads.
  \<^item> \<open>Command_Registry\<close>: \<open>src/command/command_registry.cc\<close>.
  \<^item> \<open>Server_Family\<close>: \<open>src/command/server_family.cc\<close> and the connection list of
    \<open>src/server/proactor_pool.cc\<close>.

  \<^bold>\<open>Conventions.\<close>  A handler is a function of the environment, the arguments and the state.  The
  environment \<open>env\<close> collects what a command obtains from outside: the readings of the clock (\<open>clk e i\<close> is
  the \<open>i\<close>-th one), the hash function of \<open>absl\<close>, the iteration order of \<open>std::unordered_map\<close>, random numbers
  and the largest allocation that succeeds; theorems hold for every environment unless they name what
  they assume of it.  64-bit integers are \<open>int\<close> with explicit range checks where the code can overflow,
  hashes are 64-bit words, strings are lists of characters.

  \<^bold>\<open>What is proved\<close>, by component: the values parsed and printed agree, and objects keep their bytes; the
  table refines a flat map, its insertion ends, and its directory stays consistent; reads show exactly the
  unexpired entries and expiry removes nothing else; requests are parsed back to their arguments, and the
  non-blocking parser restores its position; the handlers compute the replies and effects of their
  commands, those of hashes, sets and lists as refinements of maps, sets and sequences, and multi-key
  commands agree with single-key commands routed to the owners; a file is read back as it was written,
  every file is read in finite time, and what a restart restores and loses; the task queue is a bounded
  FIFO queue under every interleaving; the pattern matcher agrees with its specification.

  \<^bold>\<open>Bounds and fuel.\<close>  The loop of \<open>DashTable::Insert\<close> runs at most once per possible depth of the directory:
  \<open>dir_limit + 1\<close> rounds, after which doubling fails.  The loop of the loader consumes a byte per round, so
  one more round than bytes suffices (\<open>Load_terminates\<close>).  The loops of \<open>TaskQueue::Run\<close> and \<open>Add\<close> wait for
  other threads and take a bound as an argument; \<open>None\<close> says that it was reached.  The matcher is a partial
  function that is proved to return.

  \<^bold>\<open>Not modelled.\<close>  The bucket array of \<open>unordered_dense\<close> (the model keeps the element vector, in whose order
  iteration runs), memory addresses and freeing, the threads, fibers, sockets and semaphores of the photon
  library, command-line flags and logging.  Within one command no other command runs: \<open>Await\<close> executes its
  task at once.  The loop that reads requests from a connection, routes and answers them is not
  modelled either.
\<close>

end
